(* ===== verification/Dma_Prelude.thy ===== *)
theory Dma_Prelude
  imports Main "HOL-Library.Word"
begin

text \<open>
  Shared ground of the development.

  \<^item> The fixed-width integers of the sources: \<open>ap_uint<N>\<close> and the C integer types are
    \<open>N word\<close>. The bit-range accessors \<open>w(hi, lo)\<close> of \<open>ap_uint\<close>, as values
    (\<open>range_get\<close>) and as assignment targets (\<open>range_set\<close>).
  \<^item> Bytes of a word (\<open>byte_at\<close>, \<open>word_bytes\<close>), the view in which the stream
    components are specified.
  \<^item> \<open>hls::stream<T>\<close> as a list, oldest element first, and an HLS process as a function
    called once per clock cycle: \<open>calls\<close> iterates it and \<open>drains\<close> says that some number
    of calls consumes an input completely.
  \<^item> The locale \<open>hls_process\<close>: what every single-input HLS process of the repository
    promises (it looks at the head of its input only, consumes at most that word and does
    nothing on an empty input it waits for), and what follows from it for every one of them:
    runs compose, and the schedule on which the words arrive does not matter.
\<close>

unbundle bit_operations_syntax

named_theorems range_simps \<open>bits of the bit-range accessors\<close>

section \<open>Fixed-width integers and bit ranges\<close>

type_synonym u8 = "8 word"
type_synonym u16 = "16 word"
type_synonym u32 = "32 word"
type_synonym u48 = "48 word"
type_synonym u64 = "64 word"

text \<open>The value of \<open>w(hi, lo)\<close>: the bits \<open>lo\<close> to \<open>hi\<close> of \<open>w\<close>, moved to bit 0.\<close>

definition range_get :: "nat \<Rightarrow> nat \<Rightarrow> 'a::len word \<Rightarrow> 'b::len word" where
  "range_get hi lo w = ucast (take_bit (Suc hi - lo) (drop_bit lo w))"

text \<open>The assignment \<open>w(hi, lo) = v\<close>: the low bits of \<open>v\<close> replace the bits \<open>lo\<close> to
  \<open>hi\<close> of \<open>w\<close>, every other bit stays.\<close>

definition range_set :: "nat \<Rightarrow> nat \<Rightarrow> 'b::len word \<Rightarrow> 'a::len word \<Rightarrow> 'a word" where
  "range_set hi lo v w =
     (w AND NOT (push_bit lo (mask (Suc hi - lo)))) OR push_bit lo (take_bit (Suc hi - lo) (ucast v))"

lemma bit_range_get [range_simps]:
  "bit (range_get hi lo w :: 'b::len word) i \<longleftrightarrow> i < LENGTH('b) \<and> i < Suc hi - lo \<and> bit w (lo + i)"
  for w :: "'a::len word"
  by (auto simp: range_get_def bit_simps dest: bit_imp_le_length)

lemma bit_range_set [range_simps]:
  "bit (range_set hi lo v w) i \<longleftrightarrow>
     i < LENGTH('a) \<and> (if lo \<le> i \<and> i \<le> hi then bit v (i - lo) else bit w i)"
  for w :: "'a::len word" and v :: "'b::len word"
  by (auto simp: range_set_def bit_simps dest: bit_imp_le_length)

lemma drop_take_append: "k \<le> n \<Longrightarrow> n \<le> length xs \<Longrightarrow> drop k (take n xs) @ drop n xs = drop k xs"
  by (metis append_take_drop_id diff_is_0_eq' drop0 drop_append length_take min.absorb2)

lemma unat_ucast_mod: "unat (ucast w :: 'b::len word) = unat w mod 2 ^ LENGTH('b)" for w :: "'a::len word"
  by (simp add: unsigned_ucast_eq take_bit_eq_mod)

section \<open>Bytes of a word\<close>

definition byte_at :: "'a::len word \<Rightarrow> nat \<Rightarrow> u8" where
  "byte_at w i = ucast (drop_bit (8 * i) w)"

definition word_bytes :: "'a::len word \<Rightarrow> u8 list" where
  "word_bytes w = map (byte_at w) [0..<LENGTH('a) div 8]"

lemma bit_byte_at [range_simps]: "bit (byte_at w i) n \<longleftrightarrow> n < 8 \<and> bit w (8 * i + n)"
  for w :: "'a::len word"
  by (auto simp: byte_at_def bit_simps)

lemma length_word_bytes [simp]: "length (word_bytes w) = LENGTH('a) div 8"
  for w :: "'a::len word"
  by (simp add: word_bytes_def)

lemma nth_word_bytes [simp]: "i < LENGTH('a) div 8 \<Longrightarrow> word_bytes w ! i = byte_at w i"
  for w :: "'a::len word"
  by (simp add: word_bytes_def)

text \<open>A loop that assigns one byte, or one bit, of its result per iteration.\<close>

lemma bit_fold_bytes [range_simps]:
  fixes t :: "'a::len word" and f :: "nat \<Rightarrow> u8"
  assumes "j < LENGTH('a)"
  shows "bit (fold (\<lambda>i t. range_set (i*8+7) (i*8) (f i) t) [0..<n] t) j \<longleftrightarrow>
    (if j < 8 * n then bit (f (j div 8)) (j mod 8) else bit t j)"
proof (induction n)
  case 0
  show ?case by simp
next
  case (Suc n)
  show ?case
  proof (cases "n * 8 \<le> j \<and> j \<le> n * 8 + 7")
    case True
    then have "j div 8 = n" by arith
    moreover have "j mod 8 = j - n * 8" using \<open>j div 8 = n\<close> by (simp add: minus_div_mult_eq_mod [symmetric])
    moreover have "j < 8 * Suc n" using True by simp
    ultimately show ?thesis using True assms by (simp add: bit_range_set)
  next
    case False
    then have "j < 8 * Suc n \<longleftrightarrow> j < 8 * n" by arith
    moreover have "bit (fold (\<lambda>i t. range_set (i*8+7) (i*8) (f i) t) [0..<Suc n] t) j \<longleftrightarrow>
      bit (fold (\<lambda>i t. range_set (i*8+7) (i*8) (f i) t) [0..<n] t) j"
      using False assms by (auto simp: bit_range_set)
    ultimately show ?thesis using Suc.IH by simp
  qed
qed

lemma bit_fold_bits [range_simps]:
  fixes t :: "'a::len word" and f :: "nat \<Rightarrow> 1 word"
  assumes "j < LENGTH('a)"
  shows "bit (fold (\<lambda>i t. range_set i i (f i) t) [0..<n] t) j \<longleftrightarrow> (if j < n then bit (f j) 0 else bit t j)"
proof (induction n)
  case 0
  show ?case by simp
next
  case (Suc n)
  show ?case using assms by (auto simp: Suc.IH bit_range_set less_Suc_eq)
qed

section \<open>Streams and processes\<close>

text \<open>
  One call of an HLS process maps its static variables and its input stream to the new static
  variables, what is left of the input and the words written by this call.
\<close>

type_synonym ('s, 'i, 'o) process = "'s \<Rightarrow> 'i list \<Rightarrow> 's \<times> 'i list \<times> 'o list"

fun calls :: "('s, 'i, 'o) process \<Rightarrow> nat \<Rightarrow> ('s, 'i, 'o) process" where
  "calls f 0 s xs = (s, xs, [])"
| "calls f (Suc n) s xs =
     (case f s xs of (s1, xs1, out1) \<Rightarrow>
        (case calls f n s1 xs1 of (s2, xs2, out2) \<Rightarrow> (s2, xs2, out1 @ out2)))"

definition drains :: "('s, 'i, 'o) process \<Rightarrow> 's \<Rightarrow> 'i list \<Rightarrow> 's \<Rightarrow> 'o list \<Rightarrow> bool" where
  "drains f s xs s' out \<longleftrightarrow> (\<exists>n. calls f n s xs = (s', [], out))"

text \<open>
  A schedule says which words arrive before each call; words the process has not consumed
  stay in the stream.
\<close>

fun scheduled :: "('s, 'i, 'o) process \<Rightarrow> 's \<Rightarrow> 'i list \<Rightarrow> 'i list list \<Rightarrow> 's \<times> 'i list \<times> 'o list" where
  "scheduled f s buf [] = (s, buf, [])"
| "scheduled f s buf (ws # wss) =
     (case f s (buf @ ws) of (s1, buf1, out1) \<Rightarrow>
        (case scheduled f s1 buf1 wss of (s2, buf2, out2) \<Rightarrow> (s2, buf2, out1 @ out2)))"

lemma calls_add:
  "calls f n s xs = (s1, xs1, o1) \<Longrightarrow> calls f m s1 xs1 = (s2, xs2, o2) \<Longrightarrow>
   calls f (n + m) s xs = (s2, xs2, o1 @ o2)"
  by (induction n arbitrary: s xs o1) (auto split: prod.splits)

lemma drains_Nil [simp, intro]: "drains f s [] s []"
  by (auto simp: drains_def intro: exI [of _ 0])

lemma drains_step:
  "f s xs = (s1, xs1, o1) \<Longrightarrow> drains f s1 xs1 s2 o2 \<Longrightarrow> drains f s xs s2 (o1 @ o2)"
proof -
  assume st: "f s xs = (s1, xs1, o1)" and "drains f s1 xs1 s2 o2"
  then obtain n where "calls f n s1 xs1 = (s2, [], o2)" by (auto simp: drains_def)
  with st have "calls f (Suc n) s xs = (s2, [], o1 @ o2)" by simp
  then show ?thesis by (auto simp: drains_def simp del: calls.simps)
qed

text \<open>The contract of a single-input HLS process.\<close>

locale hls_process =
  fixes step :: "('s, 'i, 'o) process"
  assumes head_only: "step s (x # xs) = (case step s [x] of (s', r, out) \<Rightarrow> (s', r @ xs, out))"
    and consumes_at_most_head: "step s [x] = (s', r, out) \<Longrightarrow> r = [] \<or> r = [x]"
    and empty_stays: "step s [] = (s', r, out) \<Longrightarrow> r = []"
    and blind: "step s [x] = (s', [x], out) \<Longrightarrow> step s [] = (s', [], out)"
    and waits: "step s [x] = (s', [], out) \<Longrightarrow> step s [] = (s, [], [])"
begin

lemmas step_drains = drains_step [where f = step]

lemma step_append:
  assumes "xs \<noteq> []" and "step s xs = (s', r, out)"
  shows "step s (xs @ ys) = (s', r @ ys, out)"
proof -
  obtain x xs' where xs: "xs = x # xs'" using assms(1) by (cases xs) auto
  show ?thesis
    using assms(2) by (auto simp: xs head_only [of s x xs'] head_only [of s x "xs' @ ys"] split: prod.splits)
qed

text \<open>A call on an empty stream is either a call the same process could make before reading
  the next word, or it does nothing.\<close>

lemma step_empty_cases:
  assumes "step s [] = (s', r, out)"
  shows "(s' = s \<and> out = []) \<or> step s ys = (s', ys, out)"
proof (cases ys)
  case Nil
  then show ?thesis using assms empty_stays [OF assms] by simp
next
  case (Cons y ys')
  obtain t r' out' where st: "step s [y] = (t, r', out')" by (cases "step s [y]") auto
  from consumes_at_most_head [OF st] show ?thesis
  proof
    assume "r' = []"
    with st have "step s [] = (s, [], [])" using waits by simp
    with assms show ?thesis by simp
  next
    assume r': "r' = [y]"
    with st have "step s [] = (t, [], out')" using blind by simp
    with assms st r' Cons show ?thesis by (simp add: head_only [of s y ys'])
  qed
qed

text \<open>Words that arrive later do not change what the process has done so far.\<close>

lemma calls_append:
  "calls step n s xs = (s', r, out) \<Longrightarrow> \<exists>m \<le> n. calls step m s (xs @ ys) = (s', r @ ys, out)"
proof (induction n arbitrary: s xs out)
  case 0
  then show ?case by simp
next
  case (Suc n)
  obtain s1 xs1 o1 where st: "step s xs = (s1, xs1, o1)" by (cases "step s xs") auto
  with Suc.prems obtain o2 where rest: "calls step n s1 xs1 = (s', r, o2)" and out: "out = o1 @ o2"
    by (auto split: prod.splits)
  from Suc.IH [OF rest] obtain m where m: "m \<le> n" "calls step m s1 (xs1 @ ys) = (s', r @ ys, o2)"
    by blast
  consider "s1 = s" "o1 = []" "xs1 = xs" | "step s (xs @ ys) = (s1, xs1 @ ys, o1)"
    using step_append [of xs s, OF _ st] step_empty_cases [of s s1 xs1 o1 ys] empty_stays [of s s1 xs1 o1] st
    by (cases "xs = []") auto
  then show ?case
  proof cases
    case 1
    with m out show ?thesis by (auto intro: exI [of _ m])
  next
    case 2
    with m out show ?thesis by (auto intro: exI [of _ "Suc m"])
  qed
qed

text \<open>Runs on consecutive inputs compose.\<close>

lemma drains_append:
  assumes "drains step s xs s1 o1" and "drains step s1 ys s2 o2"
  shows "drains step s (xs @ ys) s2 (o1 @ o2)"
proof -
  from assms obtain n k where n: "calls step n s xs = (s1, [], o1)" and k: "calls step k s1 ys = (s2, [], o2)"
    by (auto simp: drains_def)
  from calls_append [OF n, of ys] obtain m where "calls step m s (xs @ ys) = (s1, ys, o1)"
    by auto
  from calls_add [OF this k] show ?thesis by (auto simp: drains_def)
qed

text \<open>Once the input is consumed and the process is waiting, further calls change nothing.\<close>

lemma calls_idle: "step s [] = (s, [], []) \<Longrightarrow> calls step n s [] = (s, [], [])"
  by (induction n) auto

lemma drains_stable:
  assumes "drains step s xs s' out" and "step s' [] = (s', [], [])"
  shows "\<exists>n. \<forall>m \<ge> n. calls step m s xs = (s', [], out)"
proof -
  from assms(1) obtain n where n: "calls step n s xs = (s', [], out)" by (auto simp: drains_def)
  have "calls step m s xs = (s', [], out)" if "n \<le> m" for m
    using calls_add [OF n calls_idle [OF assms(2), of "m - n"]] that by simp
  then show ?thesis by blast
qed

text \<open>Stalls and bursts on the input do not matter: what a process has done on any arrival
  schedule is what it does, in no more calls, with the whole input present from the start.\<close>

lemma schedule_insensitive:
  "scheduled step s buf wss = (s', r, out) \<Longrightarrow>
   \<exists>m \<le> length wss. calls step m s (buf @ concat wss) = (s', r, out)"
proof (induction wss arbitrary: s buf out)
  case Nil
  then show ?case by simp
next
  case (Cons ws wss)
  obtain s1 buf1 o1 where st: "step s (buf @ ws) = (s1, buf1, o1)" by (cases "step s (buf @ ws)") auto
  with Cons.prems obtain o2 where rest: "scheduled step s1 buf1 wss = (s', r, o2)" and out: "out = o1 @ o2"
    by (auto split: prod.splits)
  from Cons.IH [OF rest] obtain m where
    m: "m \<le> length wss" "calls step m s1 (buf1 @ concat wss) = (s', r, o2)" by blast
  have "calls step 1 s (buf @ ws) = (s1, buf1, o1)" using st by simp
  from calls_append [OF this, of "concat wss"] obtain k where
    k: "k \<le> 1" "calls step k s ((buf @ ws) @ concat wss) = (s1, buf1 @ concat wss, o1)" by blast
  from calls_add [OF k(2) m(2)] k(1) m(1) out show ?case
    by (auto intro!: exI [of _ "k + m"])
qed

end

section \<open>Processes with two inputs\<close>

type_synonym ('s, 'i, 'j, 'o) joiner = "'s \<Rightarrow> 'i list \<Rightarrow> 'j list \<Rightarrow> 's \<times> 'i list \<times> 'j list \<times> 'o list"

fun join_calls :: "('s, 'i, 'j, 'o) joiner \<Rightarrow> nat \<Rightarrow> ('s, 'i, 'j, 'o) joiner" where
  "join_calls f 0 s xs ys = (s, xs, ys, [])"
| "join_calls f (Suc n) s xs ys =
     (case f s xs ys of (s1, xs1, ys1, out1) \<Rightarrow>
        (case join_calls f n s1 xs1 ys1 of (s2, xs2, ys2, out2) \<Rightarrow> (s2, xs2, ys2, out1 @ out2)))"

lemma join_calls_add:
  "join_calls f n s xs ys = (s1, xs1, ys1, o1) \<Longrightarrow> join_calls f m s1 xs1 ys1 = (s2, xs2, ys2, o2) \<Longrightarrow>
   join_calls f (n + m) s xs ys = (s2, xs2, ys2, o1 @ o2)"
  by (induction n arbitrary: s xs ys o1) (auto split: prod.splits)

text \<open>The contract of a process that joins two streams: a call that does something does the same
  when more words are already waiting on either input.\<close>

locale join_process =
  fixes jstep :: "('s, 'i, 'j, 'o) joiner"
  assumes extend: "jstep s xs ys = (s', xs', ys', out) \<Longrightarrow>
    (s' = s \<and> xs' = xs \<and> ys' = ys \<and> out = []) \<or> jstep s (xs @ us) (ys @ vs) = (s', xs' @ us, ys' @ vs, out)"
begin

lemma join_calls_append:
  "join_calls jstep n s xs ys = (s', xs', ys', out) \<Longrightarrow>
   \<exists>m \<le> n. join_calls jstep m s (xs @ us) (ys @ vs) = (s', xs' @ us, ys' @ vs, out)"
proof (induction n arbitrary: s xs ys out)
  case 0
  then show ?case by simp
next
  case (Suc n)
  obtain s1 xs1 ys1 o1 where st: "jstep s xs ys = (s1, xs1, ys1, o1)" by (cases "jstep s xs ys") auto
  with Suc.prems obtain o2 where rest: "join_calls jstep n s1 xs1 ys1 = (s', xs', ys', o2)" and out: "out = o1 @ o2"
    by (auto split: prod.splits)
  from Suc.IH [OF rest] obtain m where
    m: "m \<le> n" "join_calls jstep m s1 (xs1 @ us) (ys1 @ vs) = (s', xs' @ us, ys' @ vs, o2)" by blast
  from extend [OF st, of us vs] show ?case
  proof
    assume "s1 = s \<and> xs1 = xs \<and> ys1 = ys \<and> o1 = []"
    with m out show ?thesis by (auto intro: exI [of _ m])
  next
    assume "jstep s (xs @ us) (ys @ vs) = (s1, xs1 @ us, ys1 @ vs, o1)"
    with m out show ?thesis by (auto intro: exI [of _ "Suc m"])
  qed
qed

text \<open>A call made after further words have arrived on the first input continues a run that had
  them from the start.\<close>

lemma join_calls_arrive:
  assumes "join_calls jstep n s xs ys = (s1, xs1, ys1, o1)" and "jstep s1 (xs1 @ us) ys1 = (s2, xs2, ys2, o2)"
  shows "\<exists>m \<le> Suc n. join_calls jstep m s (xs @ us) ys = (s2, xs2, ys2, o1 @ o2)"
proof -
  from join_calls_append [OF assms(1), of us "[]"] obtain m where
    m: "m \<le> n" "join_calls jstep m s (xs @ us) ys = (s1, xs1 @ us, ys1, o1)" by auto
  have "join_calls jstep 1 s1 (xs1 @ us) ys1 = (s2, xs2, ys2, o2)" using assms(2) by simp
  from join_calls_add [OF m(2) this] m(1) show ?thesis by (intro exI [of _ "m + 1"]) auto
qed

end

end
