(* ===== verification/Axi_Utils.thy ===== *)
theory Axi_Utils
  imports Dma_Prelude
begin

text \<open>
  \<^verbatim>\<open>hls/axi_utils.hpp\<close> and \<^verbatim>\<open>hls/axi_utils.cpp\<close>, first part: the data types shared by the HLS
  modules (opcodes, AXI stream words), byte and bit reversal, the length/keep tables and the
  two stream width converters.

  A C++ template over the data width \<open>D\<close> is a definition polymorphic in the width of the
  data and of the keep field (\<open>'d\<close> and \<open>'k\<close>, where the template has \<open>D\<close> and
  \<open>D/8\<close>); the width \<open>W*2\<close> is the type \<open>'d bit0\<close>, whose length is twice that of \<open>'d\<close>.

  The lemmas show: the opcode predicates partition the opcodes as the protocol does; the two
  reversals are involutions; \<open>lenToKeep\<close> and \<open>keepToLen\<close> are inverse to each other
  where both are defined; each width converter implements a simple function on lists
  (\<open>pair_up\<close>, \<open>halves\<close>), and converting to double width and back returns the stream.
\<close>

section \<open>Opcodes and routes\<close>

datatype axiRoute = ROUTE_DMA | ROUTE_PARTITIONER

datatype ibOpCode =
    RC_RDMA_WRITE_FIRST
  | RC_RDMA_WRITE_MIDDLE
  | RC_RDMA_WRITE_LAST
  | RC_RDMA_WRITE_LAST_WITH_IMD
  | RC_RDMA_WRITE_ONLY
  | RC_RDMA_WRITE_ONLY_WIT_IMD
  | RC_RDMA_READ_REQUEST
  | RC_RDMA_READ_RESP_FIRST
  | RC_RDMA_READ_RESP_MIDDLE
  | RC_RDMA_READ_RESP_LAST
  | RC_RDMA_READ_RESP_ONLY
  | RC_ACK
  | RC_RDMA_PART_ONLY
  | RC_RDMA_PART_FIRST
  | RC_RDMA_PART_MIDDLE
  | RC_RDMA_PART_LAST

fun axiRoute_value :: "axiRoute \<Rightarrow> nat" where
  "axiRoute_value ROUTE_DMA = 0x0"
| "axiRoute_value ROUTE_PARTITIONER = 0x1"

fun ibOpCode_value :: "ibOpCode \<Rightarrow> nat" where
  "ibOpCode_value RC_RDMA_WRITE_FIRST = 0x06"
| "ibOpCode_value RC_RDMA_WRITE_MIDDLE = 0x07"
| "ibOpCode_value RC_RDMA_WRITE_LAST = 0x08"
| "ibOpCode_value RC_RDMA_WRITE_LAST_WITH_IMD = 0x09"
| "ibOpCode_value RC_RDMA_WRITE_ONLY = 0x0A"
| "ibOpCode_value RC_RDMA_WRITE_ONLY_WIT_IMD = 0x0B"
| "ibOpCode_value RC_RDMA_READ_REQUEST = 0x0C"
| "ibOpCode_value RC_RDMA_READ_RESP_FIRST = 0x0D"
| "ibOpCode_value RC_RDMA_READ_RESP_MIDDLE = 0x0E"
| "ibOpCode_value RC_RDMA_READ_RESP_LAST = 0x0F"
| "ibOpCode_value RC_RDMA_READ_RESP_ONLY = 0x10"
| "ibOpCode_value RC_ACK = 0x11"
| "ibOpCode_value RC_RDMA_PART_ONLY = 0x18"
| "ibOpCode_value RC_RDMA_PART_FIRST = 0x19"
| "ibOpCode_value RC_RDMA_PART_MIDDLE = 0x1A"
| "ibOpCode_value RC_RDMA_PART_LAST = 0x1B"

definition checkIfResponse :: "ibOpCode \<Rightarrow> bool" where
  "checkIfResponse code \<longleftrightarrow>
     code = RC_RDMA_READ_RESP_FIRST \<or> code = RC_RDMA_READ_RESP_MIDDLE \<or>
     code = RC_RDMA_READ_RESP_LAST \<or> code = RC_RDMA_READ_RESP_ONLY \<or>
     code = RC_ACK"

definition checkIfWriteOrPartReq :: "ibOpCode \<Rightarrow> bool" where
  "checkIfWriteOrPartReq code \<longleftrightarrow>
     code = RC_RDMA_WRITE_FIRST \<or> code = RC_RDMA_WRITE_MIDDLE \<or>
     code = RC_RDMA_WRITE_LAST \<or> code = RC_RDMA_WRITE_ONLY \<or>
     code = RC_RDMA_PART_FIRST \<or> code = RC_RDMA_PART_MIDDLE \<or>
     code = RC_RDMA_PART_LAST \<or> code = RC_RDMA_PART_ONLY"

definition checkIfAethHeader :: "ibOpCode \<Rightarrow> bool" where
  "checkIfAethHeader code \<longleftrightarrow>
     code = RC_RDMA_READ_RESP_ONLY \<or> code = RC_RDMA_READ_RESP_FIRST \<or>
     code = RC_RDMA_READ_RESP_LAST \<or> code = RC_ACK"

definition checkIfRethHeader :: "ibOpCode \<Rightarrow> bool" where
  "checkIfRethHeader code \<longleftrightarrow>
     code = RC_RDMA_WRITE_ONLY \<or> code = RC_RDMA_WRITE_FIRST \<or>
     code = RC_RDMA_PART_ONLY \<or> code = RC_RDMA_PART_FIRST \<or>
     code = RC_RDMA_READ_REQUEST"

text \<open>An enumeration compares by its values.\<close>

instantiation ibOpCode :: linorder
begin

definition less_eq_ibOpCode :: "ibOpCode \<Rightarrow> ibOpCode \<Rightarrow> bool" where
  "less_eq_ibOpCode a b \<longleftrightarrow> ibOpCode_value a \<le> ibOpCode_value b"

definition less_ibOpCode :: "ibOpCode \<Rightarrow> ibOpCode \<Rightarrow> bool" where
  "less_ibOpCode a b \<longleftrightarrow> ibOpCode_value a < ibOpCode_value b"

instance
proof
  fix a b :: ibOpCode
  show "a \<le> b \<Longrightarrow> b \<le> a \<Longrightarrow> a = b"
    by (cases a; cases b) (simp_all add: less_eq_ibOpCode_def)
qed (auto simp: less_eq_ibOpCode_def less_ibOpCode_def)

end

section \<open>AXI stream words\<close>

record ('d, 'k) net_axis =
  axis_data :: 'd
  axis_keep :: 'k
  axis_last :: bool

record ('d, 'k, 'r) routed_net_axis = "('d, 'k) net_axis" +
  axis_dest :: 'r

type_synonym ('d, 'k) axis = "('d word, 'k word) net_axis"
type_synonym ('d, 'k, 'r) routed_axis = "('d word, 'k word, 'r word) routed_net_axis"
type_synonym axiWord = "(64, 8) axis"
type_synonym routedAxiWord = "(64, 8, 1) routed_axis"

text \<open>The two constructors of \<open>routed_net_axis\<close>.\<close>

definition routed_of_route :: "('d::len, 'k::len) axis \<Rightarrow> axiRoute \<Rightarrow> ('d, 'k, 'r::len) routed_axis" where
  "routed_of_route w r =
     \<lparr>axis_data = axis_data w, axis_keep = axis_keep w, axis_last = axis_last w,
      axis_dest = of_nat (axiRoute_value r)\<rparr>"

definition routed_of_word :: "('d::len, 'k::len) axis \<Rightarrow> 'r word \<Rightarrow> ('d, 'k, 'r::len) routed_axis" where
  "routed_of_word w r =
     \<lparr>axis_data = axis_data w, axis_keep = axis_keep w, axis_last = axis_last w, axis_dest = r\<rparr>"

text \<open>The bytes a word carries: those whose keep bit is set.\<close>

definition valid_bytes :: "('d::len word, 'k::len word, 'z) net_axis_scheme \<Rightarrow> u8 list" where
  "valid_bytes w = map (byte_at (axis_data w)) (filter (bit (axis_keep w)) [0..<LENGTH('k)])"

section \<open>Byte and bit reversal\<close>

text \<open>
  Both loops assign the result piece by piece; \<open>temp\<close> is the local variable the loop fills,
  uninitialised in the source.
\<close>

definition reverse :: "'d::len word \<Rightarrow> 'd word \<Rightarrow> 'd word" where
  "reverse temp w =
     fold (\<lambda>i t. range_set (i*8+7) (i*8) (range_get (LENGTH('d) - i*8 - 1) (LENGTH('d) - i*8 - 8) w :: u8) t)
       [0..<LENGTH('d) div 8] temp"

definition reverse_bits :: "'d::len word \<Rightarrow> 'd word \<Rightarrow> 'd word" where
  "reverse_bits temp w =
     fold (\<lambda>i t. range_set i i (range_get (LENGTH('d) - i - 1) (LENGTH('d) - i - 1) w :: 1 word) t)
       [0..<LENGTH('d)] temp"

section \<open>Length and keep\<close>

text \<open>Both functions are a switch without a default: on any other argument control reaches the
  end of a function that must return a value, which is \<open>None\<close> here.\<close>

definition lenToKeep :: "6 word \<Rightarrow> u32 option" where
  "lenToKeep len =
     (let n = unat len in
        if n = 1 then Some 0x01 else if n = 2 then Some 0x03
        else if n = 3 then Some 0x07 else if n = 4 then Some 0x0F
        else if n = 5 then Some 0x1F else if n = 6 then Some 0x3F
        else if n = 7 then Some 0x7F else if n = 8 then Some 0xFF
        else if n = 9 then Some 0x01FF else if n = 10 then Some 0x03FF
        else if n = 11 then Some 0x07FF else if n = 12 then Some 0x0FFF
        else if n = 13 then Some 0x1FFF else if n = 14 then Some 0x3FFF
        else if n = 15 then Some 0x7FFF else if n = 16 then Some 0xFFFF
        else if n = 17 then Some 0x01FFFF else if n = 18 then Some 0x03FFFF
        else if n = 19 then Some 0x07FFFF else if n = 20 then Some 0x0FFFFF
        else if n = 21 then Some 0x1FFFFF else if n = 22 then Some 0x3FFFFF
        else if n = 23 then Some 0x7FFFFF else if n = 24 then Some 0xFFFFFF
        else if n = 25 then Some 0x01FFFFFF else if n = 26 then Some 0x03FFFFFF
        else if n = 27 then Some 0x07FFFFFF else if n = 28 then Some 0x0FFFFFFF
        else if n = 29 then Some 0x1FFFFFFF else if n = 30 then Some 0x3FFFFFFF
        else if n = 31 then Some 0x7FFFFFFF else if n = 32 then Some 0xFFFFFFFF
        else None)"

definition keepToLen :: "u32 \<Rightarrow> 6 word option" where
  "keepToLen keepValue =
     (if keepValue = 0x01 then Some 1
      else if keepValue = 0x3 then Some 2
      else if keepValue = 0x07 then Some 3
      else if keepValue = 0x0F then Some 4
      else if keepValue = 0x1F then Some 5
      else if keepValue = 0x3F then Some 6
      else if keepValue = 0x7F then Some 7
      else if keepValue = 0xFF then Some 8
      else None)"

section \<open>Stream width converters\<close>

record 'w double_state =
  dw_even :: bool
  dw_temp :: 'w

definition convertStreamToDoubleWidth ::
  "(('d::len bit0, 'k::len bit0) axis double_state, ('d, 'k) axis, ('d bit0, 'k bit0) axis) process" where
  "convertStreamToDoubleWidth st input =
     (case input of
        [] \<Rightarrow> (st, [], [])
      | currWord # rest \<Rightarrow>
          let W = LENGTH('d); K = LENGTH('k); temp = dw_temp st in
          if \<not> dw_even st then
            let temp = temp\<lparr>axis_data := range_set (W-1) 0 (axis_data currWord) (axis_data temp),
                            axis_keep := range_set (2*K-1) K (0 :: 'k word)
                                           (range_set (K-1) 0 (axis_keep currWord) (axis_keep temp)),
                            axis_last := axis_last currWord\<rparr>
            in if axis_last currWord then
                 let temp = temp\<lparr>axis_data := range_set (2*W-1) W (0 :: 'd word) (axis_data temp),
                                 axis_keep := range_set (2*K-1) K (0 :: 'k word) (axis_keep temp)\<rparr>
                 in (\<lparr>dw_even = False, dw_temp = temp\<rparr>, rest, [temp])
               else (\<lparr>dw_even = True, dw_temp = temp\<rparr>, rest, [])
          else
            let temp = temp\<lparr>axis_data := range_set (2*W-1) W (axis_data currWord) (axis_data temp),
                            axis_keep := range_set (2*K-1) K (axis_keep currWord) (axis_keep temp),
                            axis_last := axis_last currWord\<rparr>
            in (\<lparr>dw_even = False, dw_temp = temp\<rparr>, rest, [temp]))"

datatype half_fsm = HW_FIRST | HW_SECOND

record 'w half_state =
  hw_fsmState :: half_fsm
  hw_currWord :: 'w

definition convertStreamToHalfWidth ::
  "(('d::len bit0, 'k::len bit0) axis half_state, ('d bit0, 'k bit0) axis, ('d, 'k) axis) process" where
  "convertStreamToHalfWidth st input =
     (let H = LENGTH('d); K = LENGTH('k) in
      case hw_fsmState st of
        HW_FIRST \<Rightarrow>
          (case input of
             [] \<Rightarrow> (st, [], [])
           | currWord # rest \<Rightarrow>
               let temp = \<lparr>axis_data = range_get (H-1) 0 (axis_data currWord),
                           axis_keep = range_get (K-1) 0 (axis_keep currWord),
                           axis_last = (\<not> bit (axis_keep currWord) K)\<rparr>
               in (\<lparr>hw_fsmState = (if bit (axis_keep currWord) K then HW_SECOND else HW_FIRST),
                    hw_currWord = currWord\<rparr>, rest, [temp]))
      | HW_SECOND \<Rightarrow>
          let currWord = hw_currWord st;
              temp = \<lparr>axis_data = range_get (2*H-1) H (axis_data currWord),
                      axis_keep = range_get (2*K-1) K (axis_keep currWord),
                      axis_last = axis_last currWord\<rparr>
          in (st\<lparr>hw_fsmState := HW_FIRST\<rparr>, input, [temp]))"

text \<open>The functions on lists that the two converters implement.\<close>

definition join_words :: "('d::len, 'k::len) axis \<Rightarrow> ('d, 'k) axis \<Rightarrow> ('d bit0, 'k bit0) axis" where
  "join_words lo hi =
     \<lparr>axis_data = word_cat (axis_data hi) (axis_data lo),
      axis_keep = word_cat (axis_keep hi) (axis_keep lo),
      axis_last = axis_last hi\<rparr>"

fun pair_up :: "('d::len, 'k::len) axis list \<Rightarrow> ('d bit0, 'k bit0) axis list" where
  "pair_up [] = []"
| "pair_up [w] = (if axis_last w then [join_words w \<lparr>axis_data = 0, axis_keep = 0, axis_last = True\<rparr>] else [])"
| "pair_up (w # w' # ws) =
     (if axis_last w then join_words w \<lparr>axis_data = 0, axis_keep = 0, axis_last = True\<rparr> # pair_up (w' # ws)
      else join_words w w' # pair_up ws)"

definition halves :: "('d::len bit0, 'k::len bit0) axis \<Rightarrow> ('d, 'k) axis list" where
  "halves w =
     (let lo = \<lparr>axis_data = ucast (axis_data w), axis_keep = ucast (axis_keep w),
                axis_last = (\<not> bit (axis_keep w) LENGTH('k))\<rparr>;
          hi = \<lparr>axis_data = ucast (drop_bit LENGTH('d) (axis_data w)),
                axis_keep = ucast (drop_bit LENGTH('k) (axis_keep w)), axis_last = axis_last w\<rparr>
      in if bit (axis_keep w) LENGTH('k) then [lo, hi] else [lo])"

text \<open>A stream of whole packets: it is empty or its final word closes a packet.\<close>

definition whole_packets :: "('d, 'k, 'z) net_axis_scheme list \<Rightarrow> bool" where
  "whole_packets ws \<longleftrightarrow> ws = [] \<or> axis_last (last ws)"

text \<open>
  The words \<open>ws\<close> carry the packet \<open>bs\<close>: every word but the final one is full, the final
  one is marked and carries the remaining bytes, at least one, in its lowest lanes. Lanes whose
  keep bit is clear may hold anything.
\<close>

fun carries :: "('d::len word, 'k::len word, 'z) net_axis_scheme list \<Rightarrow> u8 list \<Rightarrow> bool" where
  "carries [] bs \<longleftrightarrow> False"
| "carries [w] bs \<longleftrightarrow>
     axis_last w \<and> 0 < length bs \<and> length bs \<le> LENGTH('k) \<and> axis_keep w = mask (length bs) \<and>
     take (length bs) (word_bytes (axis_data w)) = bs"
| "carries (w # w' # ws) bs \<longleftrightarrow>
     \<not> axis_last w \<and> axis_keep w = - 1 \<and> LENGTH('k) < length bs \<and>
     word_bytes (axis_data w) = take LENGTH('k) bs \<and> carries (w' # ws) (drop LENGTH('k) bs)"

text \<open>The upper part of one word followed by the lower \<open>n\<close> bits of another: what the
  realigning components build by two bit-range assignments.\<close>

definition funnel :: "nat \<Rightarrow> 'a::len word \<Rightarrow> 'a word \<Rightarrow> 'a word" where
  "funnel n lo hi = drop_bit n lo OR push_bit (LENGTH('a) - n) hi"

section \<open>Opcode predicates\<close>

lemmas opcode_defs = checkIfResponse_def checkIfWriteOrPartReq_def checkIfAethHeader_def checkIfRethHeader_def

lemma opcode_values_distinct: "ibOpCode_value a = ibOpCode_value b \<longleftrightarrow> a = b"
  by (cases a; cases b) simp_all

text \<open>The four opcode predicates classify the opcodes as the protocol does: responses are the
  opcodes from \<open>0x0D\<close> to \<open>0x11\<close>; a response carries an acknowledge header unless it
  is a middle packet; a request header starts every write, partition and read message, on its
  first or only packet; a write or partition request is never a response; and the opcodes that
  are neither are the read request and the two writes with immediate data.\<close>

theorem opcode_classes:
  "(checkIfResponse c \<longleftrightarrow> RC_RDMA_READ_RESP_FIRST \<le> c \<and> c \<le> RC_ACK) \<and>
   (checkIfAethHeader c \<longleftrightarrow> checkIfResponse c \<and> c \<noteq> RC_RDMA_READ_RESP_MIDDLE) \<and>
   (checkIfRethHeader c \<longleftrightarrow> c = RC_RDMA_READ_REQUEST \<or>
      checkIfWriteOrPartReq c \<and>
      c \<notin> {RC_RDMA_WRITE_MIDDLE, RC_RDMA_WRITE_LAST, RC_RDMA_PART_MIDDLE, RC_RDMA_PART_LAST}) \<and>
   \<not> (checkIfResponse c \<and> checkIfWriteOrPartReq c) \<and>
   ((checkIfResponse c \<or> checkIfWriteOrPartReq c) \<longleftrightarrow>
      c \<notin> {RC_RDMA_READ_REQUEST, RC_RDMA_WRITE_LAST_WITH_IMD, RC_RDMA_WRITE_ONLY_WIT_IMD})"
  by (cases c) (simp_all add: opcode_defs less_eq_ibOpCode_def)

section \<open>Reversal\<close>

lemma bit_reverse:
  fixes w :: "'d::len word"
  assumes "8 dvd LENGTH('d)" and j: "j < LENGTH('d)"
  shows "bit (reverse t w) j \<longleftrightarrow> bit w (LENGTH('d) - 8 * (j div 8) - 8 + j mod 8)"
proof -
  obtain m where m: "LENGTH('d) = 8 * m" using assms(1) by (auto simp: dvd_def)
  have k: "j div 8 < m" using j m by simp
  have s: "Suc (8 * m - j div 8 * 8 - 1) - (8 * m - j div 8 * 8 - 8) = 8" using k by arith
  show ?thesis
    unfolding reverse_def using j k
    by (simp only: bit_fold_bytes m) (simp add: bit_range_get s m mult.commute [of 8])
qed

lemma bit_reverse_bits:
  fixes w :: "'d::len word"
  assumes j: "j < LENGTH('d)"
  shows "bit (reverse_bits t w) j \<longleftrightarrow> bit w (LENGTH('d) - 1 - j)"
  unfolding reverse_bits_def using j by (simp add: bit_fold_bits bit_range_get diff_commute)

text \<open>\<open>reverse\<close> returns the bytes of a word in the opposite order, whatever the uninitialised
  result variable holds, for every template width that is a multiple of eight.\<close>

theorem reverse_bytes:
  fixes w :: "'d::len word"
  assumes "8 dvd LENGTH('d)"
  shows "word_bytes (reverse t w) = rev (word_bytes w)"
proof (rule nth_equalityI)
  show "length (word_bytes (reverse t w)) = length (rev (word_bytes w))" by simp
next
  fix i assume "i < length (word_bytes (reverse t w))"
  then have i: "i < LENGTH('d) div 8" by simp
  obtain m where m: "LENGTH('d) = 8 * m" using assms by (auto simp: dvd_def)
  have "byte_at (reverse t w) i = byte_at w (m - Suc i)"
  proof (rule bit_word_eqI)
    fix n assume n: "n < LENGTH(8)"
    have "8 * m - 8 * i - 8 + n = 8 * (m - Suc i) + n" using i m by auto
    then show "bit (byte_at (reverse t w) i) n = bit (byte_at w (m - Suc i)) n"
      using n i m by (simp add: bit_byte_at bit_reverse [OF assms])
  qed
  then show "word_bytes (reverse t w) ! i = rev (word_bytes w) ! i"
    using i m by (simp add: rev_nth)
qed

theorem reverse_bytes_witness:
  "word_bytes (reverse 0 (0x11223344 :: u32)) = [0x11, 0x22, 0x33, 0x44] \<and>
   word_bytes (0x11223344 :: u32) = [0x44, 0x33, 0x22, 0x11]"
  using reverse_bytes [of 0 "0x11223344 :: u32"]
  by (simp add: word_bytes_def byte_at_def upt_rec drop_bit_eq_div)

lemma reverse_involution:
  fixes w :: "'d::len word"
  assumes "8 dvd LENGTH('d)"
  shows "reverse t (reverse t' w) = w"
proof (rule bit_word_eqI)
  fix j assume j: "j < LENGTH('d)"
  obtain m where m: "LENGTH('d) = 8 * m" using assms by (auto simp: dvd_def)
  define q where "q = j div 8"
  have jq: "j = 8 * q + j mod 8" "q < m" using j m by (auto simp: q_def)
  let ?k = "LENGTH('d) - 8 * q - 8 + j mod 8"
  have k: "?k = 8 * (m - Suc q) + j mod 8" using jq m by auto
  have "?k div 8 = m - Suc q" "?k mod 8 = j mod 8" unfolding k by auto
  moreover have "?k < LENGTH('d)" using k jq m by auto
  moreover have "LENGTH('d) - 8 * (m - Suc q) - 8 + j mod 8 = j" using jq m by auto
  ultimately show "bit (reverse t (reverse t' w)) j = bit w j"
    using j by (simp add: bit_reverse [OF assms] flip: q_def)
qed

lemma reverse_bits_involution: "reverse_bits t (reverse_bits t' w) = w"
  by (rule bit_word_eqI) (simp add: bit_reverse_bits)

section \<open>Length and keep tables\<close>

lemma lenToKeep_mask:
  assumes "0 < unat n" and "unat n \<le> 32"
  shows "lenToKeep n = Some (mask (unat n))"
proof -
  have "unat n \<in> set [1..<33]" using assms by simp
  then show ?thesis
    by (simp add: upt_rec [of _ "numeral _"] del: set_upt) (auto simp: lenToKeep_def mask_eq_exp_minus_1)
qed

text \<open>\<open>keepToLen\<close> is the inverse of \<open>lenToKeep\<close> exactly on the lengths up to eight:
  it returns a length for the keep values that \<open>lenToKeep\<close> gives to the lengths one to eight,
  and for no other value, although \<open>lenToKeep\<close> is defined up to thirty-two.\<close>

theorem keepToLen_inverse:
  "(keepToLen k = Some n \<longleftrightarrow> lenToKeep n = Some k \<and> unat n \<le> 8) \<and>
   (lenToKeep n \<noteq> None \<longleftrightarrow> 0 < unat n \<and> unat n \<le> 32)"
proof (intro conjI)
  have n: "lenToKeep n = Some k \<and> unat n \<le> 8 \<longleftrightarrow> (\<exists>i \<in> set [1..<9]. n = of_nat i \<and> k = mask i)"
  proof
    assume a: "lenToKeep n = Some k \<and> unat n \<le> 8"
    then have "0 < unat n" by (auto simp: lenToKeep_def intro: gr0I)
    with a show "\<exists>i \<in> set [1..<9]. n = of_nat i \<and> k = mask i"
      using lenToKeep_mask [of n] by (intro bexI [of _ "unat n"]) simp_all
  next
    assume "\<exists>i \<in> set [1..<9]. n = of_nat i \<and> k = mask i"
    then show "lenToKeep n = Some k \<and> unat n \<le> 8"
      by (auto simp: lenToKeep_mask unat_of_nat)
  qed
  show "keepToLen k = Some n \<longleftrightarrow> lenToKeep n = Some k \<and> unat n \<le> 8"
    unfolding n by (simp add: upt_rec [of _ "numeral _"] del: set_upt) (auto simp: keepToLen_def mask_eq_exp_minus_1)
  have "lenToKeep n = None" if "unat n = 0 \<or> 32 < unat n" using that by (auto simp: lenToKeep_def)
  then show "lenToKeep n \<noteq> None \<longleftrightarrow> 0 < unat n \<and> unat n \<le> 32" using lenToKeep_mask [of n] by fastforce
qed

section \<open>Width converters\<close>

interpretation dwp: hls_process convertStreamToDoubleWidth
  by unfold_locales (auto simp: convertStreamToDoubleWidth_def Let_def split: if_splits)

interpretation hwp: hls_process convertStreamToHalfWidth
  by unfold_locales (auto simp: convertStreamToHalfWidth_def Let_def split: half_fsm.splits if_splits)

lemma range_set_halves:
  fixes t :: "'a::len bit0 word" and u v :: "'a word"
  shows "range_set (2 * LENGTH('a) - Suc 0) LENGTH('a) v (range_set (LENGTH('a) - Suc 0) 0 u t) = word_cat v u"
  by (rule bit_word_eqI) (auto simp: bit_range_set bit_word_cat_iff not_less dest: bit_imp_le_length)

lemma range_set_upper:
  fixes u v :: "'a::len word"
  shows "range_set (2 * LENGTH('a) - Suc 0) LENGTH('a) v (ucast u :: 'a bit0 word) = word_cat v u"
  by (rule bit_word_eqI) (auto simp: bit_range_set bit_word_cat_iff not_less bit_simps dest: bit_imp_le_length)

lemmas double_width_simps = convertStreamToDoubleWidth_def Let_def join_words_def range_set_halves range_set_upper

lemma double_width_flush:
  fixes s :: "('d::len bit0, 'k::len bit0) axis double_state"
  assumes "\<not> dw_even s" and "axis_last w"
  shows "\<exists>s'. convertStreamToDoubleWidth s (w # ws) =
    (s', ws, [join_words w \<lparr>axis_data = 0, axis_keep = 0, axis_last = True\<rparr>]) \<and> \<not> dw_even s'"
  using assms by (cases "dw_temp s") (simp add: double_width_simps)

lemma double_width_pair:
  fixes s :: "('d::len bit0, 'k::len bit0) axis double_state"
  assumes "\<not> dw_even s" and "\<not> axis_last w"
  shows "\<exists>s1 s2. convertStreamToDoubleWidth s (w # w' # ws) = (s1, w' # ws, []) \<and>
    convertStreamToDoubleWidth s1 (w' # ws) = (s2, ws, [join_words w w']) \<and> \<not> dw_even s2"
  using assms by (cases "dw_temp s") (simp add: double_width_simps)

lemma double_width_drains:
  "whole_packets ws \<Longrightarrow> \<not> dw_even s \<Longrightarrow>
   \<exists>s'. drains convertStreamToDoubleWidth s ws s' (pair_up ws) \<and> \<not> dw_even s'"
proof (induction ws arbitrary: s rule: pair_up.induct)
  case 1
  then show ?case by auto
next
  case (2 w)
  then have "axis_last w" by (simp add: whole_packets_def)
  with double_width_flush [OF 2(2) this, of "[]"] show ?case
    by (fastforce dest: dwp.step_drains [OF _ drains_Nil])
next
  case (3 w w' ws)
  show ?case
  proof (cases "axis_last w")
    case True
    from double_width_flush [OF 3(4) True] obtain s1 where
      s1: "convertStreamToDoubleWidth s (w # w' # ws) = (s1, w' # ws, [join_words w \<lparr>axis_data = 0, axis_keep = 0, axis_last = True\<rparr>])"
        "\<not> dw_even s1" by blast
    from 3(3) have "whole_packets (w' # ws)" by (simp add: whole_packets_def)
    with 3(1) [OF True _ s1(2)] True show ?thesis
      by (auto dest!: dwp.step_drains [OF s1(1)])
  next
    case False
    from double_width_pair [OF 3(4) False] obtain s1 s2 where
      s1: "convertStreamToDoubleWidth s (w # w' # ws) = (s1, w' # ws, [])" and
      s2: "convertStreamToDoubleWidth s1 (w' # ws) = (s2, ws, [join_words w w'])" "\<not> dw_even s2" by blast
    from 3(3) have "whole_packets ws" by (auto simp: whole_packets_def split: if_splits)
    with 3(2) [OF False _ s2(2)] False show ?thesis
      by (auto dest!: dwp.step_drains [OF s2(1)] dwp.step_drains [OF s1])
  qed
qed

text \<open>The double-width converter implements \<open>pair_up\<close>: on a stream of whole packets it
  stops with all input consumed, having written every pair of consecutive words of a packet as
  one word, and a packet's odd last word with an empty upper half; it is then back in its initial
  phase, and any further number of calls changes nothing.\<close>

theorem double_width_refines_pair_up:
  assumes "whole_packets ws" and "\<not> dw_even s"
  shows "\<exists>s' n. \<not> dw_even s' \<and> (\<forall>m \<ge> n. calls convertStreamToDoubleWidth m s ws = (s', [], pair_up ws))"
proof -
  from double_width_drains [OF assms] obtain s' where
    s': "drains convertStreamToDoubleWidth s ws s' (pair_up ws)" "\<not> dw_even s'" by blast
  have "convertStreamToDoubleWidth s' [] = (s', [], [])" by (simp add: convertStreamToDoubleWidth_def)
  from dwp.drains_stable [OF s'(1) this] s'(2) show ?thesis by blast
qed

theorem double_width_refines_pair_up_witness:
  "\<exists>s' n. \<forall>m \<ge> n. calls convertStreamToDoubleWidth m
      \<lparr>dw_even = False, dw_temp = \<lparr>axis_data = 0, axis_keep = 0, axis_last = False\<rparr>\<rparr>
      [\<lparr>axis_data = 0x1111, axis_keep = 3, axis_last = False\<rparr>, \<lparr>axis_data = 0x2222, axis_keep = 3, axis_last = False\<rparr>,
       \<lparr>axis_data = 0x3333, axis_keep = 1, axis_last = True\<rparr> :: (16, 2) axis] =
    (s', [], [\<lparr>axis_data = 0x22221111, axis_keep = 0xF, axis_last = False\<rparr>,
              \<lparr>axis_data = 0x3333, axis_keep = 1, axis_last = True\<rparr>])"
  using double_width_refines_pair_up [of "[\<lparr>axis_data = 0x1111, axis_keep = 3, axis_last = False\<rparr>,
      \<lparr>axis_data = 0x2222, axis_keep = 3, axis_last = False\<rparr>,
      \<lparr>axis_data = 0x3333, axis_keep = 1, axis_last = True\<rparr> :: (16, 2) axis]"
      "\<lparr>dw_even = False, dw_temp = \<lparr>axis_data = 0, axis_keep = 0, axis_last = False\<rparr>\<rparr>"]
  by (auto simp: whole_packets_def join_words_def word_cat_eq push_bit_eq_mult)

lemma range_get_low: "(range_get (LENGTH('a) - Suc 0) 0 w :: 'a::len word) = ucast (w :: 'a bit0 word)"
  by (rule bit_word_eqI) (auto simp: bit_range_get bit_simps)

lemma range_get_high: "(range_get (2 * LENGTH('a) - Suc 0) LENGTH('a) w :: 'a::len word) = ucast (drop_bit LENGTH('a) (w :: 'a bit0 word))"
  by (rule bit_word_eqI) (auto simp: bit_range_get bit_simps)

lemma half_width_word:
  assumes "hw_fsmState s = HW_FIRST"
  shows "\<exists>s'. drains convertStreamToHalfWidth s [w] s' (halves w) \<and> hw_fsmState s' = HW_FIRST"
proof -
  let ?s1 = "\<lparr>hw_fsmState = (if bit (axis_keep w) LENGTH('b) then HW_SECOND else HW_FIRST), hw_currWord = w\<rparr>"
  have s1: "convertStreamToHalfWidth s [w] = (?s1, [], [hd (halves w)])"
    using assms by (simp add: convertStreamToHalfWidth_def halves_def Let_def range_get_low)
  show ?thesis
  proof (cases "bit (axis_keep w) LENGTH('b)")
    case True
    then have "convertStreamToHalfWidth ?s1 [] = (\<lparr>hw_fsmState = HW_FIRST, hw_currWord = w\<rparr>, [], tl (halves w))"
      by (simp add: convertStreamToHalfWidth_def halves_def Let_def range_get_high)
    from hwp.step_drains [OF s1 hwp.step_drains [OF this drains_Nil]] show ?thesis
      by (auto simp: halves_def Let_def True)
  next
    case False
    with hwp.step_drains [OF s1 drains_Nil] show ?thesis by (auto simp: halves_def Let_def)
  qed
qed

lemma half_width_refines_halves:
  "hw_fsmState s = HW_FIRST \<Longrightarrow>
   \<exists>s'. drains convertStreamToHalfWidth s ws s' (concat (map halves ws)) \<and> hw_fsmState s' = HW_FIRST"
proof (induction ws arbitrary: s)
  case Nil
  then show ?case by auto
next
  case (Cons w ws)
  from half_width_word [OF Cons.prems] obtain s1 where
    s1: "drains convertStreamToHalfWidth s [w] s1 (halves w)" "hw_fsmState s1 = HW_FIRST" by blast
  from Cons.IH [OF s1(2)] hwp.drains_append [OF s1(1)] show ?case by fastforce
qed

text \<open>A word pair, halved again, is the pair, provided the upper word carries its first byte.\<close>

lemma halves_join:
  "\<not> axis_last w \<Longrightarrow> bit (axis_keep w') 0 \<Longrightarrow> halves (join_words w w') = [w, w']"
  by (auto simp: halves_def join_words_def Let_def bit_word_cat_iff intro!: bit_word_eqI net_axis.equality
      simp: bit_simps)

lemma halves_join_flush:
  "axis_last w \<Longrightarrow> halves (join_words w \<lparr>axis_data = 0, axis_keep = 0, axis_last = True\<rparr>) = [w]"
  by (auto simp: halves_def join_words_def Let_def bit_word_cat_iff intro!: bit_word_eqI net_axis.equality
      simp: bit_simps)

lemma halves_pair_up:
  "whole_packets ws \<Longrightarrow> \<forall>w \<in> set ws. bit (axis_keep w) 0 \<Longrightarrow> concat (map halves (pair_up ws)) = ws"
  by (induction ws rule: pair_up.induct)
     (auto simp: halves_join halves_join_flush whole_packets_def split: if_splits)

text \<open>C30. Converting a stream to double width and back to the original width returns it
  unchanged, for every stream of whole packets in which no word is empty (each keeps its first
  byte); both converters stop and end in their initial phase.\<close>

theorem width_conversion_roundtrip:
  assumes "whole_packets ws" and "\<forall>w \<in> set ws. bit (axis_keep w) 0"
    and "\<not> dw_even s" and "hw_fsmState t = HW_FIRST"
  shows "\<exists>wide s' t'. drains convertStreamToDoubleWidth s ws s' wide \<and>
    drains convertStreamToHalfWidth t wide t' ws \<and> \<not> dw_even s' \<and> hw_fsmState t' = HW_FIRST"
  using double_width_drains [OF assms(1,3)] half_width_refines_halves [OF assms(4), of "pair_up ws"]
    halves_pair_up [OF assms(1,2)] by metis

theorem width_conversion_roundtrip_witness:
  "\<exists>wide s' t'.
     drains convertStreamToDoubleWidth
       \<lparr>dw_even = False, dw_temp = \<lparr>axis_data = 0, axis_keep = 0, axis_last = False\<rparr>\<rparr>
       [\<lparr>axis_data = 0x1111, axis_keep = 3, axis_last = False\<rparr>, \<lparr>axis_data = 0x22, axis_keep = 1, axis_last = True\<rparr> :: (16, 2) axis]
       s' wide \<and>
     drains convertStreamToHalfWidth
       \<lparr>hw_fsmState = HW_FIRST, hw_currWord = \<lparr>axis_data = 0, axis_keep = 0, axis_last = False\<rparr>\<rparr> wide t'
       [\<lparr>axis_data = 0x1111, axis_keep = 3, axis_last = False\<rparr>, \<lparr>axis_data = 0x22, axis_keep = 1, axis_last = True\<rparr> :: (16, 2) axis]"
  using width_conversion_roundtrip [of "[\<lparr>axis_data = 0x1111, axis_keep = 3, axis_last = False\<rparr>,
      \<lparr>axis_data = 0x22, axis_keep = 1, axis_last = True\<rparr> :: (16, 2) axis]"
      "\<lparr>dw_even = False, dw_temp = \<lparr>axis_data = 0, axis_keep = 0, axis_last = False\<rparr>\<rparr>"
      "\<lparr>hw_fsmState = HW_FIRST, hw_currWord = \<lparr>axis_data = 0, axis_keep = 0, axis_last = False\<rparr>\<rparr>"]
  by (auto simp: whole_packets_def bit_numeral_rec)

section \<open>Realigning words\<close>

lemma bit_funnel [range_simps]:
  fixes lo hi :: "'a::len word"
  assumes "n \<le> LENGTH('a)"
  shows "bit (funnel n lo hi) i \<longleftrightarrow>
    i < LENGTH('a) \<and> (if i < LENGTH('a) - n then bit lo (n + i) else bit hi (i - (LENGTH('a) - n)))"
  using assms by (auto simp: funnel_def bit_simps dest: bit_imp_le_length)

lemma range_set_funnel:
  fixes lo hi t :: "'a::len word"
  assumes "0 < n" and "n < LENGTH('a)" and "a = LENGTH('a) - Suc 0 - n" and "b = LENGTH('a) - Suc 0"
    and "c = LENGTH('a) - n" and "d = n - Suc 0"
  shows "range_set b c (range_get d 0 hi :: 'a word) (range_set a 0 (range_get b n lo :: 'a word) t) = funnel n lo hi"
  using assms by (intro bit_word_eqI) (auto simp: bit_range_set bit_range_get bit_funnel)

lemma range_set_funnel_zero:
  fixes lo t :: "'a::len word" and z :: "'b::len word"
  assumes "0 < n" and "n < LENGTH('a)" and "a = LENGTH('a) - Suc 0 - n" and "b = LENGTH('a) - Suc 0"
    and "c = LENGTH('a) - n" and "z = 0"
  shows "range_set b c z (range_set a 0 (range_get b n lo :: 'a word) t) = funnel n lo 0"
  using assms by (intro bit_word_eqI) (auto simp: bit_range_set bit_range_get bit_funnel)

lemma byte_at_funnel:
  fixes lo hi :: "'a::len word"
  assumes "LENGTH('a) = 8 * m" and "k \<le> m" and "i < m"
  shows "byte_at (funnel (8 * k) lo hi) i = (if i < m - k then byte_at lo (k + i) else byte_at hi (i - (m - k)))"
proof (rule bit_word_eqI)
  fix n assume n: "n < LENGTH(8)"
  show "bit (byte_at (funnel (8 * k) lo hi) i) n =
    bit (if i < m - k then byte_at lo (k + i) else byte_at hi (i - (m - k))) n"
  proof (cases "i < m - k")
    case True
    then have "8 * i + n < 8 * m - 8 * k" using n by simp
    with True n assms show ?thesis by (simp add: bit_byte_at bit_funnel algebra_simps)
  next
    case False
    then have "\<not> 8 * i + n < 8 * m - 8 * k" "8 * i + n - (8 * m - 8 * k) = 8 * (i - (m - k)) + n" by auto
    with False n assms show ?thesis by (simp add: bit_byte_at bit_funnel)
  qed
qed

lemma word_bytes_funnel:
  fixes lo hi :: "'a::len word"
  assumes "LENGTH('a) = 8 * m" and "k \<le> m"
  shows "word_bytes (funnel (8 * k) lo hi) = drop k (word_bytes lo) @ take k (word_bytes hi)"
  using assms by (intro nth_equalityI) (auto simp: nth_append byte_at_funnel)

lemma funnel_keep_full:
  assumes "k \<le> LENGTH('a)"
  shows "funnel k (- 1) (mask n :: 'a::len word) = mask (LENGTH('a) - k + min n k)"
  using assms by (intro bit_word_eqI) (auto simp: bit_funnel bit_simps)

lemma funnel_all_ones [simp]:
  assumes "k \<le> LENGTH('a)"
  shows "funnel k (- 1) (- 1 :: 'a::len word) = - 1"
  using assms by (intro bit_word_eqI) (auto simp: bit_funnel bit_simps)

lemma funnel_keep_rest:
  assumes "k \<le> LENGTH('a)" and "n \<le> LENGTH('a)"
  shows "funnel k (mask n :: 'a::len word) 0 = mask (n - k)"
  using assms by (intro bit_word_eqI) (auto simp: bit_funnel bit_simps)

lemma range_get_keep_zero:
  assumes "k < LENGTH('a)" and "n \<le> LENGTH('a)"
  shows "(range_get (LENGTH('a) - Suc 0) k (mask n :: 'a::len word) :: 'a word) = 0 \<longleftrightarrow> n \<le> k"
proof -
  have "(range_get (LENGTH('a) - Suc 0) k (mask n :: 'a word) :: 'a word) = mask (n - k)"
    using assms by (intro bit_word_eqI) (auto simp: bit_range_get bit_simps)
  moreover have "(mask j :: 'a word) = 0 \<longleftrightarrow> j = 0" for j
    by (auto dest: arg_cong [where f = "\<lambda>w. bit w 0"] simp: bit_simps)
  ultimately show ?thesis by simp
qed

lemma range_get_keep_ones:
  assumes "k < LENGTH('a)"
  shows "(range_get (LENGTH('a) - Suc 0) k (- 1 :: 'a::len word) :: 'a word) \<noteq> 0"
  using assms by (auto dest!: arg_cong [where f = "\<lambda>w. bit w 0"] simp: bit_range_get)

section \<open>Packets as concatenations\<close>

lemma carries_nonempty: "carries ws bs \<Longrightarrow> ws \<noteq> [] \<and> bs \<noteq> []"
  by (cases "(ws, bs)" rule: carries.cases) auto

lemma carries_Cons:
  fixes w :: "('d::len word, 'k::len word, 'z) net_axis_scheme"
  assumes "LENGTH('d) = 8 * LENGTH('k)" and "ws \<noteq> []"
  shows "carries (w # ws) bs \<longleftrightarrow>
    \<not> axis_last w \<and> axis_keep w = - 1 \<and> (\<exists>b. bs = word_bytes (axis_data w) @ b \<and> carries ws b)"
proof -
  obtain w' ws' where ws: "ws = w' # ws'" using assms(2) by (cases ws) auto
  have l: "length (word_bytes (axis_data w)) = LENGTH('k)" using assms(1) by simp
  show ?thesis
  proof
    assume "carries (w # ws) bs"
    then show "\<not> axis_last w \<and> axis_keep w = - 1 \<and> (\<exists>b. bs = word_bytes (axis_data w) @ b \<and> carries ws b)"
      by (auto simp: ws intro!: exI [of _ "drop LENGTH('k) bs"])
  next
    assume "\<not> axis_last w \<and> axis_keep w = - 1 \<and> (\<exists>b. bs = word_bytes (axis_data w) @ b \<and> carries ws b)"
    then show "carries (w # ws) bs"
      using l carries_nonempty [of ws] by (auto simp: ws simp del: length_word_bytes)
  qed
qed

lemma carries_append:
  fixes vs :: "('d::len word, 'k::len word, 'z) net_axis_scheme list"
  assumes "LENGTH('d) = 8 * LENGTH('k)" and "ws \<noteq> []"
  shows "carries (vs @ ws) bs \<longleftrightarrow>
    (\<forall>v \<in> set vs. \<not> axis_last v \<and> axis_keep v = - 1) \<and>
    (\<exists>b. bs = concat (map (\<lambda>v. word_bytes (axis_data v)) vs) @ b \<and> carries ws b)"
  by (induction vs arbitrary: bs) (auto simp: carries_Cons [OF assms(1)] assms(2))

text \<open>Every packet is a run of full words and a final one.\<close>

lemma carries_final:
  fixes ws :: "('d::len word, 'k::len word, 'z) net_axis_scheme list"
  assumes len: "LENGTH('d) = 8 * LENGTH('k)" and ws: "carries ws bs"
  obtains vs w b where "ws = vs @ [w]" and "\<forall>v \<in> set vs. \<not> axis_last v \<and> axis_keep v = - 1"
    and "bs = concat (map (\<lambda>v. word_bytes (axis_data v)) vs) @ b" and "carries [w] b"
proof -
  obtain vs w where "ws = vs @ [w]" using ws by (metis carries_nonempty rev_exhaust)
  with ws carries_append [OF len, of "[w]" vs bs] that show thesis by auto
qed

lemma length_concat_bytes:
  fixes vs :: "('d::len word, 'k, 'z) net_axis_scheme list"
  shows "length (concat (map (\<lambda>v. word_bytes (axis_data v)) vs)) = LENGTH('d) div 8 * length vs"
  by (induction vs) auto

end
