(* ===== verification/Axi_Text.thy ===== *)
theory Axi_Text
  imports Axi_Utils
begin

text \<open>
  The text readers and writers of \<^verbatim>\<open>hls/axi_utils.hpp\<close> (\<open>scan\<close>, \<open>scanLE\<close>, \<open>print\<close>, \<open>printLE\<close>), with which the
  test benches exchange stream words in files.

  \<^item> A stream is the text that is left to read, or the text written.
  \<^item> \<open>read_hex\<close> is \<open>operator>>\<close> of the standard library on an unsigned integer of the given width in
    hexadecimal mode: white space, a sign, a prefix, the digits; it fails without a digit and when
    the number does not fit. \<open>put_hex\<close> is \<open>operator<<\<close> with \<open>std::hex\<close>, a width and the fill character 0.
  \<^item> \<open>None\<close> is the result false of a reader; what it leaves in the word then is not modelled.

  The lemmas show that the readers invert the writers for every width whose keep bits fit into the
  32-bit variable of the reader, and that a 512-bit word whose upper keep bits are set is printed but
  cannot be read back.
\<close>

section \<open>Numbers in hexadecimal\<close>

definition hex_chars :: string where "hex_chars = ''0123456789abcdef''"

definition hex_digit :: "nat \<Rightarrow> char" where
  "hex_digit d = hex_chars ! d"

fun hex_string :: "nat \<Rightarrow> string" where
  "hex_string n = (if n < 16 then [hex_digit n] else hex_string (n div 16) @ [hex_digit (n mod 16)])"

declare hex_string.simps [simp del]

definition put_hex :: "nat \<Rightarrow> nat \<Rightarrow> string" where
  "put_hex width n = replicate (width - length (hex_string n)) (CHR ''0'') @ hex_string n"

definition hex_value :: "char \<Rightarrow> nat option" where
  "hex_value c =
     (let n = of_char c in
      if 48 \<le> n \<and> n \<le> 57 then Some (n - 48)
      else if 97 \<le> n \<and> n \<le> 102 then Some (n - 87)
      else if 65 \<le> n \<and> n \<le> 70 then Some (n - 55)
      else None)"

definition is_space :: "char \<Rightarrow> bool" where
  "is_space c \<longleftrightarrow> c = CHR '' '' \<or> (let n = of_char c :: nat in 9 \<le> n \<and> n \<le> 13)"

definition hex_number :: "string \<Rightarrow> nat" where
  "hex_number ds = foldl (\<lambda>a c. 16 * a + the (hex_value c)) 0 ds"

fun skip_sign :: "string \<Rightarrow> bool \<times> string" where
  "skip_sign (c # s) = (if c = CHR ''-'' then (True, s) else if c = CHR ''+'' then (False, s) else (False, c # s))"
| "skip_sign [] = (False, [])"

fun skip_prefix :: "string \<Rightarrow> string" where
  "skip_prefix (c # x # s) = (if c = CHR ''0'' \<and> (x = CHR ''x'' \<or> x = CHR ''X'') then s else c # x # s)"
| "skip_prefix s = s"

definition read_hex :: "nat \<Rightarrow> string \<Rightarrow> (nat \<times> string) option" where
  "read_hex bits s =
     (let (neg, s) = skip_sign (dropWhile is_space s);
          s = skip_prefix s;
          ds = takeWhile (\<lambda>c. hex_value c \<noteq> None) s;
          v = hex_number ds
      in if ds = [] then None
         else if 2 ^ bits \<le> v then None
         else Some (if neg then (2 ^ bits - v) mod 2 ^ bits else v, dropWhile (\<lambda>c. hex_value c \<noteq> None) s))"

section \<open>Readers and writers\<close>

text \<open>The loop over the bytes, in the order of the list of byte numbers.\<close>

fun scan_bytes :: "nat list \<Rightarrow> 'd::len word \<Rightarrow> string \<Rightarrow> ('d word \<times> string) option" where
  "scan_bytes [] data s = Some (data, s)"
| "scan_bytes (i # is) data s =
     (case read_hex 16 s of None \<Rightarrow> None
      | Some (temp, s) \<Rightarrow> scan_bytes is (range_set (i*8+7) (i*8) (of_nat temp :: u16) data) s)"

definition scan :: "'d::len word \<Rightarrow> string \<Rightarrow> ('d word \<times> string) option" where
  "scan data s = scan_bytes [0..<LENGTH('d) div 8] data s"

definition scanLE :: "'d::len word \<Rightarrow> string \<Rightarrow> ('d word \<times> string) option" where
  "scanLE data s = scan_bytes (rev [0..<LENGTH('d) div 8]) data s"

definition scan_word :: "('d::len, 'k::len) axis \<Rightarrow> string \<Rightarrow> (('d, 'k) axis \<times> string) option" where
  "scan_word word s =
     (case scan_bytes [0..<LENGTH('d) div 8] (axis_data word) s of None \<Rightarrow> None
      | Some (d, s) \<Rightarrow> (case read_hex 32 s of None \<Rightarrow> None
      | Some (keepTemp, s) \<Rightarrow> (case read_hex 16 s of None \<Rightarrow> None
      | Some (lastTemp, s) \<Rightarrow>
          Some (\<lparr>axis_data = d, axis_keep = of_nat keepTemp, axis_last = odd lastTemp\<rparr>, s))))"

definition print_bytes :: "nat list \<Rightarrow> 'd::len word \<Rightarrow> string" where
  "print_bytes is data = concat (map (\<lambda>i. put_hex 2 (unat (range_get (i*8+7) (i*8) data :: u16)) @ '' '') is)"

definition print :: "'d::len word \<Rightarrow> string" where
  "print data = print_bytes [0..<LENGTH('d) div 8] data"

definition print_flags :: "nat \<Rightarrow> 'k::len word \<Rightarrow> bool \<Rightarrow> string" where
  "print_flags width keep lst = put_hex width (unat (ucast keep :: u64)) @ '' '' @ put_hex 1 (if lst then 1 else 0)"

definition print_word :: "('d::len, 'k::len) axis \<Rightarrow> string" where
  "print_word word = print_bytes [0..<LENGTH('d) div 8] (axis_data word) @ print_flags (LENGTH('d) div 8 div 4) (axis_keep word) (axis_last word)"

definition printLE :: "'d::len word \<Rightarrow> string" where
  "printLE data = print_bytes (rev [0..<LENGTH('d) div 8]) data"

definition printLE_word :: "('d::len word, 'k::len word, 'z) net_axis_scheme \<Rightarrow> string" where
  "printLE_word word = print_bytes (rev [0..<LENGTH('d) div 8]) (axis_data word) @ print_flags (LENGTH('d) div 8 div 4) (axis_keep word) (axis_last word)"

definition printLE_routed :: "('d::len, 'k::len, 'r::len) routed_axis \<Rightarrow> string" where
  "printLE_routed word =
     printLE_word word @ replicate (LENGTH('r) - length '' TDEST:'') (CHR ''0'') @ '' TDEST:'' @ hex_string (unat (ucast (axis_dest word) :: u16))"

section \<open>Numbers are read back\<close>

definition plain_digit :: "char \<Rightarrow> bool" where
  "plain_digit c \<longleftrightarrow> hex_value c \<noteq> None \<and> \<not> is_space c \<and> c \<noteq> CHR ''-'' \<and> c \<noteq> CHR ''+'' \<and> c \<noteq> CHR ''x'' \<and> c \<noteq> CHR ''X''"

lemma hex_digit_value:
  assumes "d < 16"
  shows "hex_value (hex_digit d) = Some d" "plain_digit (hex_digit d)"
proof -
  have "d \<in> {0, 1, 2, 3, 4, 5, 6, 7, 8, 9, 10, 11, 12, 13, 14, 15}" using assms by simp presburger
  then show "hex_value (hex_digit d) = Some d" "plain_digit (hex_digit d)"
    by (elim insertE; simp add: hex_digit_def hex_chars_def hex_value_def plain_digit_def is_space_def)+
qed

lemma hex_string_digits: "\<forall>c \<in> set (hex_string n). plain_digit c"
  by (induction n rule: hex_string.induct) (subst hex_string.simps, auto simp: hex_digit_value)

lemma hex_string_number: "hex_number (hex_string n) = n"
proof (induction n rule: hex_string.induct)
  case (1 n)
  then show ?case by (subst hex_string.simps) (simp add: hex_number_def hex_digit_value)
qed

lemma hex_string_not_Nil: "hex_string n \<noteq> []"
  by (subst hex_string.simps) simp

lemma put_hex_digits: "\<forall>c \<in> set (put_hex w n). plain_digit c"
proof -
  have "plain_digit (CHR ''0'')" using hex_digit_value(2) [of 0] by (simp add: hex_digit_def hex_chars_def)
  then show ?thesis using hex_string_digits by (auto simp: put_hex_def)
qed

lemma put_hex_number: "hex_number (put_hex w n) = n"
proof -
  have "foldl (\<lambda>a c. 16 * a + the (hex_value c)) 0 (replicate k (CHR ''0'')) = 0" for k
    by (induction k) (simp_all add: hex_value_def)
  then show ?thesis using hex_string_number [of n] by (simp add: put_hex_def hex_number_def)
qed

lemma put_hex_not_Nil: "put_hex w n \<noteq> []"
  by (simp add: put_hex_def hex_string_not_Nil)

text \<open>What may follow a number: nothing, or white space.\<close>

definition ends_number :: "string \<Rightarrow> bool" where
  "ends_number rest \<longleftrightarrow> rest = [] \<or> is_space (hd rest)"

lemma space_no_digit: "is_space c \<Longrightarrow> hex_value c = None \<and> c \<noteq> CHR ''x'' \<and> c \<noteq> CHR ''X''"
  by (auto simp: is_space_def hex_value_def Let_def)

lemma read_hex_printed:
  assumes "ends_number rest"
  shows "read_hex bits (put_hex w n @ rest) = (if n < 2 ^ bits then Some (n, rest) else None)"
proof -
  obtain c ds where ds: "put_hex w n = c # ds" using put_hex_not_Nil by (cases "put_hex w n") auto
  have plain: "plain_digit c" "\<forall>d \<in> set ds. plain_digit d" using put_hex_digits [of w n] by (auto simp: ds)
  have skip: "dropWhile is_space (c # ds @ rest) = c # ds @ rest" "skip_sign (c # ds @ rest) = (False, c # ds @ rest)"
    using plain(1) by (simp_all add: plain_digit_def)
  have prefix: "skip_prefix (c # ds @ rest) = c # ds @ rest"
  proof (cases "ds @ rest")
    case Nil
    then show ?thesis by simp
  next
    case (Cons x s)
    then have "x \<noteq> CHR ''x'' \<and> x \<noteq> CHR ''X''"
      using plain(2) assms space_no_digit [of x] by (cases ds) (auto simp: plain_digit_def ends_number_def)
    with Cons show ?thesis by simp
  qed
  have digits: "\<forall>d \<in> set (c # ds). hex_value d \<noteq> None" using plain by (auto simp: plain_digit_def)
  have "takeWhile (\<lambda>c. hex_value c \<noteq> None) rest = []" "dropWhile (\<lambda>c. hex_value c \<noteq> None) rest = rest"
    using assms space_no_digit [of "hd rest"] by (cases rest; simp add: ends_number_def)+
  with digits have "takeWhile (\<lambda>c. hex_value c \<noteq> None) (c # ds @ rest) = c # ds" "dropWhile (\<lambda>c. hex_value c \<noteq> None) (c # ds @ rest) = rest"
    using takeWhile_append2 [of "c # ds" "\<lambda>c. hex_value c \<noteq> None" rest] dropWhile_append2 [of "c # ds" "\<lambda>c. hex_value c \<noteq> None" rest] by auto
  moreover have "hex_number (c # ds) = n" using put_hex_number [of w n] by (simp add: ds)
  ultimately show ?thesis unfolding read_hex_def ds append_Cons skip Let_def prod.case prefix by simp
qed

lemma read_put_hex: "n < 2 ^ bits \<Longrightarrow> ends_number rest \<Longrightarrow> read_hex bits (put_hex w n @ rest) = Some (n, rest)"
  by (simp add: read_hex_printed)

lemma read_too_large: "\<not> n < 2 ^ bits \<Longrightarrow> ends_number rest \<Longrightarrow> read_hex bits (put_hex w n @ rest) = None"
  by (simp only: read_hex_printed if_False)

lemma read_hex_space: "read_hex bits ('' '' @ s) = read_hex bits s"
  by (simp add: read_hex_def is_space_def)

section \<open>Words are read back\<close>

lemma scan_print_bytes:
  fixes w d :: "'d::len word"
  assumes "\<forall>i \<in> set is. i < LENGTH('d) div 8" "sp = [] \<or> sp = '' ''"
  shows "\<exists>d'. scan_bytes is d (sp @ print_bytes is w @ rest) = Some (d', if is = [] then sp @ rest else '' '' @ rest) \<and>
    (\<forall>n < LENGTH('d). bit d' n = (if n div 8 \<in> set is then bit w n else bit d n))"
  using assms
proof (induction "is" arbitrary: d sp)
  case Nil
  then show ?case by (simp add: print_bytes_def)
next
  case (Cons i "is")
  let ?b = "range_get (i*8+7) (i*8) w :: u16"
  let ?d = "range_set (i*8+7) (i*8) (of_nat (unat ?b) :: u16) d"
  have "unat ?b < 2 ^ 16" using unsigned_less [of ?b, where 'a = nat] by simp
  moreover have "ends_number ('' '' @ print_bytes is w @ rest)" by (simp add: ends_number_def is_space_def)
  ultimately have "read_hex 16 (sp @ print_bytes (i # is) w @ rest) = Some (unat ?b, '' '' @ print_bytes is w @ rest)"
    using Cons.prems(2) read_put_hex [of "unat ?b" 16 "'' '' @ print_bytes is w @ rest" 2] read_hex_space [of 16 "print_bytes (i # is) w @ rest"]
    by (auto simp: print_bytes_def)
  moreover have bits: "bit ?d n = (if n div 8 = i then bit w n else bit d n)" if "n < LENGTH('d)" for n
  proof -
    have "n div 8 = i \<longleftrightarrow> i * 8 \<le> n \<and> n \<le> i * 8 + 7" by auto
    then show ?thesis using that by (auto simp: bit_range_set bit_range_get)
  qed
  moreover have "\<forall>i \<in> set is. i < LENGTH('d) div 8" using Cons.prems(1) by simp
  from Cons.IH [OF this disjI2 [OF refl], of ?d] obtain d' where
    "scan_bytes is ?d ('' '' @ print_bytes is w @ rest) = Some (d', '' '' @ rest)"
    "\<forall>n < LENGTH('d). bit d' n = (if n div 8 \<in> set is then bit w n else bit ?d n)" unfolding if_cancel by blast
  ultimately show ?case by auto
qed

text \<open>All bytes, in any order.\<close>

lemma scan_print_all:
  fixes w d :: "'d::len word"
  assumes "8 dvd LENGTH('d)" "set is = {0..<LENGTH('d) div 8}"
  shows "scan_bytes is d (print_bytes is w @ rest) = Some (w, '' '' @ rest)"
proof -
  have ne: "is \<noteq> []" using assms len_gt_0 [where 'a = 'd] by auto
  from scan_print_bytes [of "is" "[]" d w rest] assms(2) ne obtain d' where
    d': "scan_bytes is d (print_bytes is w @ rest) = Some (d', '' '' @ rest)"
    "\<forall>n < LENGTH('d). bit d' n = (if n div 8 \<in> set is then bit w n else bit d n)" by auto
  have "n div 8 \<in> set is" if "n < LENGTH('d)" for n using assms that by (auto elim!: dvdE)
  with d'(2) have "d' = w" by (intro bit_word_eqI) auto
  with d'(1) show ?thesis by simp
qed

text \<open>C31. What the writers print the readers read back: data words in both byte orders, for every
  width that is a multiple of eight, and stream words for at most 32 keep bits, whatever the word
  read into held before. A word with more keep bits, one of the upper ones set, is printed but
  cannot be read.\<close>

theorem text_roundtrip:
  fixes w d :: "'d::len word" and word word0 :: "('d, 'k::len) axis"
  assumes "8 dvd LENGTH('d)" "ends_number rest" "LENGTH('k) \<le> 64"
  shows "scan d (print w @ rest') = Some (w, '' '' @ rest') \<and> scanLE d (printLE w @ rest') = Some (w, '' '' @ rest') \<and>
    scan_word word0 (print_word word @ rest) = (if unat (axis_keep word) < 2 ^ 32 then Some (word, rest) else None)"
proof -
  let ?k = "unat (axis_keep word)" and ?w = "LENGTH('d) div 8 div 4" and ?l = "if axis_last word then 1 else 0 :: nat"
  have k: "unat (ucast (axis_keep word) :: u64) = ?k"
  proof -
    have "?k < 2 ^ LENGTH('k)" by (rule unsigned_less)
    also have "\<dots> \<le> (2 :: nat) ^ 64" using assms(3) by (intro power_increasing) auto
    finally show ?thesis by (simp add: unat_ucast_mod)
  qed
  have flags: "print_flags ?w (axis_keep word) (axis_last word) = put_hex ?w ?k @ '' '' @ put_hex 1 ?l" by (simp add: print_flags_def k)
  have bytes: "scan_bytes [0..<LENGTH('d) div 8] (axis_data word0) (print_word word @ rest) =
      Some (axis_data word, '' '' @ put_hex ?w ?k @ '' '' @ put_hex 1 ?l @ rest)"
    using scan_print_all [OF assms(1), of "[0..<LENGTH('d) div 8]" "axis_data word0" "axis_data word" "put_hex ?w ?k @ '' '' @ put_hex 1 ?l @ rest"]
    by (simp add: print_word_def flags)
  have sp: "ends_number ('' '' @ s)" for s by (simp add: ends_number_def is_space_def)
  have last: "read_hex 16 ('' '' @ put_hex 1 ?l @ rest) = Some (?l, rest)"
    using read_put_hex [OF _ assms(2), of ?l 16 1] unfolding read_hex_space by auto
  have "scan_word word0 (print_word word @ rest) = (if ?k < 2 ^ 32 then Some (word, rest) else None)"
  proof (cases "?k < 2 ^ 32")
    case True
    then have "read_hex 32 ('' '' @ put_hex ?w ?k @ '' '' @ put_hex 1 ?l @ rest) = Some (?k, '' '' @ put_hex 1 ?l @ rest)"
      using read_put_hex [OF True sp] unfolding read_hex_space by blast
    with True bytes last show ?thesis unfolding scan_word_def by (simp only: option.case prod.case) auto
  next
    case False
    then have "read_hex 32 ('' '' @ put_hex ?w ?k @ '' '' @ put_hex 1 ?l @ rest) = None"
      using read_too_large [OF _ sp] unfolding read_hex_space by simp
    with False bytes show ?thesis unfolding scan_word_def by (simp only: option.case prod.case if_False)
  qed
  then show ?thesis using scan_print_all [OF assms(1), of _ d w rest'] by (simp add: scan_def print_def scanLE_def printLE_def)
qed

theorem text_roundtrip_witness:
  "scan_word \<lparr>axis_data = 0 :: 16 word, axis_keep = 0 :: 2 word, axis_last = False\<rparr>
     (print_word \<lparr>axis_data = 0xAB12 :: 16 word, axis_keep = 3 :: 2 word, axis_last = True\<rparr> @ [CHR 0x0A]) =
     Some (\<lparr>axis_data = 0xAB12, axis_keep = 3, axis_last = True\<rparr>, [CHR 0x0A]) \<and>
   print_word \<lparr>axis_data = 0xAB12 :: 16 word, axis_keep = 3 :: 2 word, axis_last = True\<rparr> = ''12 ab 3 1''"
proof
  have "ends_number [CHR 0x0A]" by (simp add: ends_number_def is_space_def)
  from text_roundtrip [where 'd = 16 and 'k = 2, OF _ this, of 0 0 "[]" "\<lparr>axis_data = 0, axis_keep = 0, axis_last = False\<rparr>"
      "\<lparr>axis_data = 0xAB12, axis_keep = 3, axis_last = True\<rparr>"]
  show "scan_word \<lparr>axis_data = 0 :: 16 word, axis_keep = 0 :: 2 word, axis_last = False\<rparr>
     (print_word \<lparr>axis_data = 0xAB12 :: 16 word, axis_keep = 3 :: 2 word, axis_last = True\<rparr> @ [CHR 0x0A]) =
     Some (\<lparr>axis_data = 0xAB12, axis_keep = 3, axis_last = True\<rparr>, [CHR 0x0A])" by simp
  show "print_word \<lparr>axis_data = 0xAB12 :: 16 word, axis_keep = 3 :: 2 word, axis_last = True\<rparr> = ''12 ab 3 1''"
    by (simp add: print_word_def print_bytes_def print_flags_def put_hex_def hex_string.simps hex_digit_def hex_chars_def range_get_def
        upt_rec drop_bit_eq_div take_bit_eq_mod)
qed

end
