(* ===== verification/Axi_Realign.thy ===== *)
theory Axi_Realign
  imports Axi_Utils
begin

text \<open>
  Three components move the bytes of a packet by a fixed distance: the right shift and the left
  shift of \<^verbatim>\<open>hls/axi_utils.hpp\<close> and the packet splitter of the page-boundary check. Each keeps the
  previous word and builds its output words from the upper part of that word and the lower part
  of the current one (\<open>funnel\<close>), with one extra word at the end when the final input word does
  not fit.

  The locale \<open>realigner\<close> is that common contract, and its lemma \<open>completes_packet\<close> is the
  correctness argument: from a state that holds a full word \<open>v\<close>, the words written carry the
  bytes of \<open>v\<close> from the \<open>k\<close>-th on, followed by the rest of the packet.
\<close>

locale realigner = hls_process step
  for step :: "('s, ('d::len word, 'k::len word, 'z) net_axis_scheme, ('d word, 'k word, 'z) net_axis_scheme) process" +
  fixes holding :: "nat \<Rightarrow> 's \<Rightarrow> ('d word, 'k word, 'z) net_axis_scheme \<Rightarrow> bool"
    and flushing :: "nat \<Rightarrow> 's \<Rightarrow> ('d word, 'k word, 'z) net_axis_scheme \<Rightarrow> bool"
    and ready :: "'s \<Rightarrow> bool"
  assumes holding_range: "holding k s v \<Longrightarrow> LENGTH('d) = 8 * LENGTH('k) \<and> 0 < k \<and> k < LENGTH('k)"
    and flushing_range: "flushing k s v \<Longrightarrow> LENGTH('d) = 8 * LENGTH('k) \<and> 0 < k \<and> k < LENGTH('k)"
    and forward: "holding k s v \<Longrightarrow> axis_keep w = mask n \<Longrightarrow> n \<le> LENGTH('k) \<Longrightarrow> axis_last w \<or> n = LENGTH('k) \<Longrightarrow>
      \<exists>s' send. step s (w # ws) = (s', ws, [send]) \<and>
        axis_data send = funnel (8 * k) (axis_data v) (axis_data w) \<and>
        axis_keep send = funnel k (axis_keep v) (axis_keep w) \<and> (axis_last send \<longleftrightarrow> n \<le> k) \<and>
        (if \<not> axis_last w then holding k s' w else if n \<le> k then ready s' else flushing k s' w)"
    and flush: "flushing k s v \<Longrightarrow>
      \<exists>s' send. step s ws = (s', ws, [send]) \<and>
        axis_data send = funnel (8 * k) (axis_data v) 0 \<and> axis_keep send = funnel k (axis_keep v) 0 \<and>
        axis_last send \<and> ready s'"
begin

lemma flush_word:
  assumes fl: "flushing k s w" and w: "carries [w] bs" and long: "k < length bs"
  shows "\<exists>s' out. drains step s [] s' out \<and> carries out (drop k bs) \<and> ready s'"
proof -
  from flushing_range [OF fl] have r: "LENGTH('d) = 8 * LENGTH('k)" "k < LENGTH('k)" by auto
  from flush [OF fl, of "[]"] obtain s' send where step: "step s [] = (s', [], [send])" "ready s'"
    and send: "axis_data send = funnel (8 * k) (axis_data w) 0" "axis_keep send = funnel k (axis_keep w) 0" "axis_last send"
    by blast
  have bytes: "take (length bs - k) (drop k (word_bytes (axis_data w))) = drop k bs"
    using w by (simp add: drop_take [symmetric])
  have "carries [send] (drop k bs)"
    using w long r by (auto simp: send funnel_keep_rest word_bytes_funnel [OF r(1)] bytes)
  with step_drains [OF step(1) drains_Nil] step(2) show ?thesis by fastforce
qed

lemma completes_final:
  assumes h: "holding k s v" and full: "axis_keep v = - 1" and w: "carries [w] bs"
  shows "\<exists>s' out. drains step s [w] s' out \<and> carries out (drop k (word_bytes (axis_data v)) @ bs) \<and> ready s'"
proof -
  let ?p = "word_bytes (axis_data v)"
  from holding_range [OF h] have r: "LENGTH('d) = 8 * LENGTH('k)" "0 < k" "k < LENGTH('k)" by auto
  have wf: "axis_last w" "length bs \<le> LENGTH('k)" "axis_keep w = mask (length bs)" "0 < length bs"
      "take (length bs) (word_bytes (axis_data w)) = bs" using w by auto
  from forward [OF h wf(3,2)] wf(1) obtain s1 send where step: "step s [w] = (s1, [], [send])"
    and send: "axis_data send = funnel (8 * k) (axis_data v) (axis_data w)"
      "axis_keep send = funnel k (axis_keep v) (axis_keep w)" "axis_last send \<longleftrightarrow> length bs \<le> k"
    and s1: "if length bs \<le> k then ready s1 else flushing k s1 w" by fastforce
  have bytes: "word_bytes (axis_data send) = drop k ?p @ take k (word_bytes (axis_data w))"
    using r by (simp add: send(1) word_bytes_funnel)
  have keep: "axis_keep send = mask (LENGTH('k) - k + min (length bs) k)"
    using r by (simp add: send(2) full wf(3) funnel_keep_full)
  show ?thesis
  proof (cases "length bs \<le> k")
    case True
    have "take (length bs) (take k (word_bytes (axis_data w))) = bs" using True wf(5) by (simp add: min_absorb1)
    then have "carries [send] (drop k ?p @ bs)" using True r wf(4) by (auto simp: keep bytes send(3) min_absorb1)
    with step_drains [OF step drains_Nil] True s1 show ?thesis by fastforce
  next
    case False
    with flush_word [OF _ w, of k s1] s1 obtain s' out where out: "drains step s1 [] s' out"
      "carries out (drop k bs)" "ready s'" by auto
    have "take k (word_bytes (axis_data w)) = take k bs"
      using wf(5) False by (metis min.absorb1 nat_le_linear take_take)
    moreover obtain x xs where "out = x # xs" using out(2) by (cases out) auto
    ultimately have "carries (send # out) (drop k ?p @ bs)"
      using False out(2) r by (simp add: send(3) keep bytes)
    with step_drains [OF step out(1)] out(3) show ?thesis by fastforce
  qed
qed

lemma completes_packet:
  "carries ws bs \<Longrightarrow> holding k s v \<Longrightarrow> axis_keep v = - 1 \<Longrightarrow>
   \<exists>s' out. drains step s ws s' out \<and> carries out (drop k (word_bytes (axis_data v)) @ bs) \<and> ready s'"
proof (induction ws bs arbitrary: s v rule: carries.induct)
  case (1 bs)
  then show ?case by simp
next
  case (2 w bs)
  from completes_final [OF 2(2,3,1)] show ?case .
next
  case (3 w w' ws bs)
  let ?p = "word_bytes (axis_data v)"
  from holding_range [OF 3(3)] have r: "LENGTH('d) = 8 * LENGTH('k)" "k < LENGTH('k)" by auto
  have w: "\<not> axis_last w" "axis_keep w = mask LENGTH('k)" "axis_keep w = - 1" "LENGTH('k) < length bs"
      "word_bytes (axis_data w) = take LENGTH('k) bs" "carries (w' # ws) (drop LENGTH('k) bs)" using 3(2) by auto
  from forward [OF 3(3) w(2) order_refl, of "w' # ws"] w(1) obtain s1 send where
    step: "step s (w # w' # ws) = (s1, w' # ws, [send])" and s1: "holding k s1 w"
    and send: "axis_data send = funnel (8 * k) (axis_data v) (axis_data w)"
      "axis_keep send = funnel k (axis_keep v) (axis_keep w)" "axis_last send \<longleftrightarrow> LENGTH('k) \<le> k" by auto
  have bytes: "word_bytes (axis_data send) = drop k ?p @ take k (word_bytes (axis_data w))"
    using r by (simp add: send(1) word_bytes_funnel)
  have keep: "axis_keep send = - 1" using r by (simp add: send(2) 3(4) w(3))
  from "3.IH" [OF w(6) s1 w(3)] obtain s' out where out: "drains step s1 (w' # ws) s' out"
    "carries out (drop k (take LENGTH('k) bs) @ drop LENGTH('k) bs)" "ready s'" by (auto simp: w(5))
  have rest: "drop k (take LENGTH('k) bs) @ drop LENGTH('k) bs = drop k bs"
    using r w(4) by (simp add: drop_take_append)
  obtain x xs where "out = x # xs" using out(2) by (cases out) auto
  then have "carries (send # out) (drop k ?p @ bs)"
    using out(2) r w(4) by (simp add: send(3) keep bytes rest w(5) min_absorb1)
  with step_drains [OF step out(1)] out(3) show ?case by fastforce
qed

end

end
