(* ===== verification/Axi_Shift.thy ===== *)
theory Axi_Shift
  imports Axi_Realign
begin

text \<open>
  \<^verbatim>\<open>hls/axi_utils.hpp\<close>, second part: \<open>rshiftWordByOctet\<close>, which drops the first \<open>offset\<close>
  bytes of every packet, and \<open>lshiftWordByOctet\<close>, which puts \<open>offset\<close> bytes in front of it.

  The template parameter \<open>W\<close> is the data width of the word type. Bit ranges are only valid
  while \<open>8 * offset\<close> stays below \<open>W\<close> (and above 0 where the lower bound is
  \<open>W - 8 * offset\<close>); where the source builds an invalid range the model stops the process
  for good (\<open>rs_aborted\<close>, \<open>ls_aborted\<close>). An uninitialised local word is the argument
  \<open>uninit\<close>.

  The lemmas show that for \<open>0 < offset < W/8\<close> the right shift maps the packet \<open>bs\<close> to
  \<open>drop offset bs\<close> and the left shift maps it to \<open>offset\<close> zero bytes followed by
  \<open>bs\<close>, that shifting left and then right returns the packet, and that with
  \<open>offset = 0\<close> the right shift loses the first word of every packet.
\<close>

section \<open>Right shift\<close>

text \<open>\<open>assignDest\<close>: a no-op in general, copying the destination for routed words.\<close>

definition assignDest_plain :: "('d, 'k) net_axis \<Rightarrow> ('d, 'k) net_axis \<Rightarrow> ('d, 'k) net_axis" where
  "assignDest_plain d s = d"

definition assignDest_routed ::
  "('d, 'k, 'r) routed_net_axis \<Rightarrow> ('d, 'k, 'r) routed_net_axis \<Rightarrow> ('d, 'k, 'r) routed_net_axis" where
  "assignDest_routed d s = d\<lparr>axis_dest := axis_dest s\<rparr>"

datatype rs_fsm = RS_PKG | RS_REMAINDER

record 't rshift_state =
  rs_fsmState :: rs_fsm
  rs_firstWord :: bool
  rs_prevWord :: 't
  rs_aborted :: bool

definition rshiftWordByOctet ::
  "(('d::len word, 'k::len word, 'z) net_axis_scheme \<Rightarrow> ('d word, 'k word, 'z) net_axis_scheme \<Rightarrow>
     ('d word, 'k word, 'z) net_axis_scheme) \<Rightarrow>
   ('d word, 'k word, 'z) net_axis_scheme \<Rightarrow> u16 \<Rightarrow>
   (('d word, 'k word, 'z) net_axis_scheme rshift_state,
    ('d word, 'k word, 'z) net_axis_scheme, ('d word, 'k word, 'z) net_axis_scheme) process" where
  "rshiftWordByOctet assignDest uninit offset st input =
     (let W = LENGTH('d); K = LENGTH('k); off = unat offset; prevWord = rs_prevWord st;
          sendWord = uninit\<lparr>axis_last := False\<rparr> in
      if rs_aborted st then (st, input, [])
      else case rs_fsmState st of
        RS_PKG \<Rightarrow>
          (case input of
             [] \<Rightarrow> (st, [], [])
           | currWord # rest \<Rightarrow>
               if \<not> rs_firstWord st \<and> K \<le> off then (st\<lparr>rs_aborted := True\<rparr>, rest, [])
               else
                 let sendWord =
                       (if rs_firstWord st then sendWord
                        else if off = 0 then currWord
                        else assignDest (sendWord\<lparr>
                          axis_data := range_set (W-1) (W-8*off) (range_get (8*off-1) 0 (axis_data currWord) :: 'd word)
                            (range_set (W-1-8*off) 0 (range_get (W-1) (8*off) (axis_data prevWord) :: 'd word) (axis_data sendWord)),
                          axis_keep := range_set (K-1) (K-off) (range_get (off-1) 0 (axis_keep currWord) :: 'k word)
                            (range_set (K-1-off) 0 (range_get (K-1) off (axis_keep prevWord) :: 'k word) (axis_keep sendWord)),
                          axis_last := ((range_get (K-1) off (axis_keep currWord) :: 'k word) = 0)\<rparr>) currWord)
                 in (st\<lparr>rs_prevWord := currWord, rs_firstWord := axis_last currWord,
                        rs_fsmState := (if axis_last currWord \<and> \<not> axis_last sendWord then RS_REMAINDER else RS_PKG)\<rparr>,
                     rest, if rs_firstWord st then [] else [sendWord]))
      | RS_REMAINDER \<Rightarrow>
          if off = 0 \<or> K \<le> off then (st\<lparr>rs_aborted := True\<rparr>, input, [])
          else
            (st\<lparr>rs_fsmState := RS_PKG\<rparr>, input,
             [assignDest (sendWord\<lparr>
                axis_data := range_set (W-1) (W-8*off) (0 :: 'd word)
                  (range_set (W-1-8*off) 0 (range_get (W-1) (8*off) (axis_data prevWord) :: 'd word) (axis_data sendWord)),
                axis_keep := range_set (K-1) (K-off) (0 :: 'k word)
                  (range_set (K-1-off) 0 (range_get (K-1) off (axis_keep prevWord) :: 'k word) (axis_keep sendWord)),
                axis_last := True\<rparr>) uninit]))"

section \<open>Left shift\<close>

record lshift_state =
  ls_firstWord :: bool
  ls_writeRemainder :: bool
  ls_prevWord :: axiWord
  ls_aborted :: bool

definition lshiftWordByOctet :: "axiWord \<Rightarrow> u16 \<Rightarrow> (lshift_state, axiWord, axiWord) process" where
  "lshiftWordByOctet uninit offset st input =
     (let W = 64; K = 8; off = unat offset; prevWord = ls_prevWord st; sendWord = uninit in
      if ls_aborted st then (st, input, [])
      else if ls_writeRemainder st then
        (if off = 0 \<or> K \<le> off then (st\<lparr>ls_aborted := True\<rparr>, input, [])
         else
           (st\<lparr>ls_writeRemainder := False\<rparr>, input,
            [sendWord\<lparr>
               axis_data := range_set (W-1) (8*off) (0 :: 64 word)
                 (range_set (8*off-1) 0 (range_get (W-1) (W-8*off) (axis_data prevWord) :: 64 word) (axis_data sendWord)),
               axis_keep := range_set (K-1) off (0 :: 8 word)
                 (range_set (off-1) 0 (range_get (K-1) (K-off) (axis_keep prevWord) :: 8 word) (axis_keep sendWord)),
               axis_last := True\<rparr>]))
      else case input of
        [] \<Rightarrow> (st, [], [])
      | currWord # rest \<Rightarrow>
          if off = 0 then (st, rest, [currWord])
          else if K \<le> off then (st\<lparr>ls_aborted := True\<rparr>, rest, [])
          else
            let sendWord =
                  (if ls_firstWord st then sendWord\<lparr>
                     axis_data := range_set (W-1) (8*off) (range_get (W-1-8*off) 0 (axis_data currWord) :: 64 word)
                       (range_set (8*off-1) 0 (0 :: 64 word) (axis_data sendWord)),
                     axis_keep := range_set (K-1) off (range_get (K-1-off) 0 (axis_keep currWord) :: 8 word)
                       (range_set (off-1) 0 (0xFFFFFFFF :: 32 word) (axis_keep sendWord)),
                     axis_last := ((range_get (K-1) (K-off) (axis_keep currWord) :: 8 word) = 0)\<rparr>
                   else sendWord\<lparr>
                     axis_data := range_set (W-1) (8*off) (range_get (W-1-8*off) 0 (axis_data currWord) :: 64 word)
                       (range_set (8*off-1) 0 (range_get (W-1) (W-8*off) (axis_data prevWord) :: 64 word) (axis_data sendWord)),
                     axis_keep := range_set (K-1) off (range_get (K-1-off) 0 (axis_keep currWord) :: 8 word)
                       (range_set (off-1) 0 (range_get (K-1) (K-off) (axis_keep prevWord) :: 8 word) (axis_keep sendWord)),
                     axis_last := ((range_get (K-1) (K-off) (axis_keep currWord) :: 8 word) = 0)\<rparr>)
            in (st\<lparr>ls_prevWord := currWord, ls_firstWord := axis_last currWord,
                   ls_writeRemainder := (axis_last currWord \<and> \<not> axis_last sendWord)\<rparr>, rest, [sendWord]))"

text \<open>The static variables before the first call.\<close>

definition rshift_init :: "('d word, 'k word) net_axis \<Rightarrow> ('d::len, 'k::len) axis rshift_state" where
  "rshift_init w = \<lparr>rs_fsmState = RS_PKG, rs_firstWord = True, rs_prevWord = w, rs_aborted = False\<rparr>"

definition lshift_init :: "axiWord \<Rightarrow> lshift_state" where
  "lshift_init w = \<lparr>ls_firstWord = True, ls_writeRemainder = False, ls_prevWord = w, ls_aborted = False\<rparr>"

text \<open>The phases of the two processes: between packets, in the middle of one with the previous
  word held, and with a last word still to write.\<close>

definition rs_ready :: "'t rshift_state \<Rightarrow> bool" where
  "rs_ready s \<longleftrightarrow> \<not> rs_aborted s \<and> rs_fsmState s = RS_PKG \<and> rs_firstWord s"

definition rs_holding ::
  "u16 \<Rightarrow> nat \<Rightarrow> ('d::len word, 'k::len word, 'z) net_axis_scheme rshift_state \<Rightarrow> ('d word, 'k word, 'z) net_axis_scheme \<Rightarrow> bool" where
  "rs_holding offset k s v \<longleftrightarrow> LENGTH('d) = 8 * LENGTH('k) \<and> k = unat offset \<and> 0 < k \<and> k < LENGTH('k) \<and>
     \<not> rs_aborted s \<and> rs_fsmState s = RS_PKG \<and> \<not> rs_firstWord s \<and> rs_prevWord s = v"

definition rs_flushing ::
  "u16 \<Rightarrow> nat \<Rightarrow> ('d::len word, 'k::len word, 'z) net_axis_scheme rshift_state \<Rightarrow> ('d word, 'k word, 'z) net_axis_scheme \<Rightarrow> bool" where
  "rs_flushing offset k s v \<longleftrightarrow> LENGTH('d) = 8 * LENGTH('k) \<and> k = unat offset \<and> 0 < k \<and> k < LENGTH('k) \<and>
     \<not> rs_aborted s \<and> rs_fsmState s = RS_REMAINDER \<and> rs_firstWord s \<and> rs_prevWord s = v"

text \<open>Before the first word of a packet the left shift behaves as if it held a full word of zeros.\<close>

definition ls_held :: "lshift_state \<Rightarrow> axiWord" where
  "ls_held s = (if ls_firstWord s then \<lparr>axis_data = 0, axis_keep = - 1, axis_last = False\<rparr> else ls_prevWord s)"

definition ls_ready :: "lshift_state \<Rightarrow> bool" where
  "ls_ready s \<longleftrightarrow> \<not> ls_aborted s \<and> \<not> ls_writeRemainder s \<and> ls_firstWord s"

definition ls_holding :: "u16 \<Rightarrow> nat \<Rightarrow> lshift_state \<Rightarrow> axiWord \<Rightarrow> bool" where
  "ls_holding offset k s v \<longleftrightarrow> 0 < unat offset \<and> unat offset < 8 \<and> k = 8 - unat offset \<and>
     \<not> ls_aborted s \<and> \<not> ls_writeRemainder s \<and> ls_held s = v"

definition ls_flushing :: "u16 \<Rightarrow> nat \<Rightarrow> lshift_state \<Rightarrow> axiWord \<Rightarrow> bool" where
  "ls_flushing offset k s v \<longleftrightarrow> 0 < unat offset \<and> unat offset < 8 \<and> k = 8 - unat offset \<and>
     \<not> ls_aborted s \<and> ls_writeRemainder s \<and> ls_firstWord s \<and> ls_prevWord s = v"

section \<open>Both are HLS processes\<close>

interpretation rsp: hls_process "rshiftWordByOctet assignDest uninit offset" for assignDest uninit offset
  by unfold_locales (auto simp: rshiftWordByOctet_def Let_def split: rs_fsm.splits if_splits)

interpretation lsp: hls_process "lshiftWordByOctet uninit offset" for uninit offset
  by unfold_locales (auto simp: lshiftWordByOctet_def Let_def split: if_splits)

section \<open>Right shift removes a prefix\<close>

text \<open>What the shift relies on: \<open>assignDest\<close> leaves data, keep and last alone.\<close>

locale dest_assignment =
  fixes assignDest :: "('d::len word, 'k::len word, 'z) net_axis_scheme \<Rightarrow> ('d word, 'k word, 'z) net_axis_scheme \<Rightarrow>
     ('d word, 'k word, 'z) net_axis_scheme"
  assumes dest_data [simp]: "axis_data (assignDest d s) = axis_data d"
    and dest_keep [simp]: "axis_keep (assignDest d s) = axis_keep d"
    and dest_last [simp]: "axis_last (assignDest d s) = axis_last d"
begin

lemma rshift_first:
  assumes "\<not> rs_aborted s" and "rs_fsmState s = RS_PKG" and "rs_firstWord s"
  shows "rshiftWordByOctet assignDest u offset s (w # ws) =
    (s\<lparr>rs_prevWord := w, rs_firstWord := axis_last w,
       rs_fsmState := (if axis_last w then RS_REMAINDER else RS_PKG)\<rparr>, ws, [])"
  using assms by (simp add: rshiftWordByOctet_def Let_def)

lemma rshift_next:
  fixes s :: "('d word, 'k word, 'z) net_axis_scheme rshift_state"
  assumes len: "LENGTH('d) = 8 * LENGTH('k)" and off: "0 < unat offset" "unat offset < LENGTH('k)"
    and st: "\<not> rs_aborted s" "rs_fsmState s = RS_PKG" "\<not> rs_firstWord s"
  obtains send where
    "rshiftWordByOctet assignDest u offset s (w # ws) =
      (s\<lparr>rs_prevWord := w, rs_firstWord := axis_last w,
         rs_fsmState := (if axis_last w \<and> \<not> axis_last send then RS_REMAINDER else RS_PKG)\<rparr>, ws, [send])"
    and "axis_data send = funnel (8 * unat offset) (axis_data (rs_prevWord s)) (axis_data w)"
    and "axis_keep send = funnel (unat offset) (axis_keep (rs_prevWord s)) (axis_keep w)"
    and "axis_last send = ((range_get (LENGTH('k) - Suc 0) (unat offset) (axis_keep w) :: 'k word) = 0)"
proof -
  note d = range_set_funnel [where n = "8 * unat offset" and lo = "axis_data (rs_prevWord s)" and hi = "axis_data w"]
    and k = range_set_funnel [where n = "unat offset" and lo = "axis_keep (rs_prevWord s)" and hi = "axis_keep w"]
  let ?send = "assignDest (u\<lparr>axis_data := funnel (8 * unat offset) (axis_data (rs_prevWord s)) (axis_data w),
    axis_keep := funnel (unat offset) (axis_keep (rs_prevWord s)) (axis_keep w),
    axis_last := ((range_get (LENGTH('k) - Suc 0) (unat offset) (axis_keep w) :: 'k word) = 0)\<rparr>) w"
  show thesis
    by (rule that [of ?send]) (use len off st in \<open>simp_all add: rshiftWordByOctet_def Let_def d k\<close>)
qed

lemma rshift_remainder:
  fixes s :: "('d word, 'k word, 'z) net_axis_scheme rshift_state"
  assumes len: "LENGTH('d) = 8 * LENGTH('k)" and off: "0 < unat offset" "unat offset < LENGTH('k)"
    and st: "\<not> rs_aborted s" "rs_fsmState s = RS_REMAINDER"
  obtains send where
    "rshiftWordByOctet assignDest u offset s ws = (s\<lparr>rs_fsmState := RS_PKG\<rparr>, ws, [send])"
    and "axis_data send = funnel (8 * unat offset) (axis_data (rs_prevWord s)) 0"
    and "axis_keep send = funnel (unat offset) (axis_keep (rs_prevWord s)) 0"
    and "axis_last send"
proof -
  note d = range_set_funnel_zero [where n = "8 * unat offset" and lo = "axis_data (rs_prevWord s)" and z = "0 :: 'd word"]
    and k = range_set_funnel_zero [where n = "unat offset" and lo = "axis_keep (rs_prevWord s)" and z = "0 :: 'k word"]
  let ?send = "assignDest (u\<lparr>axis_data := funnel (8 * unat offset) (axis_data (rs_prevWord s)) 0,
    axis_keep := funnel (unat offset) (axis_keep (rs_prevWord s)) 0, axis_last := True\<rparr>) u"
  show thesis
    by (rule that [of ?send]) (use len off st in \<open>simp_all add: rshiftWordByOctet_def Let_def d k\<close>)
qed

end

sublocale dest_assignment \<subseteq> rsr: realigner "rshiftWordByOctet assignDest u offset" "rs_holding offset" "rs_flushing offset" rs_ready
  for u offset
proof unfold_locales
  fix k and s :: "('d word, 'k word, 'z) net_axis_scheme rshift_state" and v w :: "('d word, 'k word, 'z) net_axis_scheme" and ws and n :: nat
  assume h: "rs_holding offset k s v" and n: "axis_keep w = mask n" "n \<le> LENGTH('k)" and l: "axis_last w \<or> n = LENGTH('k)"
  from h have st: "LENGTH('d) = 8 * LENGTH('k)" "0 < unat offset" "unat offset < LENGTH('k)"
      "\<not> rs_aborted s" "rs_fsmState s = RS_PKG" "\<not> rs_firstWord s" and k: "k = unat offset" "rs_prevWord s = v"
    by (auto simp: rs_holding_def)
  have last: "(range_get (LENGTH('k) - Suc 0) (unat offset) (axis_keep w) :: 'k word) = 0 \<longleftrightarrow> n \<le> k"
    using st n k by (simp add: range_get_keep_zero)
  obtain send where "rshiftWordByOctet assignDest u offset s (w # ws) =
      (s\<lparr>rs_prevWord := w, rs_firstWord := axis_last w,
         rs_fsmState := (if axis_last w \<and> \<not> axis_last send then RS_REMAINDER else RS_PKG)\<rparr>, ws, [send])"
    "axis_data send = funnel (8 * k) (axis_data v) (axis_data w)" "axis_keep send = funnel k (axis_keep v) (axis_keep w)"
    "axis_last send \<longleftrightarrow> n \<le> k"
    by (rule rshift_next [OF st, of u w ws]) (simp add: k last)
  with l st k show "\<exists>s' send. rshiftWordByOctet assignDest u offset s (w # ws) = (s', ws, [send]) \<and>
      axis_data send = funnel (8 * k) (axis_data v) (axis_data w) \<and>
      axis_keep send = funnel k (axis_keep v) (axis_keep w) \<and> (axis_last send \<longleftrightarrow> n \<le> k) \<and>
      (if \<not> axis_last w then rs_holding offset k s' w else if n \<le> k then rs_ready s' else rs_flushing offset k s' w)"
    by (simp add: rs_holding_def rs_flushing_def rs_ready_def)
next
  fix k and s :: "('d word, 'k word, 'z) net_axis_scheme rshift_state" and v ws
  assume "rs_flushing offset k s v"
  then have st: "LENGTH('d) = 8 * LENGTH('k)" "0 < unat offset" "unat offset < LENGTH('k)"
      "\<not> rs_aborted s" "rs_fsmState s = RS_REMAINDER" and k: "k = unat offset" "rs_prevWord s = v" "rs_firstWord s"
    by (auto simp: rs_flushing_def)
  obtain send where "rshiftWordByOctet assignDest u offset s ws = (s\<lparr>rs_fsmState := RS_PKG\<rparr>, ws, [send])"
    "axis_data send = funnel (8 * k) (axis_data v) 0" "axis_keep send = funnel k (axis_keep v) 0" "axis_last send"
    by (rule rshift_remainder [OF st, of u ws]) (simp add: k)
  with st k show "\<exists>s' send. rshiftWordByOctet assignDest u offset s ws = (s', ws, [send]) \<and>
      axis_data send = funnel (8 * k) (axis_data v) 0 \<and> axis_keep send = funnel k (axis_keep v) 0 \<and>
      axis_last send \<and> rs_ready s'"
    by (simp add: rs_ready_def)
qed (auto simp: rs_holding_def rs_flushing_def)

context dest_assignment
begin

lemma rshift_packet:
  fixes s :: "('d word, 'k word, 'z) net_axis_scheme rshift_state"
  assumes len: "LENGTH('d) = 8 * LENGTH('k)" and off: "0 < unat offset" "unat offset < LENGTH('k)"
    and st: "rs_ready s" and ws: "carries ws bs" and long: "unat offset < length bs"
  shows "\<exists>s' out. drains (rshiftWordByOctet assignDest u offset) s ws s' out \<and> carries out (drop (unat offset) bs) \<and> rs_ready s'"
proof -
  obtain w ws' where Cons: "ws = w # ws'" using ws by (cases ws) auto
  let ?s1 = "s\<lparr>rs_prevWord := w, rs_firstWord := axis_last w, rs_fsmState := (if axis_last w then RS_REMAINDER else RS_PKG)\<rparr>"
  have step: "rshiftWordByOctet assignDest u offset s ws = (?s1, ws', [])"
    unfolding Cons using st by (intro rshift_first) (auto simp: rs_ready_def)
  have "\<exists>s' out. drains (rshiftWordByOctet assignDest u offset) ?s1 ws' s' out \<and> carries out (drop (unat offset) bs) \<and> rs_ready s'"
  proof (cases ws')
    case Nil
    then show ?thesis
      using rsr.flush_word [of offset "unat offset" ?s1 w bs u] ws long st Cons len off by (simp add: rs_flushing_def rs_ready_def)
  next
    case (Cons w' ws'')
    then have w: "\<not> axis_last w" "axis_keep w = - 1" "word_bytes (axis_data w) = take LENGTH('k) bs"
        "carries ws' (drop LENGTH('k) bs)" "LENGTH('k) < length bs"
      using ws \<open>ws = w # ws'\<close> by auto
    then have "drop (unat offset) (word_bytes (axis_data w)) @ drop LENGTH('k) bs = drop (unat offset) bs"
      using off by (simp add: drop_take_append)
    with rsr.completes_packet [OF w(4) _ w(2), of offset "unat offset" ?s1 u] w st len off show ?thesis
      by (simp add: rs_holding_def rs_ready_def)
  qed
  then show ?thesis using rsp.step_drains [OF step] by fastforce
qed

end

interpretation plain_dest: dest_assignment assignDest_plain
  by unfold_locales (auto simp: assignDest_plain_def)

interpretation routed_dest: dest_assignment assignDest_routed
  by unfold_locales (auto simp: assignDest_routed_def)

section \<open>Left shift prepends zero bytes\<close>

lemma range_set_funnel_left:
  fixes lo hi t :: "'a::len word" and z :: "'b::len word"
  assumes "0 < k" and "k < LENGTH('a)" and "a = k - Suc 0" and "b = LENGTH('a) - Suc 0"
    and "d = LENGTH('a) - Suc 0 - k" and "\<And>i. i < k \<Longrightarrow> bit z i = bit lo (LENGTH('a) - k + i)"
  shows "range_set b k (range_get d 0 hi :: 'a word) (range_set a 0 z t) = funnel (LENGTH('a) - k) lo hi"
  using assms by (intro bit_word_eqI) (auto simp: bit_range_set bit_range_get bit_funnel)

lemma lshift_step:
  assumes off: "0 < unat offset" "unat offset < 8" and st: "\<not> ls_aborted s" "\<not> ls_writeRemainder s"
  obtains send where "lshiftWordByOctet u offset s (w # ws) =
      (s\<lparr>ls_prevWord := w, ls_firstWord := axis_last w, ls_writeRemainder := (axis_last w \<and> \<not> axis_last send)\<rparr>, ws, [send])"
    and "axis_data send = funnel (8 * (8 - unat offset)) (axis_data (ls_held s)) (axis_data w)"
    and "axis_keep send = funnel (8 - unat offset) (axis_keep (ls_held s)) (axis_keep w)"
    and "axis_last send \<longleftrightarrow> (range_get 7 (8 - unat offset) (axis_keep w) :: 8 word) = 0"
proof -
  let ?o = "unat offset"
  have m: "(0xFFFFFFFF :: 32 word) = mask 32" by (simp add: mask_eq_exp_minus_1)
  note left = range_set_funnel_left [where 'a = 64, simplified] range_set_funnel_left [where 'a = 8, simplified]
  have d0: "range_set 63 (8 * ?o) (range_get (63 - 8 * ?o) 0 (axis_data w) :: 64 word)
      (range_set (8 * ?o - Suc 0) 0 (0 :: 64 word) t) = funnel (64 - 8 * ?o) 0 (axis_data w)" for t
    using off by (intro left) auto
  have d1: "range_set 63 (8 * ?o) (range_get (63 - 8 * ?o) 0 (axis_data w) :: 64 word)
      (range_set (8 * ?o - Suc 0) 0 (range_get 63 (64 - 8 * ?o) p :: 64 word) t) = funnel (64 - 8 * ?o) p (axis_data w)" for p t
    using off by (intro left) (auto simp: bit_range_get)
  have k0: "range_set 7 ?o (range_get (7 - ?o) 0 (axis_keep w) :: 8 word)
      (range_set (?o - Suc 0) 0 (mask 32 :: 32 word) t) = funnel (8 - ?o) (- 1) (axis_keep w)" for t
    using off by (intro left) (auto simp: bit_simps)
  have k1: "range_set 7 ?o (range_get (7 - ?o) 0 (axis_keep w) :: 8 word)
      (range_set (?o - Suc 0) 0 (range_get 7 (8 - ?o) p :: 8 word) t) = funnel (8 - ?o) p (axis_keep w)" for p t
    using off by (intro left) (auto simp: bit_range_get)
  define send where "send = u\<lparr>axis_data := funnel (64 - 8 * ?o) (axis_data (ls_held s)) (axis_data w),
     axis_keep := funnel (8 - ?o) (axis_keep (ls_held s)) (axis_keep w),
     axis_last := ((range_get 7 (8 - ?o) (axis_keep w) :: 8 word) = 0)\<rparr>"
  have step: "lshiftWordByOctet u offset s (w # ws) =
     (s\<lparr>ls_prevWord := w, ls_firstWord := axis_last w, ls_writeRemainder := (axis_last w \<and> \<not> axis_last send)\<rparr>, ws, [send])"
    using off st by (simp add: lshiftWordByOctet_def Let_def send_def ls_held_def m d0 d1 k0 k1)
  have e: "8 * (8 - ?o) = 64 - 8 * ?o" by simp
  show thesis by (rule that [OF step]) (simp_all add: send_def e)
qed

lemma lshift_remainder:
  assumes off: "0 < unat offset" "unat offset < 8" and st: "\<not> ls_aborted s" "ls_writeRemainder s"
  obtains send where "lshiftWordByOctet u offset s ws = (s\<lparr>ls_writeRemainder := False\<rparr>, ws, [send])"
    and "axis_data send = funnel (8 * (8 - unat offset)) (axis_data (ls_prevWord s)) 0"
    and "axis_keep send = funnel (8 - unat offset) (axis_keep (ls_prevWord s)) 0" and "axis_last send"
proof -
  let ?o = "unat offset" and ?p = "ls_prevWord s"
  note zero = range_set_funnel_zero
  have d: "range_set 63 (8 * ?o) (0 :: 64 word) (range_set (8 * ?o - Suc 0) 0 (range_get 63 (64 - 8 * ?o) q :: 64 word) t) =
      funnel (64 - 8 * ?o) q 0" for q t :: "64 word"
    using off by (intro zero) auto
  have k: "range_set 7 ?o (0 :: 8 word) (range_set (?o - Suc 0) 0 (range_get 7 (8 - ?o) q :: 8 word) t) =
      funnel (8 - ?o) q 0" for q t :: "8 word"
    using off by (intro zero) auto
  have e: "8 * (8 - ?o) = 64 - 8 * ?o" by simp
  let ?send = "u\<lparr>axis_data := funnel (64 - 8 * ?o) (axis_data ?p) 0, axis_keep := funnel (8 - ?o) (axis_keep ?p) 0, axis_last := True\<rparr>"
  show thesis
    by (rule that [of ?send]) (use off st in \<open>simp_all add: lshiftWordByOctet_def Let_def d k e\<close>)
qed

interpretation lsr: realigner "lshiftWordByOctet u offset" "ls_holding offset" "ls_flushing offset" ls_ready for u offset
proof unfold_locales
  fix k s v and w :: axiWord and ws and n :: nat
  assume h: "ls_holding offset k s v" and n: "axis_keep w = mask n" "n \<le> LENGTH(8)" and l: "axis_last w \<or> n = LENGTH(8)"
  from h have st: "0 < unat offset" "unat offset < 8" "\<not> ls_aborted s" "\<not> ls_writeRemainder s"
    and k: "k = 8 - unat offset" "ls_held s = v"
    by (auto simp: ls_holding_def)
  have last: "(range_get 7 (8 - unat offset) (axis_keep w) :: 8 word) = 0 \<longleftrightarrow> n \<le> k"
    using st n k range_get_keep_zero [where 'a = 8, of "8 - unat offset" n] by simp
  obtain send where "lshiftWordByOctet u offset s (w # ws) =
      (s\<lparr>ls_prevWord := w, ls_firstWord := axis_last w, ls_writeRemainder := (axis_last w \<and> \<not> axis_last send)\<rparr>, ws, [send])"
    "axis_data send = funnel (8 * k) (axis_data v) (axis_data w)" "axis_keep send = funnel k (axis_keep v) (axis_keep w)"
    "axis_last send \<longleftrightarrow> n \<le> k"
    by (rule lshift_step [OF st, of u w ws]) (simp add: k last)
  with l st k show "\<exists>s' send. lshiftWordByOctet u offset s (w # ws) = (s', ws, [send]) \<and>
      axis_data send = funnel (8 * k) (axis_data v) (axis_data w) \<and>
      axis_keep send = funnel k (axis_keep v) (axis_keep w) \<and> (axis_last send \<longleftrightarrow> n \<le> k) \<and>
      (if \<not> axis_last w then ls_holding offset k s' w else if n \<le> k then ls_ready s' else ls_flushing offset k s' w)"
    by (simp add: ls_holding_def ls_flushing_def ls_ready_def ls_held_def)
next
  fix k s v ws
  assume "ls_flushing offset k s v"
  then have st: "0 < unat offset" "unat offset < 8" "\<not> ls_aborted s" "ls_writeRemainder s"
    and k: "k = 8 - unat offset" "ls_prevWord s = v" "ls_firstWord s" by (auto simp: ls_flushing_def)
  obtain send where "lshiftWordByOctet u offset s ws = (s\<lparr>ls_writeRemainder := False\<rparr>, ws, [send])"
    "axis_data send = funnel (8 * k) (axis_data v) 0" "axis_keep send = funnel k (axis_keep v) 0" "axis_last send"
    by (rule lshift_remainder [OF st, of u ws]) (simp add: k)
  with st k show "\<exists>s' send. lshiftWordByOctet u offset s ws = (s', ws, [send]) \<and>
      axis_data send = funnel (8 * k) (axis_data v) 0 \<and> axis_keep send = funnel k (axis_keep v) 0 \<and>
      axis_last send \<and> ls_ready s'"
    by (simp add: ls_ready_def)
qed (auto simp: ls_holding_def ls_flushing_def)

lemma lshift_packet:
  assumes "0 < unat offset" and "unat offset < 8" and "ls_ready s" and "carries ws bs"
  shows "\<exists>s' out. drains (lshiftWordByOctet u offset) s ws s' out \<and> carries out (replicate (unat offset) 0 @ bs) \<and> ls_ready s'"
proof -
  have zeros: "drop (8 - unat offset) (word_bytes (0 :: 64 word)) = replicate (unat offset) 0"
    using assms(2) by (intro nth_equalityI) (auto simp: byte_at_def)
  show ?thesis
    using lsr.completes_packet [OF assms(4), of offset "8 - unat offset" s "ls_held s" u] assms(1-3)
    by (simp add: ls_held_def ls_holding_def ls_ready_def zeros)
qed

section \<open>Properties\<close>

text \<open>C28. For every word width \<open>W = 8 * K\<close> and every offset strictly between 0 and \<open>K\<close>,
  \<open>rshiftWordByOctet\<close> removes the first \<open>offset\<close> bytes of a packet longer than that: after
  finitely many calls the input is consumed, the words written carry the packet without its first
  \<open>offset\<close> bytes, and the process is ready for the next packet.\<close>

theorem rshift_removes_prefix:
  fixes ws :: "('d::len, 'k::len) axis list"
  assumes "LENGTH('d) = 8 * LENGTH('k)" and "0 < unat offset" and "unat offset < LENGTH('k)"
    and "rs_ready s" and "carries ws bs" and "unat offset < length bs"
  shows "\<exists>s' out. drains (rshiftWordByOctet assignDest_plain u offset) s ws s' out \<and>
    carries out (drop (unat offset) bs) \<and> rs_ready s'"
  by (rule plain_dest.rshift_packet [OF assms])

theorem rshift_removes_prefix_witness:
  "\<exists>s' out. drains (rshiftWordByOctet assignDest_plain \<lparr>axis_data = 0, axis_keep = 0, axis_last = False\<rparr> 3)
     (rshift_init \<lparr>axis_data = 0, axis_keep = 0, axis_last = False\<rparr>)
     [\<lparr>axis_data = 0x0807060504030201 :: 64 word, axis_keep = 0xFF :: 8 word, axis_last = False\<rparr>,
      \<lparr>axis_data = 0x0A09, axis_keep = 0x03, axis_last = True\<rparr>] s' out \<and>
   carries out [4, 5, 6, 7, 8, 9, 10]"
  using rshift_removes_prefix [where offset = 3 and bs = "[1, 2, 3, 4, 5, 6, 7, 8, 9, 10]" and
      ws = "[\<lparr>axis_data = 0x0807060504030201 :: 64 word, axis_keep = 0xFF :: 8 word, axis_last = False\<rparr>,
      \<lparr>axis_data = 0x0A09, axis_keep = 0x03, axis_last = True\<rparr>]"
      and s = "rshift_init \<lparr>axis_data = 0, axis_keep = 0, axis_last = False\<rparr>"
      and u = "\<lparr>axis_data = 0, axis_keep = 0, axis_last = False\<rparr>"]
  by (simp add: rs_ready_def rshift_init_def word_bytes_def byte_at_def upt_rec drop_bit_eq_div mask_eq_exp_minus_1) blast

text \<open>Shifting a 64-bit stream left and then right by the same offset (1 to 7) returns the
  packet: both processes stop, and the second one writes words that carry the bytes the first one
  read.\<close>

theorem shift_roundtrip:
  assumes "0 < unat offset" and "unat offset < 8" and "carries ws bs"
  shows "\<exists>s' t' mid out. drains (lshiftWordByOctet u offset) (lshift_init u) ws s' mid \<and>
    carries mid (replicate (unat offset) 0 @ bs) \<and>
    drains (rshiftWordByOctet assignDest_plain u offset) (rshift_init u) mid t' out \<and> carries out bs"
proof -
  from lshift_packet [OF assms(1,2) _ assms(3), of "lshift_init u" u] obtain s' mid where
    mid: "drains (lshiftWordByOctet u offset) (lshift_init u) ws s' mid" "carries mid (replicate (unat offset) 0 @ bs)"
    by (auto simp: lshift_init_def ls_ready_def)
  have "bs \<noteq> []" using assms(3) by (cases "(ws, bs)" rule: carries.cases) auto
  with plain_dest.rshift_packet [OF _ assms(1) _ _ mid(2), of "rshift_init u" u] assms(2) obtain t' out where
    "drains (rshiftWordByOctet assignDest_plain u offset) (rshift_init u) mid t' out" "carries out bs"
    by (auto simp: rshift_init_def rs_ready_def)
  with mid show ?thesis by blast
qed

theorem shift_roundtrip_witness:
  "\<exists>s' t' mid out.
     drains (lshiftWordByOctet \<lparr>axis_data = 0, axis_keep = 0, axis_last = False\<rparr> 5)
       (lshift_init \<lparr>axis_data = 0, axis_keep = 0, axis_last = False\<rparr>)
       [\<lparr>axis_data = 0x060504030201, axis_keep = 0x3F, axis_last = True\<rparr>] s' mid \<and>
     carries mid (replicate 5 0 @ [1, 2, 3, 4, 5, 6]) \<and>
     drains (rshiftWordByOctet assignDest_plain \<lparr>axis_data = 0, axis_keep = 0, axis_last = False\<rparr> 5)
       (rshift_init \<lparr>axis_data = 0, axis_keep = 0, axis_last = False\<rparr>) mid t' out \<and>
     carries out [1, 2, 3, 4, 5, 6]"
  using shift_roundtrip [where offset = 5 and bs = "[1, 2, 3, 4, 5, 6]" and
      ws = "[\<lparr>axis_data = 0x060504030201, axis_keep = 0x3F, axis_last = True\<rparr>]" and
      u = "\<lparr>axis_data = 0, axis_keep = 0, axis_last = False\<rparr>"]
  by (simp add: word_bytes_def byte_at_def upt_rec drop_bit_eq_div mask_eq_exp_minus_1)

text \<open>With offset 0 the first word of a packet only ever reaches \<open>prevWord\<close>.\<close>

lemma rshift_zero_rest:
  "carries ws bs \<Longrightarrow> rs_fsmState s = RS_PKG \<Longrightarrow> \<not> rs_aborted s \<Longrightarrow> \<not> rs_firstWord s \<Longrightarrow>
    \<exists>s'. drains (rshiftWordByOctet assignDest u 0) s ws s' ws \<and> rs_fsmState s' = RS_PKG \<and> \<not> rs_aborted s' \<and> rs_firstWord s'"
proof (induction ws bs arbitrary: s rule: carries.induct)
  case (2 w bs)
  then have "rshiftWordByOctet assignDest u 0 s [w] = (s\<lparr>rs_prevWord := w, rs_firstWord := True, rs_fsmState := RS_PKG\<rparr>, [], [w])"
    by (simp add: rshiftWordByOctet_def)
  from rsp.step_drains [OF this drains_Nil] 2 show ?case by fastforce
next
  case (3 w w' ws bs)
  let ?s1 = "s\<lparr>rs_prevWord := w, rs_firstWord := False, rs_fsmState := RS_PKG\<rparr>"
  have step: "rshiftWordByOctet assignDest u 0 s (w # w' # ws) = (?s1, w' # ws, [w])"
    using 3 by (simp add: rshiftWordByOctet_def)
  have "\<exists>s'. drains (rshiftWordByOctet assignDest u 0) ?s1 (w' # ws) s' (w' # ws) \<and>
      rs_fsmState s' = RS_PKG \<and> \<not> rs_aborted s' \<and> rs_firstWord s'"
    using 3(2-5) by (intro "3.IH") auto
  with rsp.step_drains [OF step] show ?case by fastforce
qed simp

text \<open>With offset 0 \<open>rshiftWordByOctet\<close> does not forward a packet unchanged: of a packet of
  two or more words it writes all words but the first, which is lost.\<close>

theorem rshift_zero_loses_first_word:
  assumes "carries (w # w' # ws) bs" and "rs_fsmState s = RS_PKG" and "\<not> rs_aborted s" and "rs_firstWord s"
  shows "\<exists>s'. drains (rshiftWordByOctet assignDest_plain u 0) s (w # w' # ws) s' (w' # ws) \<and> rs_firstWord s'"
proof -
  let ?s1 = "s\<lparr>rs_prevWord := w, rs_firstWord := False, rs_fsmState := RS_PKG\<rparr>"
  have step: "rshiftWordByOctet assignDest_plain u 0 s (w # w' # ws) = (?s1, w' # ws, [])"
    using assms by (simp add: rshiftWordByOctet_def)
  have "carries (w' # ws) (drop LENGTH('b) bs)" using assms(1) by simp
  from rshift_zero_rest [OF this, of ?s1 assignDest_plain u] assms(2-4) obtain s' where
    "drains (rshiftWordByOctet assignDest_plain u 0) ?s1 (w' # ws) s' (w' # ws)" "rs_firstWord s'" by auto
  with rsp.step_drains [OF step] show ?thesis by fastforce
qed

theorem rshift_zero_loses_first_word_witness:
  "\<exists>s'. drains (rshiftWordByOctet assignDest_plain \<lparr>axis_data = 0, axis_keep = 0, axis_last = False\<rparr> 0)
     (rshift_init \<lparr>axis_data = 0, axis_keep = 0, axis_last = False\<rparr>)
     [\<lparr>axis_data = 0x0807060504030201 :: 64 word, axis_keep = 0xFF :: 8 word, axis_last = False\<rparr>,
      \<lparr>axis_data = 0x0A09, axis_keep = 0x03, axis_last = True\<rparr>] s'
     [\<lparr>axis_data = 0x0A09, axis_keep = 0x03, axis_last = True\<rparr>] \<and> rs_firstWord s'"
  using rshift_zero_loses_first_word [where bs = "[1, 2, 3, 4, 5, 6, 7, 8, 9, 10]" and
      w = "\<lparr>axis_data = 0x0807060504030201 :: 64 word, axis_keep = 0xFF :: 8 word, axis_last = False\<rparr>" and
      w' = "\<lparr>axis_data = 0x0A09, axis_keep = 0x03, axis_last = True\<rparr>" and ws = "[]" and
      s = "rshift_init \<lparr>axis_data = 0, axis_keep = 0, axis_last = False\<rparr>" and
      u = "\<lparr>axis_data = 0, axis_keep = 0, axis_last = False\<rparr>"]
  by (simp add: rshift_init_def word_bytes_def byte_at_def upt_rec drop_bit_eq_div mask_eq_exp_minus_1)

end
