(* ===== verification/Axi_Merge.thy ===== *)
theory Axi_Merge
  imports Axi_Utils
begin

text \<open>
  \<^verbatim>\<open>hls/axi_utils.hpp\<close>, third part: the three components that merge two streams.

  The locale \<open>stream_merge\<close> is what every merger promises: one call moves at most one element
  from the head of one input to the output. It follows that whatever has been written is an
  order-preserving interleaving of what has been consumed; \<open>eager_merge\<close> adds that a call does
  not idle while an input holds data, so that both inputs are forwarded completely.
  \<open>stream_merger\<close> and \<open>fair_merger\<close> are eager, and \<open>fair_merger\<close> alternates while both
  inputs hold data. \<open>fair_pkg_merger\<close> is a merger but not an eager one: having sent the first
  word of a packet of \<open>in0\<close> it waits for the rest of the packet on \<open>in1\<close>.
\<close>

section \<open>The mergers\<close>

type_synonym ('s, 'a) merger = "'s \<Rightarrow> 'a list \<Rightarrow> 'a list \<Rightarrow> 's \<times> 'a list \<times> 'a list \<times> 'a list"

fun merger_calls :: "('s, 'a) merger \<Rightarrow> nat \<Rightarrow> ('s, 'a) merger" where
  "merger_calls f 0 s xs ys = (s, xs, ys, [])"
| "merger_calls f (Suc n) s xs ys =
     (case f s xs ys of (s1, xs1, ys1, o1) \<Rightarrow>
        (case merger_calls f n s1 xs1 ys1 of (s2, xs2, ys2, o2) \<Rightarrow> (s2, xs2, ys2, o1 @ o2)))"

definition stream_merger :: "(unit, 'a) merger" where
  "stream_merger st in1 in2 =
     (case in1 of
        x # in1' \<Rightarrow> (st, in1', in2, [x])
      | [] \<Rightarrow> (case in2 of y # in2' \<Rightarrow> (st, in1, in2', [y]) | [] \<Rightarrow> (st, in1, in2, [])))"

text \<open>The static variable of \<open>fair_merger\<close> is \<open>merge_pref\<close>, initially true.\<close>

definition fair_merger :: "(bool, 'a) merger" where
  "fair_merger merge_pref in0 in1 =
     (if merge_pref then
        (case in0 of
           x # in0' \<Rightarrow> (False, in0', in1, [x])
         | [] \<Rightarrow> (case in1 of y # in1' \<Rightarrow> (merge_pref, in0, in1', [y]) | [] \<Rightarrow> (merge_pref, in0, in1, [])))
      else
        (case in1 of
           y # in1' \<Rightarrow> (True, in0, in1', [y])
         | [] \<Rightarrow> (case in0 of x # in0' \<Rightarrow> (merge_pref, in0', in1, [x]) | [] \<Rightarrow> (merge_pref, in0, in1, []))))"

datatype fpmStateType = FPM_IDLE | FPM_FWD0 | FPM_FWD1

record fpm_state =
  fpm_state :: fpmStateType
  fpm_merge_pref :: bool

text \<open>In \<open>IDLE\<close> the local \<open>currWord.last\<close> is 0 unless a word is read, so the closing test
  \<open>if (currWord.last)\<close> resets the state exactly when the word just forwarded is a last word.\<close>

definition fair_pkg_merger :: "(fpm_state, ('d, 'k) net_axis) merger" where
  "fair_pkg_merger st in0 in1 =
     (case fpm_state st of
        FPM_IDLE \<Rightarrow>
          if fpm_merge_pref st then
            (case in0 of
               w # in0' \<Rightarrow> (st\<lparr>fpm_state := (if axis_last w then FPM_IDLE else FPM_FWD1)\<rparr>, in0', in1, [w])
             | [] \<Rightarrow>
                 (case in1 of
                    w # in1' \<Rightarrow> (st\<lparr>fpm_state := (if axis_last w then FPM_IDLE else FPM_FWD1)\<rparr>, in0, in1', [w])
                  | [] \<Rightarrow> (st, in0, in1, [])))
          else
            (case in1 of
               w # in1' \<Rightarrow> (st\<lparr>fpm_state := (if axis_last w then FPM_IDLE else FPM_FWD1)\<rparr>, in0, in1', [w])
             | [] \<Rightarrow>
                 (case in0 of
                    w # in0' \<Rightarrow> (st\<lparr>fpm_state := (if axis_last w then FPM_IDLE else FPM_FWD0)\<rparr>, in0', in1, [w])
                  | [] \<Rightarrow> (st, in0, in1, [])))
      | FPM_FWD0 \<Rightarrow>
          (case in0 of
             w # in0' \<Rightarrow>
               (if axis_last w then st\<lparr>fpm_merge_pref := False, fpm_state := FPM_IDLE\<rparr> else st, in0', in1, [w])
           | [] \<Rightarrow> (st, in0, in1, []))
      | FPM_FWD1 \<Rightarrow>
          (case in1 of
             w # in1' \<Rightarrow>
               (if axis_last w then st\<lparr>fpm_merge_pref := True, fpm_state := FPM_IDLE\<rparr> else st, in0, in1', [w])
           | [] \<Rightarrow> (st, in0, in1, [])))"

definition fpm_init :: fpm_state where
  "fpm_init = \<lparr>fpm_state = FPM_IDLE, fpm_merge_pref = True\<rparr>"

section \<open>The contract of a merger\<close>

locale stream_merge =
  fixes step :: "('s, 'a) merger"
  assumes moves: "step s xs ys = (s', xs', ys', out) \<Longrightarrow>
    (out = [] \<and> xs' = xs \<and> ys' = ys) \<or> (\<exists>x. xs = x # xs' \<and> ys' = ys \<and> out = [x]) \<or>
    (\<exists>y. ys = y # ys' \<and> xs' = xs \<and> out = [y])"
begin

lemma calls_interleave:
  "merger_calls step n s xs ys = (s', xs', ys', out) \<Longrightarrow>
   \<exists>as bs. xs = as @ xs' \<and> ys = bs @ ys' \<and> out \<in> shuffles as bs"
proof (induction n arbitrary: s xs ys out)
  case 0
  then show ?case by simp
next
  case (Suc n)
  obtain s1 xs1 ys1 o1 where st: "step s xs ys = (s1, xs1, ys1, o1)" by (cases "step s xs ys") auto
  with Suc.prems obtain o2 where rest: "merger_calls step n s1 xs1 ys1 = (s', xs', ys', o2)" and out: "out = o1 @ o2"
    by (auto split: prod.splits)
  from Suc.IH [OF rest] obtain as bs where
    ab: "xs1 = as @ xs'" "ys1 = bs @ ys'" "o2 \<in> shuffles as bs" by blast
  from moves [OF st] show ?case
  proof (elim disjE exE conjE)
    fix x assume "xs = x # xs1" "ys1 = ys" "o1 = [x]"
    with ab out show ?thesis by (intro exI [of _ "x # as"] exI [of _ bs]) (auto intro: Cons_in_shuffles_leftI)
  next
    fix y assume "ys = y # ys1" "xs1 = xs" "o1 = [y]"
    with ab out show ?thesis by (intro exI [of _ as] exI [of _ "y # bs"]) (auto intro: Cons_in_shuffles_rightI)
  qed (use ab out in auto)
qed

end

locale eager_merge = stream_merge +
  assumes eager: "step s xs ys = (s', xs', ys', []) \<Longrightarrow> xs = [] \<and> ys = []"
begin

lemma calls_complete:
  "length xs + length ys \<le> n \<Longrightarrow> \<exists>s' out. merger_calls step n s xs ys = (s', [], [], out)"
proof (induction n arbitrary: s xs ys)
  case 0
  then show ?case by simp
next
  case (Suc n)
  obtain s1 xs1 ys1 o1 where st: "step s xs ys = (s1, xs1, ys1, o1)" by (cases "step s xs ys") auto
  have "length xs1 + length ys1 \<le> n"
    using moves [OF st] eager [of s xs ys s1 xs1 ys1] st Suc.prems by auto
  from Suc.IH [OF this, of s1] st show ?case by auto
qed

lemma forwards_everything:
  assumes "length xs + length ys \<le> n"
  shows "\<exists>s' out. merger_calls step n s xs ys = (s', [], [], out) \<and> out \<in> shuffles xs ys"
proof -
  from calls_complete [OF assms] obtain s' out where "merger_calls step n s xs ys = (s', [], [], out)" by blast
  with calls_interleave [OF this] show ?thesis by auto
qed

end

interpretation prio: eager_merge stream_merger
  by unfold_locales (auto simp: stream_merger_def split: list.splits)

interpretation fair: eager_merge fair_merger
  by unfold_locales (auto simp: fair_merger_def split: list.splits if_splits)

interpretation fpm: stream_merge fair_pkg_merger
  by unfold_locales (auto simp: fair_pkg_merger_def split: list.splits if_splits fpmStateType.splits)

section \<open>Properties\<close>

text \<open>C35. \<open>fair_merger\<close> forwards everything and reorders nothing: after as many calls as there
  are elements waiting, both inputs are empty and the output is an interleaving of the two inputs
  that keeps the order of each.\<close>

theorem fair_merger_forwards_everything:
  "\<exists>pref' out. merger_calls fair_merger (length in0 + length in1) pref in0 in1 = (pref', [], [], out) \<and>
     out \<in> shuffles in0 in1"
  by (rule fair.forwards_everything) simp

lemma fair_merger_pair:
  "fair_merger True (x # in0) (y # in1) = (False, in0, y # in1, [x])"
  "fair_merger False in0 (y # in1) = (True, in0, in1, [y])"
  by (simp_all add: fair_merger_def)

text \<open>\<open>fair_merger\<close> is fair: while both inputs hold data it alternates, so that of any
  \<open>2 * n\<close> calls exactly \<open>n\<close> serve each input, in turn.\<close>

theorem fair_merger_alternates:
  "length as = n \<Longrightarrow> length bs = n \<Longrightarrow>
   merger_calls fair_merger (2 * n) True (as @ in0) (bs @ in1) =
     (True, in0, in1, concat (map (\<lambda>(a, b). [a, b]) (zip as bs)))"
proof (induction n arbitrary: as bs)
  case 0
  then show ?case by simp
next
  case (Suc n)
  then obtain a as' b bs' where "as = a # as'" "bs = b # bs'" by (cases as; cases bs) auto
  with Suc show ?case by (simp add: fair_merger_pair)
qed

theorem fair_merger_alternates_witness:
  "merger_calls fair_merger 4 True [1, 2, 3 :: nat] [10, 20] = (True, [3], [], [1, 10, 2, 20])"
  using fair_merger_alternates [of "[1, 2]" 2 "[10, 20 :: nat]" "[3]" "[]"] by simp

lemma fpm_waits_on_in1:
  "fpm_state st = FPM_FWD1 \<Longrightarrow> merger_calls fair_pkg_merger n st in0 [] = (st, in0, [], [])"
  by (induction n) (auto simp: fair_pkg_merger_def)

text \<open>\<open>fair_pkg_merger\<close> does not forward packets of \<open>in0\<close>: started on a packet of two or
  more words on \<open>in0\<close>, with nothing on \<open>in1\<close>, it writes the first word and then, however often
  it is called, nothing more, because it waits for the rest of the packet on \<open>in1\<close>.\<close>

theorem fair_pkg_merger_stuck:
  assumes "\<not> axis_last w"
  shows "merger_calls fair_pkg_merger (Suc n) fpm_init (w # in0) [] =
    (\<lparr>fpm_state = FPM_FWD1, fpm_merge_pref = True\<rparr>, in0, [], [w])"
  using assms by (simp add: fair_pkg_merger_def fpm_init_def fpm_waits_on_in1)

theorem fair_pkg_merger_stuck_witness:
  "merger_calls fair_pkg_merger 100 fpm_init
     [\<lparr>axis_data = 1 :: u64, axis_keep = 0xFF :: u8, axis_last = False\<rparr>,
      \<lparr>axis_data = 2, axis_keep = 0xFF, axis_last = True\<rparr>] [] =
   (\<lparr>fpm_state = FPM_FWD1, fpm_merge_pref = True\<rparr>,
    [\<lparr>axis_data = 2, axis_keep = 0xFF, axis_last = True\<rparr>], [],
    [\<lparr>axis_data = 1, axis_keep = 0xFF, axis_last = False\<rparr>])"
  using fair_pkg_merger_stuck [of "\<lparr>axis_data = 1 :: u64, axis_keep = 0xFF :: u8, axis_last = False\<rparr>" 99] by simp

end
