(* ===== verification/Ethernet_Padding.thy ===== *)
theory Ethernet_Padding
  imports Axi_Utils
begin

text \<open>
  \<^verbatim>\<open>hls/ethernet_frame_padding/ethernet_frame_padding.cpp\<close>: short Ethernet frames on a 64-bit
  stream are extended to the 60 bytes an Ethernet frame has without its check sequence.

  The lemmas show that a frame of at most 255 words leaves unchanged if it has at least 60 bytes
  and is extended to exactly 60 bytes otherwise, say which bytes the padding consists of, and
  that a frame of 256 words, on which the 8-bit word counter wraps around, is extended although it
  is long.
\<close>

record padding_state =
  pad_state :: bool \<comment> \<open>\<open>ap_uint<1> state\<close>\<close>
  pad_wordCounter :: u8

definition ethernet_frame_padding :: "(padding_state, axiWord, axiWord) process" where
  "ethernet_frame_padding st dataIn =
     (if \<not> pad_state st then
        (case dataIn of
           [] \<Rightarrow> (st, [], [])
         | currWord # rest \<Rightarrow>
             let sendWord = \<lparr>axis_data = axis_data currWord, axis_keep = axis_keep currWord, axis_last = axis_last currWord\<rparr>;
                 wordCounter = pad_wordCounter st + 1
             in if axis_last currWord then
                  if wordCounter < 8 then
                    (\<lparr>pad_state = True, pad_wordCounter = wordCounter\<rparr>, rest,
                     [sendWord\<lparr>axis_keep := 0xFF, axis_last := False\<rparr>])
                  else
                    (\<lparr>pad_state = False, pad_wordCounter = 0\<rparr>, rest,
                     [if wordCounter = 8 \<and> axis_keep sendWord < 0xF then sendWord\<lparr>axis_keep := 0x0F\<rparr> else sendWord])
                else (\<lparr>pad_state = False, pad_wordCounter = wordCounter\<rparr>, rest, [sendWord]))
      else
        let wordCounter = pad_wordCounter st + 1 in
        if wordCounter = 8 then
          (\<lparr>pad_state = False, pad_wordCounter = 0\<rparr>, dataIn, [\<lparr>axis_data = 0, axis_keep = 0x0F, axis_last = True\<rparr>])
        else
          (\<lparr>pad_state = True, pad_wordCounter = wordCounter\<rparr>, dataIn, [\<lparr>axis_data = 0, axis_keep = 0xFF, axis_last = False\<rparr>]))"

definition padding_init :: padding_state where
  "padding_init = \<lparr>pad_state = False, pad_wordCounter = 0\<rparr>"

text \<open>The words the padding state adds after \<open>c\<close> words of a frame.\<close>

definition pad_words :: "nat \<Rightarrow> axiWord list" where
  "pad_words c = replicate (7 - c) \<lparr>axis_data = 0, axis_keep = 0xFF, axis_last = False\<rparr> @
     [\<lparr>axis_data = 0, axis_keep = 0x0F, axis_last = True\<rparr>]"

text \<open>The bytes a short frame is extended by: the unused lanes of its last word as they came in,
  then zeros.\<close>

definition padding_bytes :: "axiWord list \<Rightarrow> u8 list \<Rightarrow> u8 list" where
  "padding_bytes ws bs =
     take (60 - length bs) (drop (length bs - 8 * (length ws - 1)) (word_bytes (axis_data (last ws))) @ replicate 60 0)"

interpretation padp: hls_process ethernet_frame_padding
  by unfold_locales (auto simp: ethernet_frame_padding_def Let_def split: if_splits)

section \<open>The states of the process\<close>

lemma padding_forwards:
  "\<forall>v \<in> set vs. \<not> axis_last v \<Longrightarrow>
   drains ethernet_frame_padding \<lparr>pad_state = False, pad_wordCounter = c\<rparr> vs
     \<lparr>pad_state = False, pad_wordCounter = c + of_nat (length vs)\<rparr> vs"
proof (induction vs arbitrary: c)
  case Nil
  then show ?case by simp
next
  case (Cons v vs)
  have step: "ethernet_frame_padding \<lparr>pad_state = False, pad_wordCounter = c\<rparr> (v # vs) =
      (\<lparr>pad_state = False, pad_wordCounter = c + 1\<rparr>, vs, [v])"
    using Cons.prems by (simp add: ethernet_frame_padding_def)
  from Cons.IH [of "c + 1"] Cons.prems padp.step_drains [OF step] show ?case by (fastforce simp: algebra_simps)
qed

lemma padding_pads:
  "c < 8 \<Longrightarrow> drains ethernet_frame_padding \<lparr>pad_state = True, pad_wordCounter = of_nat c\<rparr> [] padding_init (pad_words c)"
proof (induction "7 - c" arbitrary: c)
  case 0
  then have "c = 7" by simp
  then have "ethernet_frame_padding \<lparr>pad_state = True, pad_wordCounter = of_nat c\<rparr> [] = (padding_init, [], pad_words c)"
    by (simp add: ethernet_frame_padding_def pad_words_def padding_init_def)
  from padp.step_drains [OF this drains_Nil] show ?case by simp
next
  case (Suc n)
  then have c: "c < 7" by simp
  then have "of_nat (Suc c) \<noteq> (8 :: u8)" by (auto dest!: arg_cong [where f = unat] simp: unat_of_nat)
  then have step: "ethernet_frame_padding \<lparr>pad_state = True, pad_wordCounter = of_nat c\<rparr> [] =
     (\<lparr>pad_state = True, pad_wordCounter = of_nat (Suc c)\<rparr>, [], [\<lparr>axis_data = 0, axis_keep = 0xFF, axis_last = False\<rparr>])"
    by (simp add: ethernet_frame_padding_def add.commute)
  have "pad_words c = \<lparr>axis_data = 0, axis_keep = 0xFF, axis_last = False\<rparr> # pad_words (Suc c)"
    using c by (simp add: pad_words_def Suc_diff_le [symmetric] replicate_Suc [symmetric] flip: replicate_Suc)
  with padp.step_drains [OF step Suc.hyps(1)] Suc.hyps(2) c show ?case by simp
qed

lemma small_mask: "n \<in> {1..8} \<Longrightarrow> (mask n :: 8 word) < 0xF \<longleftrightarrow> n < 4"
proof -
  assume "n \<in> {1..8}"
  then have "n = 1 \<or> n = 2 \<or> n = 3 \<or> n = 4 \<or> n = 5 \<or> n = 6 \<or> n = 7 \<or> n = 8" by auto
  then show ?thesis by (elim disjE) (simp_all add: mask_eq_exp_minus_1)
qed

lemma padding_last:
  assumes w: "carries [w] b" and k: "k < 255"
  shows "drains ethernet_frame_padding \<lparr>pad_state = False, pad_wordCounter = of_nat k\<rparr> [w] padding_init
    (if k < 7 then w\<lparr>axis_keep := 0xFF, axis_last := False\<rparr> # pad_words (Suc k)
     else if k = 7 \<and> length b < 4 then [w\<lparr>axis_keep := 0x0F\<rparr>] else [w])"
proof -
  have wf: "axis_last w" "axis_keep w = mask (length b)" "length b \<in> {1..8}" using w by (auto simp: Suc_le_eq)
  have c: "(1 + of_nat k :: u8) < 8 \<longleftrightarrow> k < 7" "(1 + of_nat k :: u8) = 8 \<longleftrightarrow> k = 7"
    using k by (simp_all add: word_less_nat_alt word_unat_eq_iff unat_of_nat unat_word_ariths)
  show ?thesis
  proof (cases "k < 7")
    case True
    have "ethernet_frame_padding \<lparr>pad_state = False, pad_wordCounter = of_nat k\<rparr> [w] =
        (\<lparr>pad_state = True, pad_wordCounter = of_nat (Suc k)\<rparr>, [], [w\<lparr>axis_keep := 0xFF, axis_last := False\<rparr>])"
      using True wf c by (simp add: ethernet_frame_padding_def add.commute)
    from padp.step_drains [OF this padding_pads] True show ?thesis by simp
  next
    case False
    have "ethernet_frame_padding \<lparr>pad_state = False, pad_wordCounter = of_nat k\<rparr> [w] =
        (padding_init, [], if k = 7 \<and> length b < 4 then [w\<lparr>axis_keep := 0x0F\<rparr>] else [w])"
      using False wf c small_mask by (cases w) (auto simp: ethernet_frame_padding_def padding_init_def Let_def add.commute)
    from padp.step_drains [OF this drains_Nil] False show ?thesis by simp
  qed
qed

lemma padding_drains:
  assumes "\<forall>v \<in> set vs. \<not> axis_last v" and "carries [w] b" and "length vs < 255"
  shows "drains ethernet_frame_padding padding_init (vs @ [w]) padding_init
    (vs @ (if length vs < 7 then w\<lparr>axis_keep := 0xFF, axis_last := False\<rparr> # pad_words (Suc (length vs))
           else if length vs = 7 \<and> length b < 4 then [w\<lparr>axis_keep := 0x0F\<rparr>] else [w]))"
  using padp.drains_append [OF padding_forwards [OF assms(1), of 0, simplified] padding_last [OF assms(2,3), simplified]]
  by (simp add: padding_init_def)

text \<open>The words written for a short frame carry the frame and its padding.\<close>

lemma zero_bytes: "word_bytes (0 :: 64 word) = replicate 8 0"
  by (intro nth_equalityI) (auto simp: byte_at_def)

lemma pad_words_nonempty: "pad_words c \<noteq> []"
  by (simp add: pad_words_def)

lemma concat_zero_bytes: "concat (replicate n (replicate 8 (0 :: u8))) = replicate (8 * n) 0"
  by (induction n) (simp_all add: replicate_add)

lemma carries_pad_words: "carries (pad_words c) (replicate (8 * (7 - c) + 4) 0)"
proof -
  have "carries [\<lparr>axis_data = 0 :: 64 word, axis_keep = 0x0F :: 8 word, axis_last = True\<rparr>] (replicate 4 0)"
    by (simp add: zero_bytes mask_eq_exp_minus_1)
  then show ?thesis
    by (auto simp: pad_words_def carries_append zero_bytes concat_zero_bytes replicate_add)
qed

lemma short_frame_bytes:
  assumes w: "carries [w] b" and k: "length vs < 7"
  shows "concat (map (\<lambda>v. word_bytes (axis_data v)) (vs @ [w])) @ replicate (8 * (7 - Suc (length vs)) + 4) 0 =
    (concat (map (\<lambda>v. word_bytes (axis_data v)) vs) @ b) @
    padding_bytes (vs @ [w :: axiWord]) (concat (map (\<lambda>v. word_bytes (axis_data v)) vs) @ b)"
proof -
  have b: "length b \<le> 8" "take (length b) (word_bytes (axis_data w)) = b" using w by auto
  have split: "word_bytes (axis_data w) = b @ drop (length b) (word_bytes (axis_data w))"
    using append_take_drop_id [of "length b" "word_bytes (axis_data w)"] b(2) by simp
  have "padding_bytes (vs @ [w]) (concat (map (\<lambda>v. word_bytes (axis_data v)) vs) @ b) =
      drop (length b) (word_bytes (axis_data w)) @ replicate (8 * (6 - length vs) + 4) 0"
    using b k by (simp add: padding_bytes_def length_concat_bytes)
  moreover have "7 - Suc (length vs) = 6 - length vs" by simp
  ultimately show ?thesis by (subst (1) map_append, subst (1) concat_append) (simp add: split [symmetric])
qed

text \<open>C37. A frame of at most 255 words leaves \<open>ethernet_frame_padding\<close> unchanged if it has 60
  bytes or more; a shorter one is extended to exactly 60 bytes: the frame, then the unused lanes of
  its last word as they came in, then zeros. The process stops and is ready for the next frame. The limit is that of the
  word counter, which has eight bits: the counter of a longer frame wraps.\<close>

theorem padding_minimum_frame:
  assumes "carries ws bs" and "length ws \<le> 255"
  shows "\<exists>out. drains ethernet_frame_padding padding_init ws padding_init out \<and>
    (if 60 \<le> length bs then out = ws
     else carries out (bs @ padding_bytes ws bs) \<and> length (bs @ padding_bytes ws bs) = 60)"
proof -
  let ?bytes = "\<lambda>vs :: axiWord list. concat (map (\<lambda>v. word_bytes (axis_data v)) vs)"
  obtain vs w b where ws: "ws = vs @ [w]" and full: "\<forall>v \<in> set vs. \<not> axis_last v \<and> axis_keep v = - 1"
    and bs: "bs = ?bytes vs @ b" and w: "carries [w] b"
    by (rule carries_final [OF _ assms(1)]) auto
  have len: "length bs = 8 * length vs + length b" "length (?bytes vs) = 8 * length vs" "length b \<in> {1..8}"
    using w by (auto simp: bs length_concat_bytes Suc_le_eq)
  note run = padding_drains [of vs w b, OF _ w]
  consider "length vs < 7" | "length vs = 7" "length b < 4" | "7 < length vs \<or> length vs = 7 \<and> 4 \<le> length b" by arith
  then show ?thesis
  proof cases
    case 1
    have "carries ((vs @ [w\<lparr>axis_keep := 0xFF, axis_last := False\<rparr>]) @ pad_words (Suc (length vs)))
        (?bytes (vs @ [w]) @ replicate (8 * (7 - Suc (length vs)) + 4) 0)"
      using full carries_pad_words [of "Suc (length vs)"] by (subst carries_append) (auto simp: pad_words_nonempty)
    then show ?thesis
      using 1 run full assms(2) len short_frame_bytes [OF w 1] by (auto simp: ws bs padding_bytes_def)
  next
    case 2
    have "carries [w\<lparr>axis_keep := 0x0F\<rparr>] (take 4 (word_bytes (axis_data w)))"
      using w by (simp add: mask_eq_exp_minus_1)
    moreover have "take 4 (word_bytes (axis_data w)) = b @ take (4 - length b) (drop (length b) (word_bytes (axis_data w)))"
      using w 2 take_add [of "length b" "4 - length b" "word_bytes (axis_data w)"] by simp
    ultimately show ?thesis
      using 2 run full assms(2) len by (auto simp: ws bs padding_bytes_def carries_append)
  next
    case 3
    then show ?thesis using run full assms(2) len by (auto simp: ws)
  qed
qed

theorem padding_minimum_frame_witness:
  "\<exists>out. drains ethernet_frame_padding padding_init
      [\<lparr>axis_data = 0x0807060504030201, axis_keep = 0xFF, axis_last = False\<rparr>,
       \<lparr>axis_data = 0xAA0B0A09, axis_keep = 0x07, axis_last = True\<rparr>] padding_init out \<and>
    carries out ([1, 2, 3, 4, 5, 6, 7, 8, 9, 10, 11] @ [0xAA, 0, 0, 0, 0] @ replicate 44 0)"
  using padding_minimum_frame [of "[\<lparr>axis_data = 0x0807060504030201, axis_keep = 0xFF, axis_last = False\<rparr>,
       \<lparr>axis_data = 0xAA0B0A09, axis_keep = 0x07, axis_last = True\<rparr>]" "[1, 2, 3, 4, 5, 6, 7, 8, 9, 10, 11]"]
  by (simp add: padding_bytes_def word_bytes_def byte_at_def upt_rec drop_bit_eq_div mask_eq_exp_minus_1)

text \<open>The 8-bit word counter limits the component to frames of 255 words: after a frame of
  256 words (2041 to 2048 bytes) the counter is 0 again, the frame counts as short, its last word
  loses the end-of-frame mark, and eight padding words are appended.\<close>

theorem padding_counter_wraps:
  assumes "carries ws bs" and "length ws = 256"
  shows "drains ethernet_frame_padding padding_init ws padding_init
    (butlast ws @ [(last ws)\<lparr>axis_keep := 0xFF, axis_last := False\<rparr>] @ pad_words 0)"
proof -
  obtain vs w b where ws: "ws = vs @ [w]" and full: "\<forall>v \<in> set vs. \<not> axis_last v \<and> axis_keep v = - 1" and w: "carries [w] b"
    by (rule carries_final [OF _ assms(1)]) auto
  have vs: "length vs = 255" using assms(2) by (simp add: ws)
  have step: "ethernet_frame_padding \<lparr>pad_state = False, pad_wordCounter = 255\<rparr> [w] =
      (\<lparr>pad_state = True, pad_wordCounter = of_nat 0\<rparr>, [], [w\<lparr>axis_keep := 0xFF, axis_last := False\<rparr>])"
    using w by (simp add: ethernet_frame_padding_def)
  have "drains ethernet_frame_padding padding_init vs \<lparr>pad_state = False, pad_wordCounter = 255\<rparr> vs"
    using padding_forwards [of vs 0] full by (simp add: padding_init_def vs)
  from padp.drains_append [OF this padp.step_drains [OF step padding_pads]] show ?thesis by (simp add: ws)
qed

theorem padding_counter_wraps_witness:
  "\<exists>out. drains ethernet_frame_padding padding_init
     (replicate 255 \<lparr>axis_data = 0, axis_keep = - 1, axis_last = False\<rparr> @ [\<lparr>axis_data = 0, axis_keep = - 1, axis_last = True\<rparr>])
     padding_init out \<and> length out = 264"
proof -
  let ?ws = "replicate 255 \<lparr>axis_data = 0 :: 64 word, axis_keep = - 1 :: 8 word, axis_last = False\<rparr> @
      [\<lparr>axis_data = 0, axis_keep = - 1, axis_last = True\<rparr>]"
  have "carries [\<lparr>axis_data = 0 :: 64 word, axis_keep = - 1 :: 8 word, axis_last = True\<rparr>] (replicate 8 0)"
    by (simp add: zero_bytes mask_eq_exp_minus_1)
  then have "carries ?ws (concat (map (\<lambda>v. word_bytes (axis_data v)) (butlast ?ws)) @ replicate 8 0)"
    by (auto simp: carries_append)
  from padding_counter_wraps [OF this] show ?thesis by (auto simp: pad_words_def)
qed

end
