(* ===== verification/Mem_Utils.thy ===== *)
theory Mem_Utils
  imports Dma_Prelude
begin

text \<open>
  \<^verbatim>\<open>hls/mem_utils.hpp\<close>: the memory command shared by the HLS modules, and the arithmetic of the
  2 MB pages that the TLB, the page-boundary check, the driver and the host software all use:
  page index and page offset of a 64-bit address as numbers.
\<close>

record memCmd =
  cmd_addr :: u64
  cmd_len :: u32

abbreviation page_bytes :: nat where
  "page_bytes \<equiv> 2097152"

text \<open>The \<open>i\<close>-th page of a region that starts at \<open>base\<close>, and an address in it.\<close>

definition page_addr :: "u64 \<Rightarrow> nat \<Rightarrow> nat \<Rightarrow> u64" where
  "page_addr base i off = base + of_nat (i * page_bytes + off)"

lemma unat_page_index: "unat (drop_bit 21 a) = unat a div page_bytes"
  for a :: "'a::len word"
  by (subst unat_drop_bit_eq) (simp add: drop_bit_eq_div)

lemma page_mask: "(0x1FFFFF :: 'a::len word) = mask 21"
  by (simp add: mask_eq_exp_minus_1)

lemma unat_page_offset: "unat (a AND 0x1FFFFF) = unat a mod page_bytes"
  for a :: "'a::len word"
  by (subst page_mask, subst take_bit_eq_mask [symmetric], subst unsigned_take_bit_eq) (simp add: take_bit_eq_mod)

lemma page_offset_less: "unat (a AND 0x1FFFFF) < page_bytes"
  for a :: "'a::len word"
  by (simp add: unat_page_offset)

lemma page_addr_split:
  fixes base :: u64
  assumes "i < 16384" and "off < page_bytes"
  shows "unat (drop_bit 21 (page_addr base i off - base)) = i"
    and "page_addr base i off - base AND 0x1FFFFF = of_nat off"
    and "unat (page_addr base i off - base) = i * page_bytes + off"
proof -
  have "i * page_bytes + off < 2 ^ 64" using assms by simp
  then have u: "unat (page_addr base i off - base) = i * page_bytes + off"
    by (simp add: page_addr_def unat_of_nat del: of_nat_add of_nat_mult)
  show "unat (page_addr base i off - base) = i * page_bytes + off" by (fact u)
  show "unat (drop_bit 21 (page_addr base i off - base)) = i"
    using assms(2) by (simp add: unat_page_index u)
  have "unat (page_addr base i off - base AND 0x1FFFFF) = off"
    using assms(2) by (simp only: unat_page_offset u) simp
  then show "page_addr base i off - base AND 0x1FFFFF = of_nat off"
    by (metis of_nat_unat ucast_id)
qed

end
