(* ===== verification/Tlb.thy ===== *)
theory Tlb
  imports Mem_Utils
begin

text \<open>
  \<^verbatim>\<open>hls/tlb/tlb.hpp\<close> and \<^verbatim>\<open>hls/tlb/tlb.cpp\<close> (the configuration without \<open>USE_DDR\<close>): the table
  that translates the virtual addresses of memory commands to physical addresses of 2 MB pages.

  The static variables are the record \<open>tlb_state\<close>; the streams and the two debug registers of
  one instance are the record \<open>tlb_io\<close>. The table has 16384 entries; an access outside of it is
  undefined in C++ and is the error \<open>Table_Index\<close> here. Sums of \<open>ap_uint\<close> values do not
  wrap around before they are assigned, so the comparisons are over numbers.

  The lemmas show: the effect of a call on every branch; that installing mappings and looking
  them up are inverse (the locale \<open>page_table\<close>, interpreted on \<open>tlb_install\<close>), so that after
  the mappings of a region every address in it is translated to its page; that a command inside
  one page becomes a physical transfer inside one page; when the two counters advance; and how
  commands take precedence over mappings.
\<close>

section \<open>Data\<close>

definition TLB_ENTRIES :: u16 where
  "TLB_ENTRIES = 16384"

record dmaCmd =
  dma_addr :: u64
  dma_len :: "28 word"

record tlbMapping =
  map_vaddr :: u64
  map_paddr :: u64
  map_isBase :: bool

record tlb_state =
  tlb_table :: "nat \<Rightarrow> u48"
  base_vaddr :: u64
  top_page_base :: u32
  tlbMissCounter :: u32
  tlbPageCrossingCounter :: u32

record tlb_io =
  s_axis_mem_write_cmd :: "memCmd list"
  s_axis_mem_read_cmd :: "memCmd list"
  m_axis_dma_write_cmd :: "dmaCmd list"
  m_axis_dma_read_cmd :: "dmaCmd list"
  s_axis_tlb_interface :: "tlbMapping list"
  regTlbMissCount :: u32
  regPageCrossingCount :: u32

datatype tlb_error = Table_Index u64

definition tlb_init :: tlb_state where
  "tlb_init = \<lparr>tlb_table = (\<lambda>_. 0), base_vaddr = 0, top_page_base = 0, tlbMissCounter = 0, tlbPageCrossingCounter = 0\<rparr>"

section \<open>The TLB\<close>

text \<open>The translation of a command, the same code for writes and for reads: the new static
  variables, the DMA command and the new values of the two debug registers.\<close>

definition tlb_translate :: "tlb_state \<Rightarrow> memCmd \<Rightarrow> u32 \<Rightarrow> u32 \<Rightarrow> tlb_error + (tlb_state \<times> dmaCmd \<times> u32 \<times> u32)" where
  "tlb_translate st cmd regMiss regCrossing =
     (let addr = cmd_addr cmd - base_vaddr st;
          page_base = drop_bit 21 addr;
          page_offset = addr AND 0x1FFFFF
      in if unat TLB_ENTRIES \<le> unat page_base then Inl (Table_Index page_base)
         else
           let pbase = ucast (tlb_table st (unat page_base)) :: u64;
               dma = \<lparr>dma_addr = pbase + page_offset, dma_len = ucast (cmd_len cmd)\<rparr>;
               miss = unat (top_page_base st) < unat page_base;
               st1 = (if miss then st\<lparr>tlbMissCounter := tlbMissCounter st + 1\<rparr> else st);
               regMiss1 = (if miss then tlbMissCounter st1 else regMiss);
               crossing = 2 * 1024 * 1024 < unat page_offset + unat (cmd_len cmd);
               st2 = (if crossing then st1\<lparr>tlbPageCrossingCounter := tlbPageCrossingCounter st1 + 1\<rparr> else st1);
               regCrossing1 = (if crossing then tlbPageCrossingCounter st2 else regCrossing)
           in Inr (st2, dma, regMiss1, regCrossing1))"

text \<open>Installing a mapping.\<close>

definition tlb_install :: "tlb_state \<Rightarrow> tlbMapping \<Rightarrow> tlb_error + tlb_state" where
  "tlb_install st newMapping =
     (let st1 = (if map_isBase newMapping then st\<lparr>base_vaddr := map_vaddr newMapping\<rparr> else st);
          addr = map_vaddr newMapping - base_vaddr st1;
          page_base = drop_bit 21 addr
      in if unat TLB_ENTRIES \<le> unat page_base then Inl (Table_Index page_base)
         else
           let st2 = st1\<lparr>tlb_table := (tlb_table st1)(unat page_base := ucast (map_paddr newMapping))\<rparr>
           in Inr (if unat (top_page_base st2) < unat page_base then st2\<lparr>top_page_base := ucast page_base\<rparr> else st2))"

definition tlb :: "tlb_state \<Rightarrow> tlb_io \<Rightarrow> tlb_error + (tlb_state \<times> tlb_io)" where
  "tlb st io =
     (case s_axis_mem_write_cmd io of
        cmd # rest \<Rightarrow>
          (case tlb_translate st cmd (regTlbMissCount io) (regPageCrossingCount io) of
             Inl e \<Rightarrow> Inl e
           | Inr (st', dma, miss, crossing) \<Rightarrow>
               Inr (st', io\<lparr>s_axis_mem_write_cmd := rest, m_axis_dma_write_cmd := m_axis_dma_write_cmd io @ [dma],
                            regTlbMissCount := miss, regPageCrossingCount := crossing\<rparr>))
      | [] \<Rightarrow>
          (case s_axis_mem_read_cmd io of
             cmd # rest \<Rightarrow>
               (case tlb_translate st cmd (regTlbMissCount io) (regPageCrossingCount io) of
                  Inl e \<Rightarrow> Inl e
                | Inr (st', dma, miss, crossing) \<Rightarrow>
                    Inr (st', io\<lparr>s_axis_mem_read_cmd := rest, m_axis_dma_read_cmd := m_axis_dma_read_cmd io @ [dma],
                                 regTlbMissCount := miss, regPageCrossingCount := crossing\<rparr>))
           | [] \<Rightarrow>
               (case s_axis_tlb_interface io of
                  newMapping # rest \<Rightarrow>
                    (case tlb_install st newMapping of
                       Inl e \<Rightarrow> Inl e
                     | Inr st' \<Rightarrow> Inr (st', io\<lparr>s_axis_tlb_interface := rest\<rparr>))
                | [] \<Rightarrow> Inr (st, io))))"

fun tlb_calls :: "nat \<Rightarrow> tlb_state \<Rightarrow> tlb_io \<Rightarrow> tlb_error + (tlb_state \<times> tlb_io)" where
  "tlb_calls 0 st io = Inr (st, io)"
| "tlb_calls (Suc n) st io =
     (case tlb st io of Inl e \<Rightarrow> Inl e | Inr (st', io') \<Rightarrow> tlb_calls n st' io')"

section \<open>Specification\<close>

text \<open>The translation a state stands for, as a partial map on addresses.\<close>

definition translation :: "tlb_state \<Rightarrow> u64 \<Rightarrow> u64 option" where
  "translation st v =
     (let a = v - base_vaddr st in
      if unat a div page_bytes < 16384 then Some (ucast (tlb_table st (unat a div page_bytes)) + (a AND 0x1FFFFF)) else None)"

text \<open>The mappings the host installs for a region of pages: the first one is the base.\<close>

definition region_mappings :: "u64 \<Rightarrow> u64 list \<Rightarrow> tlbMapping list" where
  "region_mappings base ps =
     map (\<lambda>i. \<lparr>map_vaddr = page_addr base i 0, map_paddr = ps ! i, map_isBase = (i = 0)\<rparr>) [0..<length ps]"

text \<open>Installing a page of the current region by its index.\<close>

definition tlb_set_page :: "tlb_state \<Rightarrow> nat \<Rightarrow> u64 \<Rightarrow> tlb_state" where
  "tlb_set_page st i p =
     (case tlb_install st \<lparr>map_vaddr = page_addr (base_vaddr st) i 0, map_paddr = p, map_isBase = False\<rparr> of
        Inl e \<Rightarrow> st
      | Inr st' \<Rightarrow> st')"

text \<open>Installing the first \<open>n\<close> pages of a list.\<close>

definition tlb_fill :: "tlb_state \<Rightarrow> u64 list \<Rightarrow> nat \<Rightarrow> tlb_state" where
  "tlb_fill st ps n = fold (\<lambda>i s. tlb_set_page s i (ps ! i)) [0..<n] st"

definition tlb_page :: "tlb_state \<Rightarrow> nat \<Rightarrow> u64" where
  "tlb_page st i = ucast (tlb_table st i)"

definition no_commands :: "tlb_io \<Rightarrow> bool" where
  "no_commands io \<longleftrightarrow> s_axis_mem_write_cmd io = [] \<and> s_axis_mem_read_cmd io = []"

text \<open>The DMA command with which the module answers a command at the head of either command stream, whatever
  else its ports hold: one call reads the command, writes the DMA command to the stream of the same direction, and keeps
  the page table and the base.\<close>

definition tlb_answers :: "tlb_state \<Rightarrow> memCmd \<Rightarrow> dmaCmd \<Rightarrow> bool" where
  "tlb_answers st cmd dma \<longleftrightarrow>
     (\<forall>io rest. s_axis_mem_write_cmd io = cmd # rest \<longrightarrow>
        (\<exists>st' io'. tlb st io = Inr (st', io') \<and> s_axis_mem_write_cmd io' = rest \<and>
           m_axis_dma_write_cmd io' = m_axis_dma_write_cmd io @ [dma] \<and> m_axis_dma_read_cmd io' = m_axis_dma_read_cmd io \<and>
           tlb_table st' = tlb_table st \<and> base_vaddr st' = base_vaddr st)) \<and>
     (\<forall>io rest. s_axis_mem_write_cmd io = [] \<longrightarrow> s_axis_mem_read_cmd io = cmd # rest \<longrightarrow>
        (\<exists>st' io'. tlb st io = Inr (st', io') \<and> s_axis_mem_read_cmd io' = rest \<and>
           m_axis_dma_read_cmd io' = m_axis_dma_read_cmd io @ [dma] \<and> m_axis_dma_write_cmd io' = m_axis_dma_write_cmd io \<and>
           tlb_table st' = tlb_table st \<and> base_vaddr st' = base_vaddr st))"

lemma TLB_ENTRIES_nat [simp]: "unat TLB_ENTRIES = 16384"
  by (simp add: TLB_ENTRIES_def)

section \<open>The page table as an interface\<close>

locale page_table =
  fixes set_page :: "'s \<Rightarrow> nat \<Rightarrow> u64 \<Rightarrow> 's" and page :: "'s \<Rightarrow> nat \<Rightarrow> u64" and capacity :: nat and storable :: "u64 \<Rightarrow> bool"
  assumes page_same: "i < capacity \<Longrightarrow> storable p \<Longrightarrow> page (set_page s i p) i = p"
    and page_other: "i < capacity \<Longrightarrow> j \<noteq> i \<Longrightarrow> page (set_page s i p) j = page s j"
begin

lemma page_after_fill:
  "n \<le> capacity \<Longrightarrow> \<forall>i < n. storable (f i) \<Longrightarrow>
   page (fold (\<lambda>i s. set_page s i (f i)) [0..<n] s) j = (if j < n then f j else page s j)"
proof (induction n)
  case 0
  then show ?case by simp
next
  case (Suc n)
  then show ?case by (cases "j = n") (auto simp: page_same page_other less_Suc_eq)
qed

end

lemma unat_ucast_top: "unat (a :: u64) < 16384 \<Longrightarrow> unat (ucast a :: u32) = unat a"
  by (simp add: unat_ucast_mod)

lemma tlb_install_page:
  assumes "i < 16384"
  shows "tlb_install st \<lparr>map_vaddr = page_addr (base_vaddr st) i 0, map_paddr = p, map_isBase = False\<rparr> =
    Inr (st\<lparr>tlb_table := (tlb_table st)(i := ucast p),
            top_page_base := (if unat (top_page_base st) < i then of_nat i else top_page_base st)\<rparr>)"
proof -
  have "(ucast (drop_bit 21 (page_addr (base_vaddr st) i 0 - base_vaddr st)) :: u32) = of_nat i"
    using assms page_addr_split(1) [OF assms, of 0 "base_vaddr st"]
    by (intro word_unat_eq_iff [THEN iffD2]) (simp add: unat_ucast_mod unat_of_nat)
  with assms page_addr_split(1) [OF assms, of 0 "base_vaddr st"] show ?thesis
    by (simp add: tlb_install_def Let_def)
qed

lemma tlb_install_base:
  "tlb_install st \<lparr>map_vaddr = base, map_paddr = p, map_isBase = True\<rparr> = Inr (tlb_set_page (st\<lparr>base_vaddr := base\<rparr>) 0 p)"
  by (simp add: tlb_install_def tlb_set_page_def page_addr_def)

lemma tlb_set_page_eq:
  "i < 16384 \<Longrightarrow> tlb_set_page st i p =
    st\<lparr>tlb_table := (tlb_table st)(i := ucast p),
       top_page_base := (if unat (top_page_base st) < i then of_nat i else top_page_base st)\<rparr>"
  by (simp add: tlb_set_page_def tlb_install_page)

lemma ucast_48_64: "unat (p :: u64) < 2 ^ 48 \<Longrightarrow> ucast (ucast p :: u48) = p"
  by (rule word_unat_eq_iff [THEN iffD2]) (simp add: unat_ucast_mod)

interpretation tlbt: page_table tlb_set_page tlb_page 16384 "\<lambda>p. unat p < 2 ^ 48"
  by unfold_locales (simp_all add: tlb_set_page_eq tlb_page_def ucast_48_64 del: power_numeral)

section \<open>Translating commands\<close>

lemma tlb_translate_ok:
  assumes "translation st (cmd_addr cmd) = Some p"
  shows "\<exists>st' m c. tlb_translate st cmd a b = Inr (st', \<lparr>dma_addr = p, dma_len = ucast (cmd_len cmd)\<rparr>, m, c) \<and>
    tlb_table st' = tlb_table st \<and> base_vaddr st' = base_vaddr st \<and> top_page_base st' = top_page_base st"
  using assms by (auto simp: translation_def tlb_translate_def Let_def unat_page_index split: if_splits)

lemma tlb_answers_write:
  assumes "tlb_answers st cmd dma" and "s_axis_mem_write_cmd io = cmd # rest"
  shows "\<exists>st' io'. tlb st io = Inr (st', io') \<and> s_axis_mem_write_cmd io' = rest \<and>
    m_axis_dma_write_cmd io' = m_axis_dma_write_cmd io @ [dma] \<and> m_axis_dma_read_cmd io' = m_axis_dma_read_cmd io"
  using assms unfolding tlb_answers_def by metis

lemma tlb_answers_translated:
  assumes "translation st (cmd_addr cmd) = Some p"
  shows "tlb_answers st cmd \<lparr>dma_addr = p, dma_len = ucast (cmd_len cmd)\<rparr>"
  unfolding tlb_answers_def
proof (intro conjI allI impI)
  fix io :: tlb_io and rest
  assume "s_axis_mem_write_cmd io = cmd # rest"
  with tlb_translate_ok [OF assms, of "regTlbMissCount io" "regPageCrossingCount io"]
  show "\<exists>st' io'. tlb st io = Inr (st', io') \<and> s_axis_mem_write_cmd io' = rest \<and>
      m_axis_dma_write_cmd io' = m_axis_dma_write_cmd io @ [\<lparr>dma_addr = p, dma_len = ucast (cmd_len cmd)\<rparr>] \<and> m_axis_dma_read_cmd io' = m_axis_dma_read_cmd io \<and>
      tlb_table st' = tlb_table st \<and> base_vaddr st' = base_vaddr st" by (auto simp: tlb_def)
next
  fix io :: tlb_io and rest
  assume "s_axis_mem_write_cmd io = []" "s_axis_mem_read_cmd io = cmd # rest"
  with tlb_translate_ok [OF assms, of "regTlbMissCount io" "regPageCrossingCount io"]
  show "\<exists>st' io'. tlb st io = Inr (st', io') \<and> s_axis_mem_read_cmd io' = rest \<and>
      m_axis_dma_read_cmd io' = m_axis_dma_read_cmd io @ [\<lparr>dma_addr = p, dma_len = ucast (cmd_len cmd)\<rparr>] \<and> m_axis_dma_write_cmd io' = m_axis_dma_write_cmd io \<and>
      tlb_table st' = tlb_table st \<and> base_vaddr st' = base_vaddr st" by (auto simp: tlb_def)
qed

lemma tlb_translate_error:
  "translation st (cmd_addr cmd) = None \<Longrightarrow> \<exists>e. tlb_translate st cmd a b = Inl e"
  by (auto simp: translation_def tlb_translate_def Let_def unat_page_index split: if_splits)

lemma translation_page:
  assumes "i < 16384" and "off < page_bytes"
  shows "translation st (page_addr (base_vaddr st) i off) = Some (tlb_page st i + of_nat off)"
proof -
  have "unat (page_addr (base_vaddr st) i off - base_vaddr st) div page_bytes = i"
    using assms page_addr_split(3) [OF assms, of "base_vaddr st"] by simp
  with assms page_addr_split(2) [OF assms, of "base_vaddr st"] show ?thesis
    by (simp add: translation_def tlb_page_def Let_def)
qed

section \<open>Installing the mappings of a region\<close>

lemma tlb_fill_simps: "tlb_fill st ps 0 = st" "tlb_fill st ps (Suc n) = tlb_set_page (tlb_fill st ps n) n (ps ! n)"
  by (simp_all add: tlb_fill_def)

lemma tlb_fill_frame:
  "n \<le> 16384 \<Longrightarrow> base_vaddr (tlb_fill st ps n) = base_vaddr st \<and>
     unat (top_page_base (tlb_fill st ps n)) = max (unat (top_page_base st)) (n - 1) \<and>
     tlbMissCounter (tlb_fill st ps n) = tlbMissCounter st \<and>
     tlbPageCrossingCounter (tlb_fill st ps n) = tlbPageCrossingCounter st"
proof (induction n)
  case (Suc n)
  then show ?case by (cases "unat (top_page_base st) < n") (auto simp: tlb_fill_simps tlb_set_page_eq unat_of_nat)
qed (simp add: tlb_fill_simps)

lemma tlb_mapping_step:
  assumes "no_commands io" and "s_axis_tlb_interface io = m # ms" and "tlb_install st m = Inr st'"
  shows "tlb st io = Inr (st', io\<lparr>s_axis_tlb_interface := ms\<rparr>)"
  using assms by (simp add: tlb_def no_commands_def)

lemma tlb_calls_snoc:
  "tlb_calls (Suc n) st io = (case tlb_calls n st io of Inl e \<Rightarrow> Inl e | Inr (st', io') \<Rightarrow> tlb st' io')"
proof (induction n arbitrary: st io)
  case 0
  then show ?case by (auto split: sum.splits)
next
  case (Suc n)
  show ?case
  proof (cases "tlb st io")
    case (Inl e)
    then show ?thesis by simp
  next
    case (Inr r)
    then have "tlb_calls (Suc m) st io = tlb_calls m (fst r) (snd r)" for m by (cases r) simp
    then show ?thesis using Suc.IH by metis
  qed
qed

lemma tlb_region_prefix:
  assumes "no_commands io" and "s_axis_tlb_interface io = region_mappings base ps" and "length ps \<le> 16384"
  shows "n \<le> length ps \<Longrightarrow>
    tlb_calls n st io =
      Inr (if n = 0 then st else tlb_fill (st\<lparr>base_vaddr := base\<rparr>) ps n,
           io\<lparr>s_axis_tlb_interface := drop n (region_mappings base ps)\<rparr>)"
proof (induction n)
  case 0
  then show ?case by (simp add: assms(2) [symmetric])
next
  case (Suc n)
  let ?fill = "tlb_fill (st\<lparr>base_vaddr := base\<rparr>) ps"
  let ?st = "if n = 0 then st else ?fill n" and ?ms = "region_mappings base ps"
  have n: "n < length ?ms" using Suc.prems by (simp add: region_mappings_def)
  have "tlb_install ?st (?ms ! n) = Inr (?fill (Suc n))"
  proof (cases "n = 0")
    case True
    then show ?thesis using n by (simp add: region_mappings_def tlb_install_base page_addr_def tlb_fill_simps)
  next
    case False
    have "base_vaddr (?fill n) = base" using tlb_fill_frame [of n "st\<lparr>base_vaddr := base\<rparr>" ps] n assms(3) Suc.prems by simp
    moreover have "n < 16384" using Suc.prems assms(3) by simp
    ultimately show ?thesis
      using False n tlb_install_page [of n "?fill n" "ps ! n"]
      by (simp add: region_mappings_def tlb_fill_simps tlb_set_page_def)
  qed
  then have "tlb ?st (io\<lparr>s_axis_tlb_interface := drop n ?ms\<rparr>) =
      Inr (?fill (Suc n), io\<lparr>s_axis_tlb_interface := drop n ?ms, s_axis_tlb_interface := drop (Suc n) ?ms\<rparr>)"
    using assms(1) n by (intro tlb_mapping_step [of _ "?ms ! n"]) (simp_all add: no_commands_def Cons_nth_drop_Suc)
  with Suc show ?case by (simp add: tlb_calls_snoc del: tlb_calls.simps(2))
qed

text \<open>After the mappings of a region, the state translates every address of the region.\<close>

lemma tlb_fill_translation:
  assumes "length ps \<le> 16384" and "\<forall>p \<in> set ps. unat p < 2 ^ 48" and "i < length ps" and "off < page_bytes"
  shows "translation (tlb_fill (st\<lparr>base_vaddr := base\<rparr>) ps (length ps)) (page_addr base i off) = Some (ps ! i + of_nat off)"
proof -
  let ?st = "tlb_fill (st\<lparr>base_vaddr := base\<rparr>) ps (length ps)"
  have "tlb_page ?st i = ps ! i"
    using tlbt.page_after_fill [of "length ps" "(!) ps" "st\<lparr>base_vaddr := base\<rparr>" i] assms
    by (simp add: tlb_fill_def del: power_numeral)
  moreover have "base_vaddr ?st = base" using tlb_fill_frame [of "length ps" "st\<lparr>base_vaddr := base\<rparr>" ps] assms(1) by simp
  ultimately show ?thesis using translation_page [of i off ?st] assms by simp
qed

section \<open>Properties\<close>

text \<open>C17. Once the mappings of a region of at most 16384 pages have been read (one per call, no
  command pending), the TLB answers every command, of either direction and of any length, whose address lies
  in the region with the DMA command to the same offset in the
  physical page given for it, for physical pages below 48 bits, and with the low 28 bits of the length; the address does
  not wrap around. The calls that read the mappings leave the
  counters alone and never fail.\<close>

theorem tlb_region_translates:
  assumes "no_commands io" and "s_axis_tlb_interface io = region_mappings base ps" and "ps \<noteq> []"
    and "length ps \<le> 16384" and "\<forall>p \<in> set ps. unat p < 2 ^ 48"
  shows "\<exists>st'. tlb_calls (length ps) st io = Inr (st', io\<lparr>s_axis_tlb_interface := []\<rparr>) \<and>
    (\<forall>i < length ps. \<forall>off < page_bytes. \<forall>len.
       tlb_answers st' \<lparr>cmd_addr = page_addr base i off, cmd_len = len\<rparr> \<lparr>dma_addr = ps ! i + of_nat off, dma_len = ucast len\<rparr> \<and>
       unat (ps ! i + of_nat off) = unat (ps ! i) + off) \<and>
    tlbMissCounter st' = tlbMissCounter st \<and> tlbPageCrossingCounter st' = tlbPageCrossingCounter st"
proof -
  let ?st = "tlb_fill (st\<lparr>base_vaddr := base\<rparr>) ps (length ps)"
  have "tlb_calls (length ps) st io = Inr (?st, io\<lparr>s_axis_tlb_interface := []\<rparr>)"
    using tlb_region_prefix [OF assms(1,2,4) order_refl, of st] assms(3) by (simp add: region_mappings_def)
  moreover have "tlb_answers ?st \<lparr>cmd_addr = page_addr base i off, cmd_len = len\<rparr> \<lparr>dma_addr = ps ! i + of_nat off, dma_len = ucast len\<rparr>"
    if "i < length ps" "off < page_bytes" for i off len
    using tlb_answers_translated [of ?st "\<lparr>cmd_addr = page_addr base i off, cmd_len = len\<rparr>"] tlb_fill_translation [OF assms(4,5) that] by simp
  moreover have "unat (ps ! i + of_nat off) = unat (ps ! i) + off" if "i < length ps" "off < page_bytes" for i off
    using assms(5) nth_mem [OF that(1)] that(2) by (auto simp: unat_word_ariths unat_of_nat)
  ultimately show ?thesis
    using tlb_fill_frame [OF assms(4), of "st\<lparr>base_vaddr := base\<rparr>" ps] by simp
qed

definition example_io :: tlb_io where
  "example_io = \<lparr>s_axis_mem_write_cmd = [], s_axis_mem_read_cmd = [], m_axis_dma_write_cmd = [], m_axis_dma_read_cmd = [],
     s_axis_tlb_interface = region_mappings 0xAABBCC00 [0xC0000, 0xD0000], regTlbMissCount = 0, regPageCrossingCount = 0\<rparr>"

theorem tlb_region_translates_witness:
  "\<exists>st' st'' io'. tlb_calls 2 tlb_init example_io = Inr (st', example_io\<lparr>s_axis_tlb_interface := []\<rparr>) \<and>
    tlb st' (example_io\<lparr>s_axis_mem_write_cmd := [\<lparr>cmd_addr = page_addr 0xAABBCC00 1 0xDD, cmd_len = 64\<rparr>]\<rparr>) = Inr (st'', io') \<and>
    m_axis_dma_write_cmd io' = [\<lparr>dma_addr = 0xD00DD, dma_len = 64\<rparr>]"
proof -
  have l: "length [0xC0000 :: u64, 0xD0000] = 2" by simp
  from tlb_region_translates [of example_io "0xAABBCC00" "[0xC0000, 0xD0000]" tlb_init, unfolded l] obtain st' where
    st': "tlb_calls 2 tlb_init example_io = Inr (st', example_io\<lparr>s_axis_tlb_interface := []\<rparr>)"
    "\<forall>i < 2. \<forall>off < page_bytes. \<forall>len. tlb_answers st' \<lparr>cmd_addr = page_addr 0xAABBCC00 i off, cmd_len = len\<rparr>
       \<lparr>dma_addr = [0xC0000, 0xD0000] ! i + of_nat off, dma_len = ucast len\<rparr>"
    by (auto simp: example_io_def no_commands_def)
  from st'(2) [rule_format, of 1 "0xDD" 64]
  have "tlb_answers st' \<lparr>cmd_addr = page_addr 0xAABBCC00 1 0xDD, cmd_len = 64\<rparr> \<lparr>dma_addr = 0xD00DD, dma_len = 64\<rparr>" by simp
  from tlb_answers_write [OF this, of "example_io\<lparr>s_axis_mem_write_cmd := [\<lparr>cmd_addr = page_addr 0xAABBCC00 1 0xDD, cmd_len = 64\<rparr>]\<rparr>" "[]"] obtain st'' io' where
    "tlb st' (example_io\<lparr>s_axis_mem_write_cmd := [\<lparr>cmd_addr = page_addr 0xAABBCC00 1 0xDD, cmd_len = 64\<rparr>]\<rparr>) = Inr (st'', io')"
    "m_axis_dma_write_cmd io' = m_axis_dma_write_cmd example_io @ [\<lparr>dma_addr = 0xD00DD, dma_len = 64\<rparr>]" by auto
  moreover have "m_axis_dma_write_cmd example_io = []" by (simp add: example_io_def)
  ultimately show ?thesis using st'(1) by auto
qed

text \<open>A write command whose address is translated is answered in one call: the DMA command
  with the physical address and the low 28 bits of the length is appended to the DMA write stream.
  The table, the base, the read commands and the pending mappings are left alone: a write command
  takes precedence over both other streams.\<close>

theorem tlb_write_command:
  assumes "s_axis_mem_write_cmd io = cmd # rest" and "translation st (cmd_addr cmd) = Some p"
  shows "\<exists>st' io'. tlb st io = Inr (st', io') \<and> s_axis_mem_write_cmd io' = rest \<and>
    m_axis_dma_write_cmd io' = m_axis_dma_write_cmd io @ [\<lparr>dma_addr = p, dma_len = ucast (cmd_len cmd)\<rparr>] \<and>
    m_axis_dma_read_cmd io' = m_axis_dma_read_cmd io \<and> s_axis_mem_read_cmd io' = s_axis_mem_read_cmd io \<and>
    s_axis_tlb_interface io' = s_axis_tlb_interface io \<and> translation st' = translation st"
proof -
  from tlb_translate_ok [OF assms(2), of "regTlbMissCount io" "regPageCrossingCount io"] obtain st' m c where
    tr: "tlb_translate st cmd (regTlbMissCount io) (regPageCrossingCount io) =
      Inr (st', \<lparr>dma_addr = p, dma_len = ucast (cmd_len cmd)\<rparr>, m, c)"
    "tlb_table st' = tlb_table st" "base_vaddr st' = base_vaddr st" by blast
  have "translation st' = translation st" by (rule ext) (simp add: translation_def Let_def tr(2,3))
  then show ?thesis using assms(1) tr(1) by (simp add: tlb_def)
qed

theorem tlb_write_command_witness:
  "\<exists>st' io'. tlb (tlb_init\<lparr>tlb_table := (\<lambda>_. 0)(3 := 0x12345600000)\<rparr>)
     (example_io\<lparr>s_axis_mem_write_cmd := [\<lparr>cmd_addr = 0x600010, cmd_len = 64\<rparr>]\<rparr>) = Inr (st', io') \<and>
   m_axis_dma_write_cmd io' = [\<lparr>dma_addr = 0x12345600010, dma_len = 64\<rparr>] \<and>
   s_axis_tlb_interface io' = s_axis_tlb_interface example_io"
  using tlb_write_command [of "example_io\<lparr>s_axis_mem_write_cmd := [\<lparr>cmd_addr = 0x600010, cmd_len = 64\<rparr>]\<rparr>"
      "\<lparr>cmd_addr = 0x600010, cmd_len = 64\<rparr>" "[]" "tlb_init\<lparr>tlb_table := (\<lambda>_. 0)(3 := 0x12345600000)\<rparr>" "0x12345600010"]
  by (auto simp: example_io_def translation_def tlb_init_def)

text \<open>A command that stays inside one 2 MB page becomes a DMA transfer of the same length
  inside the physical page, without wrap-around, and is not counted as a page crossing.\<close>

theorem tlb_transfer_stays_in_page:
  assumes "i < 16384" and "off < page_bytes" and "cmd_addr cmd = page_addr (base_vaddr st) i off"
    and "off + unat (cmd_len cmd) \<le> page_bytes"
  shows "\<exists>st' dma m. tlb_translate st cmd rm rc = Inr (st', dma, m, rc) \<and>
    unat (dma_addr dma) = unat (tlb_page st i) + off \<and> unat (dma_len dma) = unat (cmd_len cmd) \<and>
    unat (dma_addr dma) + unat (dma_len dma) \<le> unat (tlb_page st i) + page_bytes \<and>
    tlbPageCrossingCounter st' = tlbPageCrossingCounter st"
proof -
  note sp = page_addr_split [OF assms(1,2), of "base_vaddr st"]
  have "unat (tlb_table st i) < 2 ^ 48" using unsigned_less [of "tlb_table st i"] by simp
  then have pg: "unat (tlb_page st i) < 2 ^ 48" by (simp add: tlb_page_def unat_ucast_mod)
  have o: "unat (of_nat off :: u64) = off" using assms(2) by (simp add: unat_of_nat)
  have a: "unat (tlb_page st i + of_nat off) = unat (tlb_page st i) + off"
    using pg o assms(2) by (simp add: unat_word_ariths)
  have l: "unat (ucast (cmd_len cmd) :: 28 word) = unat (cmd_len cmd)" using assms(4) by (simp add: unat_ucast_mod)
  show ?thesis
    using assms(1,4) sp a l o by (simp add: tlb_translate_def Let_def assms(3) tlb_page_def)
qed

theorem tlb_transfer_stays_in_page_witness:
  "\<exists>st' dma m. tlb_translate (tlb_init\<lparr>base_vaddr := 0x7f59dd400000, tlb_table := (\<lambda>_. 0)(2 := 0x40000000)\<rparr>)
      \<lparr>cmd_addr = page_addr 0x7f59dd400000 2 0x1000, cmd_len = 0x1FF000\<rparr> 0 0 = Inr (st', dma, m, 0) \<and>
    unat (dma_addr dma) = 0x40001000 \<and> unat (dma_len dma) = 0x1FF000"
  using tlb_transfer_stays_in_page [where i = 2 and off = "0x1000" and rm = 0 and rc = 0 and
      cmd = "\<lparr>cmd_addr = page_addr 0x7f59dd400000 2 0x1000, cmd_len = 0x1FF000\<rparr>" and
      st = "tlb_init\<lparr>base_vaddr := 0x7f59dd400000, tlb_table := (\<lambda>_. 0)(2 := 0x40000000)\<rparr>"]
  by (auto simp: tlb_page_def)

lemma tlb_translate_counters:
  assumes "i < 16384" and "off < page_bytes" and "cmd_addr cmd = page_addr (base_vaddr st) i off"
  shows "\<exists>st' dma m c. tlb_translate st cmd rm rc = Inr (st', dma, m, c) \<and>
    tlbMissCounter st' = tlbMissCounter st + (if unat (top_page_base st) < i then 1 else 0) \<and>
    tlbPageCrossingCounter st' = tlbPageCrossingCounter st + (if page_bytes < off + unat (cmd_len cmd) then 1 else 0)"
  using assms(1,2) page_addr_split [OF assms(1,2), of "base_vaddr st"]
  by (simp add: tlb_translate_def Let_def assms(3) unat_of_nat)

lemma tlb_region_state:
  assumes "no_commands io" and "s_axis_tlb_interface io = region_mappings base ps" and "ps \<noteq> []" and "length ps \<le> 16384"
    and "tlb_calls (length ps) st io = Inr (st', io')"
  shows "st' = tlb_fill (st\<lparr>base_vaddr := base\<rparr>) ps (length ps)" and "base_vaddr st' = base"
    and "unat (top_page_base st') = max (unat (top_page_base st)) (length ps - 1)"
proof -
  show st': "st' = tlb_fill (st\<lparr>base_vaddr := base\<rparr>) ps (length ps)"
    using tlb_region_prefix [OF assms(1,2,4) order_refl, of st] assms(3,5) by simp
  show "base_vaddr st' = base" "unat (top_page_base st') = max (unat (top_page_base st)) (length ps - 1)"
    using tlb_fill_frame [OF assms(4), of "st\<lparr>base_vaddr := base\<rparr>" ps] by (simp_all add: st')
qed

text \<open>After the mappings of a first region of \<open>n\<close> pages, the miss counter advances exactly
  on commands to a page of index \<open>n\<close> or more, and the page-crossing counter exactly on commands
  that reach beyond the end of their page.\<close>

theorem tlb_counts_exactly:
  assumes "no_commands io" and "s_axis_tlb_interface io = region_mappings base ps" and "ps \<noteq> []" and "length ps \<le> 16384"
    and "tlb_calls (length ps) tlb_init io = Inr (st, io')"
    and "i < 16384" and "off < page_bytes" and "cmd_addr cmd = page_addr base i off"
  shows "\<exists>st' dma m c. tlb_translate st cmd rm rc = Inr (st', dma, m, c) \<and>
    tlbMissCounter st' = tlbMissCounter st + (if length ps \<le> i then 1 else 0) \<and>
    tlbPageCrossingCounter st' = tlbPageCrossingCounter st + (if page_bytes < off + unat (cmd_len cmd) then 1 else 0)"
proof -
  note st = tlb_region_state [OF assms(1-5)]
  have "unat (top_page_base st) < i \<longleftrightarrow> length ps \<le> i" using assms(3) by (cases ps) (auto simp: st(3) tlb_init_def)
  with tlb_translate_counters [OF assms(6,7), of cmd st rm rc] assms(8) st(2) show ?thesis by simp
qed

theorem tlb_counts_exactly_witness:
  "\<exists>st io' st' dma m c. tlb_calls 2 tlb_init example_io = Inr (st, io') \<and>
     tlb_translate st \<lparr>cmd_addr = page_addr 0xAABBCC00 2 0x1FFFF0, cmd_len = 0x20\<rparr> 0 0 = Inr (st', dma, m, c) \<and>
     tlbMissCounter st' = tlbMissCounter st + 1 \<and> tlbPageCrossingCounter st' = tlbPageCrossingCounter st + 1"
proof -
  have io: "no_commands example_io" "s_axis_tlb_interface example_io = region_mappings 0xAABBCC00 [0xC0000, 0xD0000]"
    "[0xC0000, 0xD0000 :: u64] \<noteq> []" "length [0xC0000, 0xD0000 :: u64] \<le> 16384"
    by (simp_all add: example_io_def no_commands_def)
  have l: "length [0xC0000 :: u64, 0xD0000] = 2" by simp
  obtain st io' where st: "tlb_calls (length [0xC0000, 0xD0000 :: u64]) tlb_init example_io = Inr (st, io')"
    using tlb_region_prefix [OF io(1,2,4) order_refl, of tlb_init] by blast
  from tlb_counts_exactly [OF io st, of 2 "0x1FFFF0" "\<lparr>cmd_addr = page_addr 0xAABBCC00 2 0x1FFFF0, cmd_len = 0x20\<rparr>" 0 0]
    st [unfolded l] show ?thesis by auto
qed

text \<open>Setting a new base does not clear the table: after a region of \<open>length ps\<close> pages and
  then a smaller one at another base, an address behind the new region is still translated to the
  page of the old region with the same index, and the access is not counted as a miss.\<close>

theorem tlb_rebase_keeps_stale_pages:
  assumes "length ps \<le> 16384" and "\<forall>p \<in> set ps. unat p < 2 ^ 48" and "\<forall>p \<in> set qs. unat p < 2 ^ 48" and "qs \<noteq> []"
    and "no_commands io1" and "s_axis_tlb_interface io1 = region_mappings base1 ps"
    and "tlb_calls (length ps) tlb_init io1 = Inr (st1, io1')"
    and "no_commands io2" and "s_axis_tlb_interface io2 = region_mappings base2 qs"
    and "tlb_calls (length qs) st1 io2 = Inr (st2, io2')"
    and "length qs \<le> i" and "i < length ps" and "off < page_bytes" and "cmd_addr cmd = page_addr base2 i off"
  shows "translation st2 (page_addr base2 i off) = Some (ps ! i + of_nat off) \<and>
    (\<exists>st' dma m c. tlb_translate st2 cmd rm rc = Inr (st', dma, m, c) \<and> tlbMissCounter st' = tlbMissCounter st2)"
proof -
  have ne: "ps \<noteq> []" "length qs \<le> 16384" "i < 16384" using assms(1,11,12) by auto
  note st1 = tlb_region_state [OF assms(5,6) ne(1) assms(1,7)] and st2 = tlb_region_state [OF assms(8,9,4) ne(2) assms(10)]
  have "tlb_page st1 i = ps ! i"
    using tlbt.page_after_fill [of "length ps" "(!) ps" "tlb_init\<lparr>base_vaddr := base1\<rparr>" i] assms(1,2,12)
    by (simp add: st1(1) tlb_fill_def del: power_numeral)
  moreover have "tlb_page (st1\<lparr>base_vaddr := base2\<rparr>) i = tlb_page st1 i" by (simp add: tlb_page_def)
  moreover have "tlb_page st2 i = tlb_page (st1\<lparr>base_vaddr := base2\<rparr>) i"
    using tlbt.page_after_fill [of "length qs" "(!) qs" "st1\<lparr>base_vaddr := base2\<rparr>" i] ne(2) assms(3,11)
    by (simp add: st2(1) tlb_fill_def del: power_numeral)
  ultimately have "translation st2 (page_addr base2 i off) = Some (ps ! i + of_nat off)"
    using translation_page [OF ne(3) assms(13), of st2] by (simp add: st2(2))
  moreover have "\<not> unat (top_page_base st2) < i" using assms(12) by (auto simp: st2(3) st1(3))
  ultimately show ?thesis
    using tlb_translate_counters [OF ne(3) assms(13), of cmd st2 rm rc] assms(14) by (fastforce simp: st2(2))
qed

definition example_rebase_io :: tlb_io where
  "example_rebase_io = example_io\<lparr>s_axis_tlb_interface := region_mappings 0x11000000 [0xE0000]\<rparr>"

theorem tlb_rebase_keeps_stale_pages_witness:
  "\<exists>st1 st2. tlb_calls 2 tlb_init example_io = Inr (st1, example_io\<lparr>s_axis_tlb_interface := []\<rparr>) \<and>
     tlb_calls 1 st1 example_rebase_io = Inr (st2, example_rebase_io\<lparr>s_axis_tlb_interface := []\<rparr>) \<and>
     translation st2 (page_addr 0x11000000 1 0x10) = Some 0xD0010"
proof -
  have io: "no_commands example_io" "s_axis_tlb_interface example_io = region_mappings 0xAABBCC00 [0xC0000, 0xD0000]"
    "no_commands example_rebase_io" "s_axis_tlb_interface example_rebase_io = region_mappings 0x11000000 [0xE0000]"
    by (simp_all add: example_io_def example_rebase_io_def no_commands_def)
  have l: "length [0xC0000 :: u64, 0xD0000] = 2" "length [0xE0000 :: u64] = 1" by simp_all
  have len: "length [0xC0000 :: u64, 0xD0000] \<le> 16384" "length [0xE0000 :: u64] \<le> 16384" by simp_all
  obtain st1 where st1: "tlb_calls (length [0xC0000 :: u64, 0xD0000]) tlb_init example_io =
      Inr (st1, example_io\<lparr>s_axis_tlb_interface := []\<rparr>)"
    using tlb_region_prefix [OF io(1,2) len(1) order_refl, of tlb_init] by (simp add: region_mappings_def)
  obtain st2 where st2: "tlb_calls (length [0xE0000 :: u64]) st1 example_rebase_io =
      Inr (st2, example_rebase_io\<lparr>s_axis_tlb_interface := []\<rparr>)"
    using tlb_region_prefix [OF io(3,4) len(2) order_refl, of st1] by (simp add: region_mappings_def)
  from tlb_rebase_keeps_stale_pages [OF len(1) _ _ _ io(1,2) st1 io(3,4) st2, of 1 "0x10" "\<lparr>cmd_addr = page_addr 0x11000000 1 0x10, cmd_len = 1\<rparr>"]
  have "translation st2 (page_addr 0x11000000 1 0x10) = Some 0xD0010" by simp
  with st1 st2 show ?thesis unfolding l by blast
qed

end
