(* ===== verification/Page_Boundary.thy ===== *)
theory Page_Boundary
  imports Axi_Realign Mem_Utils
begin

text \<open>
  \<^verbatim>\<open>hls/mem_write_cmd_page_boundary_check_512\<close>: splits a memory write command that crosses a
  2 MB page into two, and the data packet that belongs to it at the same byte.

  \<^item> \<open>calculate_page_offset\<close>, \<open>boundary_check\<close> and \<open>pkg_split\<close> are the three dataflow
    processes, one call each; \<open>mem_write_cmd_page_boundary_check_512\<close> is one call of the
    top-level function, which calls the three in order over two internal FIFOs.
  \<^item> The FIFOs have the depths of the pragmas, 2 and 4. A process whose write would find its FIFO
    full is blocked: it makes no call until the reader has made room. A command therefore waits when
    the four commands before it have been written and their data has not arrived.
  \<^item> The streams \<open>cmdOut\<close> and \<open>dataOut\<close> are ports of the module; what is written waits there for the next module.
  \<^item> The local \<open>sendWord\<close> of \<open>pkg_split\<close> is uninitialised in the source and is the
    argument \<open>uninit\<close> here.

  The lemmas show that the commands written cover exactly the addresses of the command read, in
  order, that none of them crosses a page as long as the command spans at most two pages, that
  the data words written carry the first and the second part of the packet, that the whole
  pipeline does both for every sequence of commands and packets on which splits fall on a
  multiple of eight bytes, never ending in a state in which the full FIFOs block each other, and
  that without data no command after the fourth is written.
\<close>

section \<open>Data\<close>

definition PAGE_SIZE :: u64 where
  "PAGE_SIZE = 2 * 1024 * 1024"

record internalCmd =
  ic_addr :: u64
  ic_len :: u32
  ic_page_offset :: u48

record boundCheckMeta =
  meta_length :: u32
  meta_isSplit :: bool

type_synonym word512 = "(512, 64) axis"

section \<open>Commands\<close>

definition calculate_page_offset :: "u48 \<Rightarrow> (unit, memCmd, internalCmd) process" where
  "calculate_page_offset regBaseVaddr st cmdIn =
     (case cmdIn of
        [] \<Rightarrow> (st, [], [])
      | cmd # rest \<Rightarrow>
          let addr = (ucast (cmd_addr cmd - ucast regBaseVaddr) :: u48);
              page_offset = addr AND 0x1FFFFF
          in (st, rest, [\<lparr>ic_addr = cmd_addr cmd, ic_len = cmd_len cmd, ic_page_offset = page_offset\<rparr>]))"

datatype bcStateType = CMD | CMD_SPLIT

record bc_static =
  bc_state :: bcStateType
  bc_cmd :: internalCmd
  bc_newLength :: u32

text \<open>The sum of the 48-bit offset and the 32-bit length is computed at 49 bits and does not wrap.
  The output pairs the two streams: what this call writes to \<open>cmdOut\<close> and to \<open>metaOut\<close>.\<close>

definition boundary_check ::
  "bc_static \<Rightarrow> internalCmd list \<Rightarrow> bc_static \<times> internalCmd list \<times> memCmd list \<times> boundCheckMeta list" where
  "boundary_check st cmdIn =
     (case bc_state st of
        CMD \<Rightarrow>
          (case cmdIn of
             [] \<Rightarrow> (st, [], [], [])
           | cmd # rest \<Rightarrow>
               if unat PAGE_SIZE < unat (ic_page_offset cmd) + unat (ic_len cmd) then
                 let newLength = (ucast (PAGE_SIZE - ucast (ic_page_offset cmd)) :: u32)
                 in (st\<lparr>bc_cmd := cmd\<lparr>ic_addr := ic_addr cmd + ucast newLength, ic_len := ic_len cmd - newLength\<rparr>,
                        bc_newLength := newLength, bc_state := CMD_SPLIT\<rparr>,
                     rest, [\<lparr>cmd_addr = ic_addr cmd, cmd_len = newLength\<rparr>],
                     [\<lparr>meta_length = newLength, meta_isSplit = True\<rparr>])
               else
                 (st\<lparr>bc_cmd := cmd\<rparr>, rest, [\<lparr>cmd_addr = ic_addr cmd, cmd_len = ic_len cmd\<rparr>],
                  [\<lparr>meta_length = ic_len cmd, meta_isSplit = False\<rparr>]))
      | CMD_SPLIT \<Rightarrow>
          (st\<lparr>bc_state := CMD\<rparr>, cmdIn, [\<lparr>cmd_addr = ic_addr (bc_cmd st), cmd_len = ic_len (bc_cmd st)\<rparr>], []))"

section \<open>Data packets\<close>

datatype pbcStateType = PKG_FIRST | PKG_SECOND | LAST

record pkg_static =
  pbc_state :: pbcStateType
  pkg_meta :: boundCheckMeta
  metaLoaded :: bool
  pkg_prevWord :: word512

text \<open>The switch of the state \<open>PKG_FIRST\<close> on the remaining length.\<close>

definition first_keep :: "nat \<Rightarrow> 64 word \<Rightarrow> 64 word" where
  "first_keep n keep =
          (if n = 56 then 0xFFFFFFFFFFFFFF
           else if n = 48 then 0xFFFFFFFFFFFF
           else if n = 40 then 0xFFFFFFFFFF
           else if n = 32 then 0xFFFFFFFF
           else if n = 24 then 0xFFFFFF
           else if n = 16 then 0xFFFF
           else if n = 8 then 0xFF
           else keep)"

text \<open>The switches of the states \<open>PKG_SECOND\<close> and \<open>LAST\<close>.\<close>

definition second_word :: "nat \<Rightarrow> word512 \<Rightarrow> word512 \<Rightarrow> word512 \<Rightarrow> word512" where
  "second_word n sendWord prevWord currWord =
     (if n = 56 then sendWord\<lparr>
              axis_data := range_set 511 64 (range_get 447 0 (axis_data currWord) :: 512 word)
                (range_set 63 0 (range_get 511 448 (axis_data prevWord) :: 512 word) (axis_data sendWord)),
              axis_keep := range_set 63 8 (range_get 55 0 (axis_keep currWord) :: 64 word)
                (range_set 7 0 (range_get 63 56 (axis_keep prevWord) :: 64 word) (axis_keep sendWord)),
              axis_last := (\<not> bit (axis_keep currWord) 56)\<rparr>
      else if n = 48 then sendWord\<lparr>
              axis_data := range_set 511 128 (range_get 383 0 (axis_data currWord) :: 512 word)
                (range_set 127 0 (range_get 511 384 (axis_data prevWord) :: 512 word) (axis_data sendWord)),
              axis_keep := range_set 63 16 (range_get 47 0 (axis_keep currWord) :: 64 word)
                (range_set 15 0 (range_get 63 48 (axis_keep prevWord) :: 64 word) (axis_keep sendWord)),
              axis_last := (\<not> bit (axis_keep currWord) 48)\<rparr>
      else if n = 40 then sendWord\<lparr>
              axis_data := range_set 511 192 (range_get 319 0 (axis_data currWord) :: 512 word)
                (range_set 191 0 (range_get 511 320 (axis_data prevWord) :: 512 word) (axis_data sendWord)),
              axis_keep := range_set 63 24 (range_get 39 0 (axis_keep currWord) :: 64 word)
                (range_set 23 0 (range_get 63 40 (axis_keep prevWord) :: 64 word) (axis_keep sendWord)),
              axis_last := (\<not> bit (axis_keep currWord) 40)\<rparr>
      else if n = 32 then sendWord\<lparr>
              axis_data := range_set 511 256 (range_get 255 0 (axis_data currWord) :: 512 word)
                (range_set 255 0 (range_get 511 256 (axis_data prevWord) :: 512 word) (axis_data sendWord)),
              axis_keep := range_set 63 32 (range_get 31 0 (axis_keep currWord) :: 64 word)
                (range_set 31 0 (range_get 63 32 (axis_keep prevWord) :: 64 word) (axis_keep sendWord)),
              axis_last := (\<not> bit (axis_keep currWord) 32)\<rparr>
      else if n = 24 then sendWord\<lparr>
              axis_data := range_set 511 320 (range_get 191 0 (axis_data currWord) :: 512 word)
                (range_set 319 0 (range_get 511 192 (axis_data prevWord) :: 512 word) (axis_data sendWord)),
              axis_keep := range_set 63 40 (range_get 23 0 (axis_keep currWord) :: 64 word)
                (range_set 39 0 (range_get 63 24 (axis_keep prevWord) :: 64 word) (axis_keep sendWord)),
              axis_last := (\<not> bit (axis_keep currWord) 24)\<rparr>
      else if n = 16 then sendWord\<lparr>
              axis_data := range_set 511 384 (range_get 127 0 (axis_data currWord) :: 512 word)
                (range_set 383 0 (range_get 511 128 (axis_data prevWord) :: 512 word) (axis_data sendWord)),
              axis_keep := range_set 63 48 (range_get 15 0 (axis_keep currWord) :: 64 word)
                (range_set 47 0 (range_get 63 16 (axis_keep prevWord) :: 64 word) (axis_keep sendWord)),
              axis_last := (\<not> bit (axis_keep currWord) 16)\<rparr>
      else if n = 8 then sendWord\<lparr>
              axis_data := range_set 511 448 (range_get 63 0 (axis_data currWord) :: 512 word)
                (range_set 447 0 (range_get 511 64 (axis_data prevWord) :: 512 word) (axis_data sendWord)),
              axis_keep := range_set 63 56 (range_get 7 0 (axis_keep currWord) :: 64 word)
                (range_set 55 0 (range_get 63 8 (axis_keep prevWord) :: 64 word) (axis_keep sendWord)),
              axis_last := (\<not> bit (axis_keep currWord) 8)\<rparr>
      else currWord)"

definition last_word :: "nat \<Rightarrow> word512 \<Rightarrow> word512 \<Rightarrow> word512" where
  "last_word n sendWord prevWord =
     (if n = 56 then sendWord\<lparr>
              axis_data := range_set 511 64 (0 :: 512 word)
                (range_set 63 0 (range_get 511 448 (axis_data prevWord) :: 512 word) (axis_data sendWord)),
              axis_keep := range_set 63 8 (0 :: 64 word)
                (range_set 7 0 (range_get 63 56 (axis_keep prevWord) :: 64 word) (axis_keep sendWord))\<rparr>
      else if n = 48 then sendWord\<lparr>
              axis_data := range_set 511 128 (0 :: 512 word)
                (range_set 127 0 (range_get 511 384 (axis_data prevWord) :: 512 word) (axis_data sendWord)),
              axis_keep := range_set 63 16 (0 :: 64 word)
                (range_set 15 0 (range_get 63 48 (axis_keep prevWord) :: 64 word) (axis_keep sendWord))\<rparr>
      else if n = 40 then sendWord\<lparr>
              axis_data := range_set 511 192 (0 :: 512 word)
                (range_set 191 0 (range_get 511 320 (axis_data prevWord) :: 512 word) (axis_data sendWord)),
              axis_keep := range_set 63 24 (0 :: 64 word)
                (range_set 23 0 (range_get 63 40 (axis_keep prevWord) :: 64 word) (axis_keep sendWord))\<rparr>
      else if n = 32 then sendWord\<lparr>
              axis_data := range_set 511 256 (0 :: 512 word)
                (range_set 255 0 (range_get 511 256 (axis_data prevWord) :: 512 word) (axis_data sendWord)),
              axis_keep := range_set 63 32 (0 :: 64 word)
                (range_set 31 0 (range_get 63 32 (axis_keep prevWord) :: 64 word) (axis_keep sendWord))\<rparr>
      else if n = 24 then sendWord\<lparr>
              axis_data := range_set 511 320 (0 :: 512 word)
                (range_set 319 0 (range_get 511 192 (axis_data prevWord) :: 512 word) (axis_data sendWord)),
              axis_keep := range_set 63 40 (0 :: 64 word)
                (range_set 39 0 (range_get 63 24 (axis_keep prevWord) :: 64 word) (axis_keep sendWord))\<rparr>
      else if n = 16 then sendWord\<lparr>
              axis_data := range_set 511 384 (0 :: 512 word)
                (range_set 383 0 (range_get 511 128 (axis_data prevWord) :: 512 word) (axis_data sendWord)),
              axis_keep := range_set 63 48 (0 :: 64 word)
                (range_set 47 0 (range_get 63 16 (axis_keep prevWord) :: 64 word) (axis_keep sendWord))\<rparr>
      else if n = 8 then sendWord\<lparr>
              axis_data := range_set 511 448 (0 :: 512 word)
                (range_set 447 0 (range_get 511 64 (axis_data prevWord) :: 512 word) (axis_data sendWord)),
              axis_keep := range_set 63 56 (0 :: 64 word)
                (range_set 55 0 (range_get 63 8 (axis_keep prevWord) :: 64 word) (axis_keep sendWord))\<rparr>
      else sendWord)"

definition pkg_split ::
  "word512 \<Rightarrow> pkg_static \<Rightarrow> boundCheckMeta list \<Rightarrow> word512 list \<Rightarrow>
     pkg_static \<times> boundCheckMeta list \<times> word512 list \<times> word512 list" where
  "pkg_split uninit st metaIn dataIn =
     (case pbc_state st of
        PKG_FIRST \<Rightarrow>
          (if dataIn \<noteq> [] \<and> (metaIn \<noteq> [] \<or> metaLoaded st) then
             let (meta, metaIn') = (if \<not> metaLoaded st then (hd metaIn, tl metaIn) else (pkg_meta st, metaIn));
                 currWord = hd dataIn;
                 sendWord = uninit\<lparr>axis_data := axis_data currWord, axis_keep := axis_keep currWord, axis_last := False\<rparr>;
                 sendWord = (if meta_length meta \<le> 64
                             then sendWord\<lparr>axis_keep := first_keep (unat (meta_length meta)) (axis_keep sendWord), axis_last := True\<rparr>
                             else sendWord);
                 st = st\<lparr>pkg_meta := meta, metaLoaded := True,
                         pkg_prevWord := (pkg_prevWord st)\<lparr>axis_data := axis_data currWord, axis_keep := axis_keep currWord\<rparr>\<rparr>;
                 st = (if meta_length meta > 64 then st\<lparr>pkg_meta := meta\<lparr>meta_length := meta_length meta - 64\<rparr>\<rparr>
                       else if \<not> meta_isSplit meta then st\<lparr>metaLoaded := False\<rparr>
                       else if axis_last currWord then st\<lparr>pbc_state := LAST\<rparr>
                       else st\<lparr>pbc_state := PKG_SECOND\<rparr>)
             in (st, metaIn', tl dataIn, [sendWord])
           else (st, metaIn, dataIn, []))
      | PKG_SECOND \<Rightarrow>
          (case dataIn of
             [] \<Rightarrow> (st, metaIn, [], [])
           | currWord # rest \<Rightarrow>
               let sendWord = second_word (unat (meta_length (pkg_meta st))) uninit (pkg_prevWord st) currWord;
                   st = st\<lparr>pkg_prevWord := (pkg_prevWord st)\<lparr>axis_data := axis_data currWord, axis_keep := axis_keep currWord\<rparr>\<rparr>;
                   st = (if axis_last sendWord then st\<lparr>metaLoaded := False, pbc_state := PKG_FIRST\<rparr>
                         else if axis_last currWord then st\<lparr>pbc_state := LAST\<rparr> else st)
               in (st, metaIn, rest, [sendWord]))
      | LAST \<Rightarrow>
          (st\<lparr>metaLoaded := False, pbc_state := PKG_FIRST\<rparr>, metaIn, dataIn,
           [(last_word (unat (meta_length (pkg_meta st))) uninit (pkg_prevWord st))\<lparr>axis_last := True\<rparr>]))"

section \<open>The whole module\<close>

record mwc_state =
  mwc_pageOffsetFifo :: "internalCmd list"
  mwc_metaFifo :: "boundCheckMeta list"
  mwc_bc :: bc_static
  mwc_pkg :: pkg_static

record mwc_io =
  mwc_cmdIn :: "memCmd list"
  mwc_dataIn :: "word512 list"
  mwc_cmdOut :: "memCmd list"
  mwc_dataOut :: "word512 list"

definition pageOffsetFifo_depth :: nat where
  "pageOffsetFifo_depth = 2"

definition metaFifo_depth :: nat where
  "metaFifo_depth = 4"

text \<open>The calls of the two writers. \<open>boundary_check\<close> writes to \<open>metaOut\<close> only in the state \<open>CMD\<close>, in the
  same call as the command, so that a full FIFO holds both back.\<close>

definition page_offset_stage :: "u48 \<Rightarrow> mwc_state \<Rightarrow> memCmd list \<Rightarrow> memCmd list \<times> internalCmd list" where
  "page_offset_stage regBaseVaddr st cmdIn =
     (if length (mwc_pageOffsetFifo st) < pageOffsetFifo_depth
      then snd (calculate_page_offset regBaseVaddr () cmdIn) else (cmdIn, []))"

definition bc_blocked :: "mwc_state \<Rightarrow> bool" where
  "bc_blocked st \<longleftrightarrow> bc_state (mwc_bc st) = CMD \<and> metaFifo_depth \<le> length (mwc_metaFifo st)"

definition boundary_check_stage ::
  "mwc_state \<Rightarrow> internalCmd list \<Rightarrow> bc_static \<times> internalCmd list \<times> memCmd list \<times> boundCheckMeta list" where
  "boundary_check_stage st cmdIn = (if bc_blocked st then (mwc_bc st, cmdIn, [], []) else boundary_check (mwc_bc st) cmdIn)"

definition mem_write_cmd_page_boundary_check_512 ::
  "word512 \<Rightarrow> u48 \<Rightarrow> mwc_state \<times> mwc_io \<Rightarrow> mwc_state \<times> mwc_io" where
  "mem_write_cmd_page_boundary_check_512 uninit regBaseVaddr c =
     (let (st, io) = c;
          (cmdIn, ics) = page_offset_stage regBaseVaddr st (mwc_cmdIn io);
          (bc, pageOffsetFifo, cmds, metas) = boundary_check_stage st (mwc_pageOffsetFifo st @ ics);
          (pkg, metaFifo, dataIn, words) = pkg_split uninit (mwc_pkg st) (mwc_metaFifo st @ metas) (mwc_dataIn io)
      in (\<lparr>mwc_pageOffsetFifo = pageOffsetFifo, mwc_metaFifo = metaFifo, mwc_bc = bc, mwc_pkg = pkg\<rparr>,
          \<lparr>mwc_cmdIn = cmdIn, mwc_dataIn = dataIn, mwc_cmdOut = mwc_cmdOut io @ cmds, mwc_dataOut = mwc_dataOut io @ words\<rparr>))"

text \<open>The static variables before the first call; those without initialiser are arguments.\<close>

definition mwc_init :: "internalCmd \<Rightarrow> u32 \<Rightarrow> boundCheckMeta \<Rightarrow> word512 \<Rightarrow> mwc_state" where
  "mwc_init cmd newLength meta w =
     \<lparr>mwc_pageOffsetFifo = [], mwc_metaFifo = [],
      mwc_bc = \<lparr>bc_state = CMD, bc_cmd = cmd, bc_newLength = newLength\<rparr>,
      mwc_pkg = \<lparr>pbc_state = PKG_FIRST, pkg_meta = meta, metaLoaded = False, pkg_prevWord = w\<rparr>\<rparr>"

section \<open>What the module promises\<close>

text \<open>The offset of a command in its page, whether the command crosses the page, and where.\<close>

definition cmd_offset :: "u48 \<Rightarrow> memCmd \<Rightarrow> nat" where
  "cmd_offset base cmd = unat (cmd_addr cmd - ucast base) mod page_bytes"

definition crosses :: "u48 \<Rightarrow> memCmd \<Rightarrow> bool" where
  "crosses base cmd \<longleftrightarrow> page_bytes < cmd_offset base cmd + unat (cmd_len cmd)"

definition split_point :: "u48 \<Rightarrow> memCmd \<Rightarrow> nat" where
  "split_point base cmd = page_bytes - cmd_offset base cmd"

definition split_cmd :: "u48 \<Rightarrow> memCmd \<Rightarrow> memCmd list" where
  "split_cmd base cmd =
     (if crosses base cmd
      then [\<lparr>cmd_addr = cmd_addr cmd, cmd_len = of_nat (split_point base cmd)\<rparr>,
            \<lparr>cmd_addr = cmd_addr cmd + of_nat (split_point base cmd), cmd_len = cmd_len cmd - of_nat (split_point base cmd)\<rparr>]
      else [cmd])"

definition split_packet :: "u48 \<Rightarrow> memCmd \<Rightarrow> u8 list \<Rightarrow> u8 list list" where
  "split_packet base cmd bs =
     (if crosses base cmd then [take (split_point base cmd) bs, drop (split_point base cmd) bs] else [bs])"

definition cmd_meta :: "u48 \<Rightarrow> memCmd \<Rightarrow> boundCheckMeta" where
  "cmd_meta base cmd =
     (if crosses base cmd then \<lparr>meta_length = of_nat (split_point base cmd), meta_isSplit = True\<rparr>
      else \<lparr>meta_length = cmd_len cmd, meta_isSplit = False\<rparr>)"

text \<open>The byte addresses a command writes, in order.\<close>

definition cmd_addrs :: "memCmd \<Rightarrow> u64 list" where
  "cmd_addrs cmd = map (\<lambda>i. cmd_addr cmd + of_nat i) [0..<unat (cmd_len cmd)]"

section \<open>Splitting commands\<close>

definition ic_of :: "u48 \<Rightarrow> memCmd \<Rightarrow> internalCmd" where
  "ic_of base cmd = \<lparr>ic_addr = cmd_addr cmd, ic_len = cmd_len cmd, ic_page_offset = of_nat (cmd_offset base cmd)\<rparr>"

lemma unat_PAGE_SIZE [simp]: "unat PAGE_SIZE = page_bytes"
  by (simp add: PAGE_SIZE_def)

lemma cmd_offset_less: "cmd_offset base cmd < page_bytes"
  by (simp add: cmd_offset_def)

lemma split_point_range: "0 < split_point base cmd" "split_point base cmd \<le> page_bytes"
  using cmd_offset_less [of base cmd] by (auto simp: split_point_def)

lemma unat_split_point [simp]:
  "unat (of_nat (split_point base cmd) :: u32) = split_point base cmd"
  "unat (of_nat (split_point base cmd) :: u64) = split_point base cmd"
  using split_point_range [of base cmd] by (simp_all add: unat_of_nat)

lemma crosses_split_point: "crosses base cmd \<longleftrightarrow> split_point base cmd < unat (cmd_len cmd)"
  using cmd_offset_less [of base cmd] by (auto simp: crosses_def split_point_def)

lemma calculate_page_offset_Cons:
  "calculate_page_offset base u (cmd # cmds) = (u, cmds, [ic_of base cmd])"
proof -
  have "unat ((ucast (cmd_addr cmd - ucast base) :: u48) AND 0x1FFFFF) = cmd_offset base cmd"
    by (simp only: unat_page_offset unat_ucast_mod cmd_offset_def) (simp add: mod_mod_cancel dvd_def)
  then have "(ucast (cmd_addr cmd - ucast base) :: u48) AND 0x1FFFFF = of_nat (cmd_offset base cmd)"
    by (metis of_nat_unat ucast_id)
  then show ?thesis by (simp add: calculate_page_offset_def ic_of_def)
qed

lemma calculate_page_offset_Nil: "calculate_page_offset base u [] = (u, [], [])"
  by (simp add: calculate_page_offset_def)

lemma new_length: "(ucast (PAGE_SIZE - ucast (of_nat (cmd_offset base cmd) :: u48)) :: u32) = of_nat (split_point base cmd)"
proof -
  have c: "unat (ucast (of_nat (cmd_offset base cmd) :: u48) :: u64) = cmd_offset base cmd"
    using cmd_offset_less [of base cmd] by (simp add: unat_ucast_mod unat_of_nat)
  then have "ucast (of_nat (cmd_offset base cmd) :: u48) \<le> PAGE_SIZE"
    using cmd_offset_less [of base cmd] by (simp add: word_le_nat_alt)
  then have "unat (PAGE_SIZE - ucast (of_nat (cmd_offset base cmd) :: u48)) = split_point base cmd"
    by (simp add: unat_sub c split_point_def)
  then show ?thesis
    using split_point_range [of base cmd] by (simp add: word_unat_eq_iff unat_ucast_mod)
qed

lemma boundary_check_CMD:
  assumes "bc_state st = CMD"
  shows "\<exists>st'. boundary_check st (ic_of base cmd # ics) = (st', ics, [hd (split_cmd base cmd)], [cmd_meta base cmd]) \<and>
    (if crosses base cmd then bc_state st' = CMD_SPLIT \<and>
       split_cmd base cmd = [hd (split_cmd base cmd), \<lparr>cmd_addr = ic_addr (bc_cmd st'), cmd_len = ic_len (bc_cmd st')\<rparr>]
     else bc_state st' = CMD \<and> split_cmd base cmd = [hd (split_cmd base cmd)])"
proof -
  have o: "unat (of_nat (cmd_offset base cmd) :: u48) = cmd_offset base cmd"
    using cmd_offset_less [of base cmd] by (simp add: unat_of_nat)
  have l: "(ucast (of_nat (split_point base cmd) :: u32) :: u64) = of_nat (split_point base cmd)"
    using split_point_range [of base cmd] by (simp add: word_unat_eq_iff unat_ucast_mod)
  have c: "page_bytes < unat (ic_page_offset (ic_of base cmd)) + unat (ic_len (ic_of base cmd)) \<longleftrightarrow> crosses base cmd"
    by (simp add: ic_of_def o crosses_def)
  show ?thesis
  proof (cases "crosses base cmd")
    case True
    with c assms show ?thesis
      by (simp add: boundary_check_def split_cmd_def cmd_meta_def Let_def) (simp add: ic_of_def new_length l)
  next
    case False
    with c assms show ?thesis
      by (simp add: boundary_check_def split_cmd_def cmd_meta_def Let_def) (simp add: ic_of_def)
  qed
qed

lemma boundary_check_idle: "bc_state st = CMD \<Longrightarrow> boundary_check st [] = (st, [], [], [])"
  by (simp add: boundary_check_def)

lemma boundary_check_CMD_SPLIT:
  "bc_state st = CMD_SPLIT \<Longrightarrow> boundary_check st ics =
     (st\<lparr>bc_state := CMD\<rparr>, ics, [\<lparr>cmd_addr = ic_addr (bc_cmd st), cmd_len = ic_len (bc_cmd st)\<rparr>], [])"
  by (simp add: boundary_check_def)

text \<open>The commands a command is split into write the same bytes, in the same order, and stay
  within a page each as long as the command reaches into no third page.\<close>

lemma cmd_addrs_split: "concat (map cmd_addrs (split_cmd base cmd)) = cmd_addrs cmd"
proof (cases "crosses base cmd")
  case True
  let ?p = "split_point base cmd" and ?n = "unat (cmd_len cmd)"
  from True have p: "?p < ?n" by (simp add: crosses_split_point)
  then have "of_nat ?p \<le> cmd_len cmd" by (simp add: word_le_nat_alt)
  then have l: "unat (cmd_len cmd - of_nat ?p) = ?n - ?p" by (simp add: unat_sub)
  have "[0..<?n] = [0..<?p] @ map (\<lambda>i. i + ?p) [0..<?n - ?p]"
    using p upt_add_eq_append [of 0 ?p "?n - ?p"] by (simp add: map_add_upt)
  then show ?thesis using True by (simp add: split_cmd_def cmd_addrs_def l algebra_simps)
next
  case False
  then show ?thesis by (simp add: split_cmd_def)
qed

lemma split_cmd_in_page:
  assumes "cmd_offset base cmd + unat (cmd_len cmd) \<le> 2 * page_bytes" and "c \<in> set (split_cmd base cmd)"
  shows "\<not> crosses base c"
proof (cases "crosses base cmd")
  case True
  let ?p = "split_point base cmd"
  have "of_nat ?p \<le> cmd_len cmd" using True by (simp add: word_le_nat_alt crosses_split_point)
  then have l: "unat (cmd_len cmd - of_nat ?p) = unat (cmd_len cmd) - ?p" by (simp add: unat_sub)
  let ?a = "cmd_addr cmd - ucast base :: u64"
  have "(unat ?a + ?p) mod page_bytes = 0"
    using cmd_offset_less [of base cmd] mod_add_left_eq [of "unat ?a" page_bytes ?p, symmetric]
    by (simp add: split_point_def cmd_offset_def)
  moreover have "unat (?a + of_nat ?p) = (unat ?a + ?p) mod 2 ^ 64"
    by (simp only: unat_word_ariths unat_split_point) simp
  moreover have "(x mod 2 ^ 64) mod page_bytes = x mod page_bytes" for x :: nat by (simp add: mod_mod_cancel dvd_def)
  ultimately have "unat (?a + of_nat ?p) mod page_bytes = 0" by simp
  then have "unat (cmd_addr cmd + of_nat ?p - ucast base) mod page_bytes = 0" by (simp add: algebra_simps)
  then have "cmd_offset base \<lparr>cmd_addr = cmd_addr cmd + of_nat ?p, cmd_len = n\<rparr> = 0" for n by (simp add: cmd_offset_def)
  moreover have "cmd_offset base \<lparr>cmd_addr = cmd_addr cmd, cmd_len = n\<rparr> = cmd_offset base cmd" for n
    by (simp add: cmd_offset_def)
  moreover have "cmd_offset base cmd + ?p = page_bytes" using cmd_offset_less [of base cmd] by (simp add: split_point_def)
  ultimately show ?thesis using True assms l by (auto simp: split_cmd_def crosses_def)
next
  case False
  then show ?thesis using assms by (simp add: split_cmd_def)
qed

section \<open>Splitting packets\<close>

text \<open>The literal cases of the three switches are one family of funnels.\<close>

lemma eight_cases: "8 dvd n \<Longrightarrow> 0 < n \<Longrightarrow> n < 64 \<Longrightarrow> n \<in> {8, 16, 24, 32, 40, 48, 56 :: nat}"
  by (auto elim!: dvdE)

lemma mask_64: "(mask 64 :: 64 word) = - 1"
  by (rule bit_word_eqI) (simp add: bit_simps)

lemma first_keep_mask: "8 dvd n \<Longrightarrow> 0 < n \<Longrightarrow> n < 64 \<Longrightarrow> first_keep n k = mask n"
  using eight_cases [of n] by (auto simp: first_keep_def mask_eq_exp_minus_1)

lemma first_keep_id: "first_keep n (mask n) = mask n" "\<not> 8 dvd n \<Longrightarrow> first_keep n k = k" "first_keep 64 k = k"
  by (auto simp: first_keep_def mask_eq_exp_minus_1)

lemma second_word_funnel:
  assumes "8 dvd n" and "0 < n" and "n < 64"
  shows "second_word n u p w =
    \<lparr>axis_data = funnel (8 * n) (axis_data p) (axis_data w), axis_keep = funnel n (axis_keep p) (axis_keep w),
     axis_last = (\<not> bit (axis_keep w) n)\<rparr>"
  using eight_cases [OF assms]
  by (cases u) (auto simp: second_word_def intro!: range_set_funnel)

lemma last_word_funnel:
  assumes "8 dvd n" and "0 < n" and "n < 64"
  shows "last_word n u p = u\<lparr>axis_data := funnel (8 * n) (axis_data p) 0, axis_keep := funnel n (axis_keep p) 0\<rparr>"
  using eight_cases [OF assms]
  by (cases u) (auto simp: last_word_def intro!: range_set_funnel_zero)

lemma second_word_default: "\<not> 8 dvd n \<or> n = 64 \<Longrightarrow> second_word n u p w = w"
  by (auto simp: second_word_def)

text \<open>\<open>pkg_split\<close> as a process on the data stream, with the metadata stream in its state.\<close>

definition pkg_view :: "word512 \<Rightarrow> (pkg_static \<times> boundCheckMeta list, word512, word512) process" where
  "pkg_view u c dataIn =
     (case pkg_split u (fst c) (snd c) dataIn of (st, metas, rest, out) \<Rightarrow> ((st, metas), rest, out))"

lemmas pkg_simps = pkg_view_def pkg_split_def Let_def

interpretation pkj: join_process "pkg_split u" for u
proof unfold_locales
  fix s xs ys s' xs' ys' out and us :: "boundCheckMeta list" and vs :: "word512 list"
  assume st: "pkg_split u s xs ys = (s', xs', ys', out)"
  show "(s' = s \<and> xs' = xs \<and> ys' = ys \<and> out = []) \<or> pkg_split u s (xs @ us) (ys @ vs) = (s', xs' @ us, ys' @ vs, out)"
  proof (cases ys)
    case Nil
    with st show ?thesis by (cases "pbc_state s") (auto simp: pkg_split_def)
  next
    case (Cons y ys0)
    show ?thesis
    proof (cases "pbc_state s = PKG_FIRST \<and> xs = [] \<and> \<not> metaLoaded s")
      case True
      with st show ?thesis by (simp add: pkg_split_def)
    next
      case False
      then have "pkg_split u s (xs @ us) ((y # ys0) @ vs) =
          (case pkg_split u s xs (y # ys0) of (s', xs', ys', out) \<Rightarrow> (s', xs' @ us, ys' @ vs, out))"
        by (cases "pbc_state s"; cases xs; cases "metaLoaded s") (simp_all add: pkg_split_def Let_def)
      with st Cons show ?thesis by simp
    qed
  qed
qed

interpretation pkp: hls_process "pkg_view u" for u
  by unfold_locales (auto simp: pkg_simps split: pbcStateType.splits if_splits list.splits)

text \<open>The phases of the process. \<open>ms\<close> is the metadata of the packets that follow.\<close>

definition pkg_ready :: "boundCheckMeta list \<Rightarrow> pkg_static \<times> boundCheckMeta list \<Rightarrow> bool" where
  "pkg_ready ms c \<longleftrightarrow> snd c = ms \<and> pbc_state (fst c) = PKG_FIRST \<and> \<not> metaLoaded (fst c)"

definition pkg_loaded :: "boundCheckMeta list \<Rightarrow> u32 \<Rightarrow> bool \<Rightarrow> pkg_static \<times> boundCheckMeta list \<Rightarrow> bool" where
  "pkg_loaded ms l sp c \<longleftrightarrow> pbc_state (fst c) = PKG_FIRST \<and>
     (if metaLoaded (fst c) then pkg_meta (fst c) = \<lparr>meta_length = l, meta_isSplit = sp\<rparr> \<and> snd c = ms
      else snd c = \<lparr>meta_length = l, meta_isSplit = sp\<rparr> # ms)"

definition pkg_second :: "pbcStateType \<Rightarrow> boundCheckMeta list \<Rightarrow> nat \<Rightarrow> pkg_static \<times> boundCheckMeta list \<Rightarrow> word512 \<Rightarrow> bool" where
  "pkg_second p ms k c v \<longleftrightarrow> snd c = ms \<and> pbc_state (fst c) = p \<and> unat (meta_length (pkg_meta (fst c))) = k \<and>
     8 dvd k \<and> 0 < k \<and> k < 64 \<and> axis_data (pkg_prevWord (fst c)) = axis_data v \<and> axis_keep (pkg_prevWord (fst c)) = axis_keep v"

interpretation pkr: realigner "pkg_view u" "pkg_second PKG_SECOND ms" "pkg_second LAST ms" "pkg_ready ms" for u ms
proof unfold_locales
  fix k c v and w :: word512 and ws and n :: nat
  assume h: "pkg_second PKG_SECOND ms k c v" and n: "axis_keep w = mask n" "n \<le> LENGTH(64)" and l: "axis_last w \<or> n = LENGTH(64)"
  have b: "(\<not> bit (axis_keep w) k) \<longleftrightarrow> n \<le> k" using h n by (auto simp: bit_simps pkg_second_def)
  have "second_word k u (pkg_prevWord (fst c)) w =
      \<lparr>axis_data = funnel (8 * k) (axis_data v) (axis_data w), axis_keep = funnel k (axis_keep v) (axis_keep w), axis_last = (n \<le> k)\<rparr>"
    using h by (simp add: pkg_second_def second_word_funnel flip: b)
  then show "\<exists>c' send. pkg_view u c (w # ws) = (c', ws, [send]) \<and>
        axis_data send = funnel (8 * k) (axis_data v) (axis_data w) \<and>
        axis_keep send = funnel k (axis_keep v) (axis_keep w) \<and> (axis_last send \<longleftrightarrow> n \<le> k) \<and>
        (if \<not> axis_last w then pkg_second PKG_SECOND ms k c' w else if n \<le> k then pkg_ready ms c' else pkg_second LAST ms k c' w)"
    using h l by (auto simp: pkg_second_def pkg_ready_def pkg_simps)
next
  fix k c v ws
  assume "pkg_second LAST ms k c v"
  then show "\<exists>c' send. pkg_view u c ws = (c', ws, [send]) \<and>
        axis_data send = funnel (8 * k) (axis_data v) 0 \<and> axis_keep send = funnel k (axis_keep v) 0 \<and>
        axis_last send \<and> pkg_ready ms c'"
    by (auto simp: pkg_second_def pkg_ready_def pkg_simps last_word_funnel)
qed (auto simp: pkg_second_def)

lemma pkg_load_step:
  assumes "pkg_loaded ms l sp c"
  shows "\<exists>c'. pkg_view u c (w # ws) =
      (c', ws, [\<lparr>axis_data = axis_data w,
                axis_keep = (if l \<le> 64 then first_keep (unat l) (axis_keep w) else axis_keep w), axis_last = (l \<le> 64)\<rparr>]) \<and>
    (if 64 < l then pkg_loaded ms (l - 64) sp c'
     else if \<not> sp then pkg_ready ms c'
     else snd c' = ms \<and> pbc_state (fst c') = (if axis_last w then LAST else PKG_SECOND) \<and> meta_length (pkg_meta (fst c')) = l \<and>
       axis_data (pkg_prevWord (fst c')) = axis_data w \<and> axis_keep (pkg_prevWord (fst c')) = axis_keep w)"
  using assms
  by (cases u; cases c; cases "metaLoaded (fst c)"; cases "l \<le> 64"; cases sp; cases "axis_last w")
     (simp_all add: pkg_loaded_def pkg_ready_def pkg_simps not_le [symmetric] del: not_le)

text \<open>A packet that belongs to one command passes unchanged.\<close>

lemma long_packet: "carries (w # ws) bs \<Longrightarrow> LENGTH('k) < length bs \<Longrightarrow> ws \<noteq> []"
  for w :: "('d::len word, 'k::len word, 'z) net_axis_scheme"
  by (cases ws) auto

lemma pkg_unsplit:
  "carries ws bs \<Longrightarrow> length bs = unat l \<Longrightarrow> pkg_loaded ms l False c \<Longrightarrow>
   \<exists>c'. drains (pkg_view u) c ws c' ws \<and> pkg_ready ms c'"
proof (induction ws bs arbitrary: l c rule: carries.induct)
  case (1 bs)
  then show ?case by simp
next
  case (2 w bs)
  then have l: "l \<le> 64" "unat l = length bs" "\<not> 64 < l" by (auto simp: word_le_nat_alt word_less_nat_alt)
  from 2 have w: "\<lparr>axis_data = axis_data w, axis_keep = first_keep (length bs) (axis_keep w), axis_last = True\<rparr> = w"
    by (auto simp: first_keep_id)
  from pkg_load_step [OF 2(3), of u w "[]"] w l obtain c' where
    "pkg_view u c [w] = (c', [], [w])" "pkg_ready ms c'" by auto
  with pkp.step_drains [OF _ drains_Nil] show ?case by fastforce
next
  case (3 w w' ws bs)
  then have l: "64 < l" "\<not> l \<le> 64" "unat (l - 64) = unat l - 64" by (auto simp: word_less_nat_alt word_le_nat_alt unat_sub)
  from 3(2) have w: "\<lparr>axis_data = axis_data w, axis_keep = axis_keep w, axis_last = False\<rparr> = w" by auto
  from pkg_load_step [OF 3(4), of u w "w' # ws"] w l obtain c1 where
    c1: "pkg_view u c (w # w' # ws) = (c1, w' # ws, [w])" "pkg_loaded ms (l - 64) False c1" by auto
  have "\<exists>c'. drains (pkg_view u) c1 (w' # ws) c' (w' # ws) \<and> pkg_ready ms c'"
    using 3(2,3) l c1(2) by (intro "3.IH" [of "l - 64"]) auto
  with pkp.step_drains [OF c1(1)] show ?case by fastforce
qed

text \<open>After a split at a word boundary, or at a byte that none of the cases handles, the words that
  follow pass unchanged.\<close>

lemma pkg_default_rest:
  "carries ws bs \<Longrightarrow> snd c = ms \<Longrightarrow> pbc_state (fst c) = PKG_SECOND \<Longrightarrow>
   \<not> 8 dvd unat (meta_length (pkg_meta (fst c))) \<or> unat (meta_length (pkg_meta (fst c))) = 64 \<Longrightarrow>
   \<exists>c'. drains (pkg_view u) c ws c' ws \<and> pkg_ready ms c'"
proof (induction ws bs arbitrary: c rule: carries.induct)
  case (2 w bs)
  then obtain c' where "pkg_view u c [w] = (c', [], [w])" "pkg_ready ms c'"
    by (auto simp: pkg_simps second_word_default pkg_ready_def)
  with pkp.step_drains [OF _ drains_Nil] show ?case by fastforce
next
  case (3 w w' ws bs)
  then obtain c1 where c1: "pkg_view u c (w # w' # ws) = (c1, w' # ws, [w])" "snd c1 = ms" "pbc_state (fst c1) = PKG_SECOND"
      "\<not> 8 dvd unat (meta_length (pkg_meta (fst c1))) \<or> unat (meta_length (pkg_meta (fst c1))) = 64"
    by (auto simp: pkg_simps second_word_default)
  have "\<exists>c'. drains (pkg_view u) c1 (w' # ws) c' (w' # ws) \<and> pkg_ready ms c'"
    using 3(2) c1 by (intro "3.IH") auto
  with pkp.step_drains [OF c1(1)] show ?case by fastforce
qed simp

text \<open>The word that ends the first part of a split packet.\<close>

lemma carries_cut:
  fixes w :: word512
  assumes "carries (w # ws) bs" and "0 < k" and "k \<le> 64" and "k < length bs"
  shows "carries [\<lparr>axis_data = axis_data w, axis_keep = mask k, axis_last = True\<rparr> :: word512] (take k bs)"
proof -
  have "take k (word_bytes (axis_data w)) = take k bs"
  proof (cases ws)
    case Nil
    with assms(1) have "take (length bs) (word_bytes (axis_data w)) = bs" by simp
    from arg_cong [OF this, of "take k"] assms(4) show ?thesis by (simp add: min_absorb1)
  next
    case (Cons w' ws')
    then show ?thesis using assms by (auto simp: take_take min_absorb1)
  qed
  then show ?thesis using assms by (simp add: min_absorb1 min_absorb2)
qed

lemma pkg_split_here:
  assumes ws: "carries (w # ws) bs" and l: "8 dvd unat l" "0 < unat l" "unat l \<le> 64" "unat l < length bs"
    and c: "pkg_loaded ms l True c"
  shows "\<exists>c' out1 out2. drains (pkg_view u) c (w # ws) c' (out1 @ out2) \<and> pkg_ready ms c' \<and>
    carries out1 (take (unat l) bs) \<and> carries out2 (drop (unat l) bs)"
proof -
  have le: "l \<le> 64" "\<not> 64 < l" using l(3) by (auto simp: word_le_nat_alt word_less_nat_alt)
  let ?v = "\<lparr>axis_data = axis_data w, axis_keep = first_keep (unat l) (axis_keep w), axis_last = True\<rparr>"
  from pkg_load_step [OF c, of u w ws] le obtain c1 where
    step: "pkg_view u c (w # ws) = (c1, ws, [?v])" and
    c1: "snd c1 = ms" "pbc_state (fst c1) = (if axis_last w then LAST else PKG_SECOND)" "meta_length (pkg_meta (fst c1)) = l"
      "axis_data (pkg_prevWord (fst c1)) = axis_data w" "axis_keep (pkg_prevWord (fst c1)) = axis_keep w" by auto
  have keep: "first_keep (unat l) (axis_keep w) = mask (unat l)"
  proof (cases "unat l = 64")
    case True
    moreover have "axis_keep w = - 1" using True l ws by (cases ws) auto
    ultimately show ?thesis by (simp add: first_keep_id mask_64)
  next
    case False
    with l show ?thesis by (simp add: first_keep_mask)
  qed
  have out1: "carries [?v] (take (unat l) bs)" unfolding keep by (rule carries_cut [OF ws l(2-4)])
  have "\<exists>c' out2. drains (pkg_view u) c1 ws c' out2 \<and> carries out2 (drop (unat l) bs) \<and> pkg_ready ms c'"
  proof (cases ws)
    case Nil
    then have w: "axis_last w" "carries [w] bs" "unat l < 64" using ws l by auto
    then have "pkg_second LAST ms (unat l) c1 w" using c1 l by (simp add: pkg_second_def)
    from pkr.flush_word [OF this w(2) l(4)] Nil show ?thesis by simp
  next
    case (Cons w' ws')
    then have w: "\<not> axis_last w" "axis_keep w = - 1" "word_bytes (axis_data w) = take 64 bs" "64 < length bs"
      "carries ws (drop 64 bs)" using ws by auto
    show ?thesis
    proof (cases "unat l = 64")
      case True
      with pkg_default_rest [OF w(5) c1(1), of u] c1 w show ?thesis by auto
    next
      case False
      then have "pkg_second PKG_SECOND ms (unat l) c1 w" using c1 l w by (simp add: pkg_second_def)
      from pkr.completes_packet [OF w(5) this w(2)] w(3,4) l(3) show ?thesis by (simp add: drop_take_append)
    qed
  qed
  with out1 pkp.step_drains [OF step] show ?thesis by fastforce
qed

lemma pkg_split_packet:
  "carries ws bs \<Longrightarrow> 8 dvd unat l \<Longrightarrow> 0 < unat l \<Longrightarrow> unat l < length bs \<Longrightarrow> pkg_loaded ms l True c \<Longrightarrow>
   \<exists>c' out1 out2. drains (pkg_view u) c ws c' (out1 @ out2) \<and> pkg_ready ms c' \<and>
     carries out1 (take (unat l) bs) \<and> carries out2 (drop (unat l) bs)"
proof (induction ws bs arbitrary: l c rule: carries.induct)
  case (1 bs)
  then show ?case by simp
next
  case (2 w bs)
  then show ?case by (intro pkg_split_here) auto
next
  case (3 w w' ws bs)
  show ?case
  proof (cases "unat l \<le> 64")
    case True
    with 3 show ?thesis by (intro pkg_split_here) auto
  next
    case False
    then have l: "64 < l" "\<not> l \<le> 64" "unat (l - 64) = unat l - 64" by (auto simp: word_less_nat_alt word_le_nat_alt unat_sub)
    from 3(2) have w: "\<lparr>axis_data = axis_data w, axis_keep = axis_keep w, axis_last = False\<rparr> = w" by auto
    from pkg_load_step [OF 3(6), of u w "w' # ws"] w l obtain c1 where
      c1: "pkg_view u c (w # w' # ws) = (c1, w' # ws, [w])" "pkg_loaded ms (l - 64) True c1" by auto
    have "\<exists>c' out1 out2. drains (pkg_view u) c1 (w' # ws) c' (out1 @ out2) \<and> pkg_ready ms c' \<and>
       carries out1 (take (unat (l - 64)) (drop 64 bs)) \<and> carries out2 (drop (unat (l - 64)) (drop 64 bs))"
      using "3.IH" [of "l - 64" c1] 3(2-5) l False c1(2) by (simp add: dvd_diff_nat)
    then obtain c' out1 out2 where out: "drains (pkg_view u) c1 (w' # ws) c' (out1 @ out2)" "pkg_ready ms c'"
       "carries out1 (take (unat l - 64) (drop 64 bs))" "carries out2 (drop (unat l) bs)"
      using False by (auto simp: l(3))
    obtain x xs where "out1 = x # xs" using out(3) by (cases out1) auto
    with out(3) 3(2,5) False have "carries (w # out1) (take (unat l) bs)"
      by (auto simp: min_absorb1 drop_take take_take)
    with out pkp.step_drains [OF c1(1) out(1)] show ?thesis by (metis append_Cons append_Nil)
  qed
qed

section \<open>Streams of packets\<close>

text \<open>A stream that carries a sequence of packets, and what a packet must satisfy to be written by
  a command: it has the length of the command, and a split falls on a multiple of eight bytes.\<close>

definition carries_all :: "word512 list \<Rightarrow> u8 list list \<Rightarrow> bool" where
  "carries_all ws bss \<longleftrightarrow> (\<exists>wss. ws = concat wss \<and> list_all2 carries wss bss)"

definition packet_fits :: "u48 \<Rightarrow> memCmd \<Rightarrow> u8 list \<Rightarrow> bool" where
  "packet_fits base cmd bs \<longleftrightarrow>
     length bs = unat (cmd_len cmd) \<and> (crosses base cmd \<longrightarrow> 8 dvd split_point base cmd)"

lemma carries_all_Nil [simp]: "carries_all ws [] \<longleftrightarrow> ws = []"
  by (auto simp: carries_all_def)

lemma carries_all_Cons: "carries_all ws (bs # bss) \<longleftrightarrow> (\<exists>w1 w2. ws = w1 @ w2 \<and> carries w1 bs \<and> carries_all w2 bss)"
  unfolding carries_all_def list_all2_Cons2 by (metis concat.simps(2))

lemma carries_all_append:
  "carries_all w1 b1 \<Longrightarrow> carries_all w2 b2 \<Longrightarrow> carries_all (w1 @ w2) (b1 @ b2)"
  by (induction b1 arbitrary: w1) (auto simp: carries_all_Cons, metis append.assoc)

lemma pkg_one_packet:
  assumes "carries ws bs" and "packet_fits base cmd bs" and "pkg_ready (cmd_meta base cmd # ms) c"
  shows "\<exists>c' out. drains (pkg_view u) c ws c' out \<and> pkg_ready ms c' \<and> carries_all out (split_packet base cmd bs)"
proof (cases "crosses base cmd")
  case True
  let ?l = "of_nat (split_point base cmd) :: u32"
  have l: "8 dvd unat ?l" "0 < unat ?l" "unat ?l < length bs" "pkg_loaded ms ?l True c"
    using True assms split_point_range [of base cmd] crosses_split_point [of base cmd]
    by (auto simp: packet_fits_def pkg_loaded_def pkg_ready_def cmd_meta_def)
  from pkg_split_packet [OF assms(1) l, of u] True show ?thesis
    by (fastforce simp: split_packet_def carries_all_Cons)
next
  case False
  then have "pkg_loaded ms (cmd_len cmd) False c" using assms(3) by (simp add: pkg_loaded_def pkg_ready_def cmd_meta_def)
  from pkg_unsplit [OF assms(1) _ this, of u] assms(1,2) False show ?thesis
    by (fastforce simp: split_packet_def carries_all_Cons packet_fits_def)
qed

lemma pkg_stream:
  "list_all2 (packet_fits base) cmds bss \<Longrightarrow> carries_all ws bss \<Longrightarrow> pkg_ready (map (cmd_meta base) cmds @ ms) c \<Longrightarrow>
   \<exists>c' out. drains (pkg_view u) c ws c' out \<and> pkg_ready ms c' \<and> carries_all out (concat (map2 (split_packet base) cmds bss))"
proof (induction cmds bss arbitrary: ws c rule: list_all2_induct)
  case Nil
  then show ?case using drains_Nil [of "pkg_view u" c] by (auto simp del: split_paired_Ex)
next
  case (Cons cmd cmds bs bss)
  from Cons(4) obtain w1 w2 where ws: "ws = w1 @ w2" "carries w1 bs" "carries_all w2 bss" by (auto simp: carries_all_Cons)
  from pkg_one_packet [OF ws(2) Cons(1), of "map (cmd_meta base) cmds @ ms" c u] Cons(5) obtain c1 o1 where
    c1: "drains (pkg_view u) c w1 c1 o1" "pkg_ready (map (cmd_meta base) cmds @ ms) c1" "carries_all o1 (split_packet base cmd bs)"
    by auto
  from Cons(3) [OF ws(3) c1(2)] obtain c' o2 where
    "drains (pkg_view u) c1 w2 c' o2" "pkg_ready ms c'" "carries_all o2 (concat (map2 (split_packet base) cmds bss))" by blast
  with pkp.drains_append [OF c1(1)] carries_all_append [OF c1(3)] show ?case by (fastforce simp: ws(1))
qed

lemma pkg_view_calls:
  "calls (pkg_view u) n (st, ms) ds =
     (case join_calls (pkg_split u) n st ms ds of (st', ms', ds', out) \<Rightarrow> ((st', ms'), ds', out))"
  by (induction n arbitrary: st ms ds) (auto simp: pkg_view_def split: prod.splits)

section \<open>The pipeline\<close>

definition mwc_run :: "word512 \<Rightarrow> u48 \<Rightarrow> nat \<Rightarrow> mwc_state \<times> mwc_io \<Rightarrow> mwc_state \<times> mwc_io" where
  "mwc_run u base n = mem_write_cmd_page_boundary_check_512 u base ^^ n"

text \<open>The commands that a pipeline state still has to write, and the number of calls they take.\<close>

definition bc_pending :: "bc_static \<Rightarrow> memCmd list" where
  "bc_pending bc = (if bc_state bc = CMD_SPLIT then [\<lparr>cmd_addr = ic_addr (bc_cmd bc), cmd_len = ic_len (bc_cmd bc)\<rparr>] else [])"

text \<open>The state after some calls on the commands \<open>cmds\<close> and the data \<open>ds\<close>: \<open>rest\<close> are the
  commands not yet checked, and the packet splitter is where \<open>k\<close> calls take it that find the
  metadata of all commands waiting from the start. A call of the splitter for which the metadata is
  still missing does nothing and is not counted.\<close>

definition mwc_inv ::
  "word512 \<Rightarrow> u48 \<Rightarrow> pkg_static \<Rightarrow> memCmd list \<Rightarrow> word512 list \<Rightarrow> nat \<Rightarrow> memCmd list \<Rightarrow> mwc_state \<times> mwc_io \<Rightarrow> bool" where
  "mwc_inv u base pkg0 cmds ds k rest c \<longleftrightarrow>
     (\<exists>checked. cmds = checked @ rest \<and>
        mwc_pageOffsetFifo (fst c) @ map (ic_of base) (mwc_cmdIn (snd c)) = map (ic_of base) rest \<and>
        mwc_cmdOut (snd c) @ bc_pending (mwc_bc (fst c)) = concat (map (split_cmd base) checked) \<and>
        join_calls (pkg_split u) k pkg0 (map (cmd_meta base) cmds) ds =
          (mwc_pkg (fst c), mwc_metaFifo (fst c) @ map (cmd_meta base) rest, mwc_dataIn (snd c), mwc_dataOut (snd c)))"

text \<open>The number of commands that still have to be written, at most.\<close>

definition mwc_work :: "memCmd list \<Rightarrow> bc_static \<Rightarrow> nat" where
  "mwc_work rest bc = 2 * length rest + length (bc_pending bc)"

lemma boundary_check_append:
  assumes "p \<noteq> [] \<or> q = []"
  shows "boundary_check bc (p @ q) = (case boundary_check bc p of (bc', r, cmds, metas) \<Rightarrow> (bc', r @ q, cmds, metas))"
  using assms by (cases p) (auto simp: boundary_check_def Let_def split: bcStateType.splits)

lemma check_stage_append:
  assumes "p \<noteq> [] \<or> q = []"
  shows "boundary_check_stage st (p @ q) = (case boundary_check_stage st p of (bc', r, cmds, metas) \<Rightarrow> (bc', r @ q, cmds, metas))"
  using boundary_check_append [OF assms] by (simp add: boundary_check_stage_def)

text \<open>The number of commands that \<open>pageOffsetFifo\<close> has room for in this call.\<close>

definition offset_room :: "mwc_state \<Rightarrow> nat" where
  "offset_room st = (if length (mwc_pageOffsetFifo st) < pageOffsetFifo_depth then 1 else 0)"

lemma page_offset_stage_eq:
  "page_offset_stage base st cmdIn = (drop (offset_room st) cmdIn, map (ic_of base) (take (offset_room st) cmdIn))"
  by (cases cmdIn) (simp_all add: page_offset_stage_def offset_room_def calculate_page_offset_Cons calculate_page_offset_Nil)

lemma offset_room_feeds: "mwc_pageOffsetFifo st \<noteq> [] \<or> take (offset_room st) xs \<noteq> [] \<or> drop (offset_room st) xs = []"
  by (cases xs) (auto simp: offset_room_def pageOffsetFifo_depth_def)

lemma pipeline_step:
  "mem_write_cmd_page_boundary_check_512 u base c =
     (let n = offset_room (fst c);
          (bc, fifo, cmds, metas) = boundary_check_stage (fst c) (mwc_pageOffsetFifo (fst c) @ map (ic_of base) (take n (mwc_cmdIn (snd c))));
          (pkg, metaFifo, dataIn, words) = pkg_split u (mwc_pkg (fst c)) (mwc_metaFifo (fst c) @ metas) (mwc_dataIn (snd c))
      in (\<lparr>mwc_pageOffsetFifo = fifo, mwc_metaFifo = metaFifo, mwc_bc = bc, mwc_pkg = pkg\<rparr>,
          \<lparr>mwc_cmdIn = drop n (mwc_cmdIn (snd c)), mwc_dataIn = dataIn, mwc_cmdOut = mwc_cmdOut (snd c) @ cmds,
           mwc_dataOut = mwc_dataOut (snd c) @ words\<rparr>))"
  by (cases c) (simp add: mem_write_cmd_page_boundary_check_512_def page_offset_stage_eq Let_def)

text \<open>What the boundary check does with the commands that wait: nothing when it is blocked, and one command
  or the second half of one otherwise.\<close>

lemma check_stage_flow:
  "\<exists>bc' now q' out. boundary_check_stage st (map (ic_of base) q) = (bc', map (ic_of base) q', out, map (cmd_meta base) now) \<and>
     q = now @ q' \<and> bc_pending (mwc_bc st) @ concat (map (split_cmd base) now) = out @ bc_pending bc' \<and>
     mwc_work q' bc' \<le> mwc_work q (mwc_bc st) - (if bc_blocked st then 0 else 1)"
proof (cases "bc_blocked st")
  case True
  then show ?thesis
    by - (rule exI [of _ "mwc_bc st"], rule exI [of _ "[]"], rule exI [of _ q], simp add: boundary_check_stage_def)
next
  case False
  let ?bc = "mwc_bc st"
  show ?thesis
  proof (cases "bc_state ?bc")
    case CMD
    then have pend: "bc_pending ?bc = []" by (simp add: bc_pending_def)
    show ?thesis
    proof (cases q)
      case Nil
      with False CMD pend show ?thesis
        by - (rule exI [of _ ?bc], rule exI [of _ "[]"], rule exI [of _ "[]"],
          simp add: boundary_check_stage_def boundary_check_idle mwc_work_def)
    next
      case (Cons c q')
      from boundary_check_CMD [OF CMD, of base c "map (ic_of base) q'"] obtain bc' where
        bc': "boundary_check ?bc (map (ic_of base) q) = (bc', map (ic_of base) q', [hd (split_cmd base c)], [cmd_meta base c])"
          "split_cmd base c = [hd (split_cmd base c)] @ bc_pending bc'" "length (bc_pending bc') \<le> 1"
        by (auto simp: Cons bc_pending_def split: if_splits)
      with False show ?thesis
        by - (rule exI [of _ bc'], rule exI [of _ "[c]"], rule exI [of _ q'],
          simp add: boundary_check_stage_def pend Cons mwc_work_def)
    qed
  next
    case CMD_SPLIT
    with False show ?thesis
      by - (rule exI [of _ "?bc\<lparr>bc_state := CMD\<rparr>"], rule exI [of _ "[]"], rule exI [of _ q],
        simp add: boundary_check_stage_def boundary_check_CMD_SPLIT bc_pending_def mwc_work_def)
  qed
qed

text \<open>A call of the splitter that finds metadata waiting does the same with more of it.\<close>

lemma pkg_split_more:
  assumes "ms \<noteq> [] \<or> us = []" and "pkg_split u st ms ds = (st', ms', ds', out)"
  shows "pkg_split u st (ms @ us) ds = (st', ms' @ us, ds', out)"
proof (cases "us = [] \<or> ds = []")
  case True
  then show ?thesis
  proof
    assume "ds = []"
    with assms(2) show ?thesis by (cases "pbc_state st") (auto simp: pkg_split_def)
  qed (use assms(2) in simp)
next
  case False
  then obtain m ms0 d ds0 where c: "ms = m # ms0" "ds = d # ds0" using assms(1) by (cases ms; cases ds) auto
  have "pkg_split u st (ms @ us) ds = (case pkg_split u st ms ds of (st', ms', ds', out) \<Rightarrow> (st', ms' @ us, ds', out))"
    unfolding c by (cases "pbc_state st"; cases "metaLoaded st") (simp_all add: pkg_split_def Let_def)
  with assms(2) show ?thesis by simp
qed

lemma pipeline_inv:
  assumes inv: "mwc_inv u base pkg0 cmds ds k rest c"
  shows "\<exists>k' rest'. mwc_inv u base pkg0 cmds ds k' rest' (mem_write_cmd_page_boundary_check_512 u base c) \<and> k \<le> k' \<and>
    (rest = [] \<or> bc_blocked (fst c) \<longrightarrow> k' = Suc k) \<and>
    mwc_work rest' (mwc_bc (fst (mem_write_cmd_page_boundary_check_512 u base c))) \<le>
      mwc_work rest (mwc_bc (fst c)) - (if bc_blocked (fst c) then 0 else 1)"
proof -
  let ?st = "fst c" and ?n = "offset_room (fst c)"
  let ?p = "mwc_pageOffsetFifo ?st @ map (ic_of base) (take ?n (mwc_cmdIn (snd c)))"
    and ?q = "map (ic_of base) (drop ?n (mwc_cmdIn (snd c)))"
  from inv obtain checked where cmds: "cmds = checked @ rest"
    and fifo: "mwc_pageOffsetFifo ?st @ map (ic_of base) (mwc_cmdIn (snd c)) = map (ic_of base) rest"
    and cmdOut: "mwc_cmdOut (snd c) @ bc_pending (mwc_bc ?st) = concat (map (split_cmd base) checked)"
    and pkg: "join_calls (pkg_split u) k pkg0 (map (cmd_meta base) cmds) ds =
       (mwc_pkg ?st, mwc_metaFifo ?st @ map (cmd_meta base) rest, mwc_dataIn (snd c), mwc_dataOut (snd c))"
    by (auto simp: mwc_inv_def)
  obtain bc' now rest' out where stage:
      "boundary_check_stage ?st (map (ic_of base) rest) = (bc', map (ic_of base) rest', out, map (cmd_meta base) now)"
    and rest: "rest = now @ rest'" and out: "bc_pending (mwc_bc ?st) @ concat (map (split_cmd base) now) = out @ bc_pending bc'"
    and work: "mwc_work rest' bc' \<le> mwc_work rest (mwc_bc ?st) - (if bc_blocked ?st then 0 else 1)"
    using check_stage_flow [of ?st base rest] by blast
  have pq: "?p @ ?q = map (ic_of base) rest" by (simp flip: fifo map_append)
  have ne: "?p \<noteq> [] \<or> ?q = []" using offset_room_feeds [of ?st "mwc_cmdIn (snd c)"] by auto
  obtain r where r: "boundary_check_stage ?st ?p = (bc', r, out, map (cmd_meta base) now)" "r @ ?q = map (ic_of base) rest'"
    using check_stage_append [OF ne, of ?st] stage unfolding pq by (auto split: prod.splits)
  obtain pkg' ms' ds' ws where sp: "pkg_split u (mwc_pkg ?st) (mwc_metaFifo ?st @ map (cmd_meta base) now) (mwc_dataIn (snd c)) = (pkg', ms', ds', ws)"
    by (metis prod_cases4)
  have "mwc_cmdOut (snd c) @ out @ bc_pending bc' = concat (map (split_cmd base) (checked @ now))"
    using cmdOut out by (simp flip: out append.assoc)
  then have inv': "mwc_inv u base pkg0 cmds ds k' rest' (mem_write_cmd_page_boundary_check_512 u base c)"
    if "join_calls (pkg_split u) k' pkg0 (map (cmd_meta base) cmds) ds = (pkg', ms' @ map (cmd_meta base) rest', ds', mwc_dataOut (snd c) @ ws)" for k'
    using that r(2) cmds rest unfolding mwc_inv_def
    by (intro exI [of _ "checked @ now"]) (simp add: pipeline_step r(1) sp Let_def)
  have next_call: "join_calls (pkg_split u) (Suc k) pkg0 (map (cmd_meta base) cmds) ds = (pkg', ms' @ map (cmd_meta base) rest', ds', mwc_dataOut (snd c) @ ws)"
    if "pkg_split u (mwc_pkg ?st) ((mwc_metaFifo ?st @ map (cmd_meta base) now) @ map (cmd_meta base) rest') (mwc_dataIn (snd c)) =
      (pkg', ms' @ map (cmd_meta base) rest', ds', ws)"
    using join_calls_add [OF pkg, of 1] that rest by simp
  have bc: "mwc_bc (fst (mem_write_cmd_page_boundary_check_512 u base c)) = bc'" by (simp add: pipeline_step r(1) sp Let_def)
  have full: ?thesis if "mwc_metaFifo ?st @ map (cmd_meta base) now \<noteq> [] \<or> map (cmd_meta base) rest' = []"
    using inv' [OF next_call [OF pkg_split_more [OF that sp]]] work bc by (intro exI [of _ "Suc k"] exI [of _ rest']) auto
  show ?thesis
  proof (cases "rest = [] \<or> bc_blocked ?st")
    case True
    then show ?thesis using rest by (intro full) (auto simp: bc_blocked_def metaFifo_depth_def)
  next
    case False
    from pkj.extend [OF sp, of "map (cmd_meta base) rest'" "[]"]
    have "\<exists>k' \<ge> k. mwc_inv u base pkg0 cmds ds k' rest' (mem_write_cmd_page_boundary_check_512 u base c)"
    proof
      assume "pkg' = mwc_pkg ?st \<and> ms' = mwc_metaFifo ?st @ map (cmd_meta base) now \<and> ds' = mwc_dataIn (snd c) \<and> ws = []"
      then show ?thesis using inv' [of k] pkg rest by auto
    next
      assume "pkg_split u (mwc_pkg ?st) ((mwc_metaFifo ?st @ map (cmd_meta base) now) @ map (cmd_meta base) rest') (mwc_dataIn (snd c) @ []) =
        (pkg', ms' @ map (cmd_meta base) rest', ds' @ [], ws)"
      then have "mwc_inv u base pkg0 cmds ds (Suc k) rest' (mem_write_cmd_page_boundary_check_512 u base c)"
        by (intro inv' next_call) simp
      then show ?thesis by (intro exI [of _ "Suc k"]) simp
    qed
    then show ?thesis using False work bc by auto
  qed
qed

text \<open>The full FIFOs do not block the pipeline for good: when \<open>N\<close> calls of the splitter leave no more
  metadata than fits into \<open>metaFifo\<close>, every command is checked.\<close>

lemma mwc_inv_meta:
  assumes "mwc_inv u base pkg0 cmds ds k rest c"
  shows "length (fst (snd (join_calls (pkg_split u) k pkg0 (map (cmd_meta base) cmds) ds))) = length (mwc_metaFifo (fst c)) + length rest"
  using assms by (auto simp: mwc_inv_def)

lemma pipeline_checks:
  assumes N: "\<And>k. N \<le> k \<Longrightarrow> length (fst (snd (join_calls (pkg_split u) k pkg0 (map (cmd_meta base) cmds) ds))) \<le> metaFifo_depth"
  shows "mwc_inv u base pkg0 cmds ds k rest c \<Longrightarrow>
   \<exists>n k'. mwc_inv u base pkg0 cmds ds k' [] (mwc_run u base n c) \<and> bc_state (mwc_bc (fst (mwc_run u base n c))) = CMD"
proof (induction "mwc_work rest (mwc_bc (fst c)) + (N - k)" arbitrary: k rest c rule: less_induct)
  case less
  let ?c = "mem_write_cmd_page_boundary_check_512 u base c" and ?bc = "mwc_bc (fst c)"
  show ?case
  proof (cases "mwc_work rest ?bc = 0")
    case True
    then have "rest = []" "bc_state ?bc = CMD" by (cases "bc_state ?bc"; simp add: mwc_work_def bc_pending_def)+
    with less(2) show ?thesis by (intro exI [of _ 0] exI [of _ k]) (simp add: mwc_run_def)
  next
    case False
    from pipeline_inv [OF less(2)] obtain k' rest' where
      step: "mwc_inv u base pkg0 cmds ds k' rest' ?c" "k \<le> k'" "bc_blocked (fst c) \<longrightarrow> k' = Suc k"
        "mwc_work rest' (mwc_bc (fst ?c)) \<le> mwc_work rest ?bc - (if bc_blocked (fst c) then 0 else 1)" by blast
    have "k < N" if b: "bc_blocked (fst c)"
    proof (rule ccontr)
      assume "\<not> k < N"
      then have "length (mwc_metaFifo (fst c)) + length rest \<le> metaFifo_depth" using N [of k] mwc_inv_meta [OF less(2)] by simp
      moreover from b have "metaFifo_depth \<le> length (mwc_metaFifo (fst c))" "bc_pending ?bc = []" by (simp_all add: bc_blocked_def bc_pending_def)
      ultimately have "length rest = 0" "bc_pending ?bc = []" by linarith+
      with False show False by (simp add: mwc_work_def)
    qed
    then have "mwc_work rest' (mwc_bc (fst ?c)) + (N - k') < mwc_work rest ?bc + (N - k)"
      using step(2-4) False by (auto split: if_splits)
    from less(1) [OF this step(1)] obtain n k'' where "mwc_inv u base pkg0 cmds ds k'' [] (mwc_run u base n ?c)"
      "bc_state (mwc_bc (fst (mwc_run u base n ?c))) = CMD" by blast
    then show ?thesis by (intro exI [of _ "Suc n"] exI [of _ k'']) (simp add: mwc_run_def funpow_swap1)
  qed
qed

text \<open>Once every command is checked only the packet splitter moves.\<close>

lemma mwc_run_Suc: "mwc_run u base (Suc j) c = mem_write_cmd_page_boundary_check_512 u base (mwc_run u base j c)"
  by (simp add: mwc_run_def)

lemma pipeline_idle:
  assumes "mwc_inv u base pkg0 cmds ds k [] c" and "bc_state (mwc_bc (fst c)) = CMD"
  shows "mwc_inv u base pkg0 cmds ds (k + j) [] (mwc_run u base j c) \<and> bc_state (mwc_bc (fst (mwc_run u base j c))) = CMD"
proof (induction j)
  case 0
  then show ?case using assms by (simp add: mwc_run_def)
next
  case (Suc j)
  let ?d = "mwc_run u base j c"
  from Suc have inv: "mwc_inv u base pkg0 cmds ds (k + j) [] ?d" and "mwc_work [] (mwc_bc (fst ?d)) = 0"
    by (auto simp: mwc_work_def bc_pending_def)
  with pipeline_inv [OF inv] obtain rest' where
    "mwc_inv u base pkg0 cmds ds (Suc (k + j)) rest' (mwc_run u base (Suc j) c)" "mwc_work rest' (mwc_bc (fst (mwc_run u base (Suc j) c))) = 0"
    by (auto simp: mwc_run_Suc)
  moreover from this(2) have "rest' = []" "bc_state (mwc_bc (fst (mwc_run u base (Suc j) c))) = CMD"
    by (cases "bc_state (mwc_bc (fst (mwc_run u base (Suc j) c)))"; simp add: mwc_work_def bc_pending_def)+
  ultimately show ?case by simp
qed

definition mwc_start :: "memCmd list \<Rightarrow> word512 list \<Rightarrow> mwc_io" where
  "mwc_start cmds ds = \<lparr>mwc_cmdIn = cmds, mwc_dataIn = ds, mwc_cmdOut = [], mwc_dataOut = []\<rparr>"

lemma mwc_inv_start: "mwc_inv u base (mwc_pkg (mwc_init ic l m w)) cmds ds 0 cmds (mwc_init ic l m w, mwc_start cmds ds)"
  by (simp add: mwc_inv_def mwc_init_def mwc_start_def bc_pending_def)

lemma mwc_inv_run:
  "mwc_inv u base pkg0 cmds ds k rest c \<Longrightarrow> \<exists>k' rest'. mwc_inv u base pkg0 cmds ds k' rest' (mwc_run u base i c)"
proof (induction i)
  case 0
  then show ?case by (auto simp: mwc_run_def)
next
  case (Suc i)
  then obtain k' rest' where "mwc_inv u base pkg0 cmds ds k' rest' (mwc_run u base i c)" by blast
  from pipeline_inv [OF this] show ?case unfolding mwc_run_Suc by blast
qed

text \<open>Commands whose packets have arrived, all but the last ones that fit into \<open>metaFifo\<close>.\<close>

definition packets_arrived :: "u48 \<Rightarrow> memCmd list \<Rightarrow> word512 list \<Rightarrow> u8 list list \<Rightarrow> bool" where
  "packets_arrived base cmds ds bss \<longleftrightarrow> carries_all ds bss \<and>
     list_all2 (packet_fits base) (take (length bss) cmds) bss \<and> length cmds \<le> length bss + metaFifo_depth"

text \<open>The splitter on its own, with all metadata there from the start.\<close>

lemma pkg_split_runs:
  assumes "carries_all ds bss" and "list_all2 (packet_fits base) (take (length bss) cmds) bss" and "pkg_ready [] (pkg0, [])"
  shows "\<exists>N st out. (\<forall>k \<ge> N. join_calls (pkg_split u) k pkg0 (map (cmd_meta base) cmds) ds =
      (st, map (cmd_meta base) (drop (length bss) cmds), [], out)) \<and>
    carries_all out (concat (map2 (split_packet base) (take (length bss) cmds) bss))"
proof -
  let ?n = "length bss" and ?ms = "map (cmd_meta base) cmds"
  have "pkg_ready (map (cmd_meta base) (take ?n cmds) @ map (cmd_meta base) (drop ?n cmds)) (pkg0, ?ms)"
    using assms(3) by (simp add: pkg_ready_def flip: map_append)
  from pkg_stream [OF assms(2,1) this, of u] obtain st ms out where
    c': "drains (pkg_view u) (pkg0, ?ms) ds (st, ms) out" "pkg_ready (map (cmd_meta base) (drop ?n cmds)) (st, ms)"
      "carries_all out (concat (map2 (split_packet base) (take ?n cmds) bss))" by auto
  have "pkg_view u (st, ms) [] = ((st, ms), [], [])" using c'(2) by (simp add: pkg_ready_def pkg_simps)
  from pkp.drains_stable [OF c'(1) this] obtain N where
    "\<And>k. N \<le> k \<Longrightarrow> calls (pkg_view u) k (pkg0, ?ms) ds = ((st, ms), [], out)" by blast
  then have "join_calls (pkg_split u) k pkg0 ?ms ds = (st, ms, [], out)" if "N \<le> k" for k
    using that by (fastforce simp: pkg_view_calls split: prod.splits)
  moreover have "ms = map (cmd_meta base) (drop ?n cmds)" using c'(2) by (simp add: pkg_ready_def)
  ultimately show ?thesis using c'(3) by blast
qed

lemma mwc_pkg_init: "pkg_ready [] (mwc_pkg (mwc_init ic l m w), [])"
  by (simp add: pkg_ready_def mwc_init_def)

lemma pipeline_settles:
  assumes "packets_arrived base cmds ds bss" and "pkg_ready [] (pkg0, [])" and "mwc_inv u base pkg0 cmds ds k0 rest c0"
  shows "\<exists>n out. (\<forall>i \<ge> n. \<forall>c. mwc_run u base i c0 = c \<longrightarrow>
     mwc_cmdIn (snd c) = [] \<and> mwc_dataIn (snd c) = [] \<and> mwc_cmdOut (snd c) = concat (map (split_cmd base) cmds) \<and> mwc_dataOut (snd c) = out \<and>
     mwc_pageOffsetFifo (fst c) = [] \<and> bc_pending (mwc_bc (fst c)) = []) \<and>
     carries_all out (concat (map2 (split_packet base) (take (length bss) cmds) bss))"
proof -
  from assms(1) have arr: "carries_all ds bss" "list_all2 (packet_fits base) (take (length bss) cmds) bss" "length cmds \<le> length bss + metaFifo_depth"
    by (simp_all add: packets_arrived_def)
  from pkg_split_runs [OF arr(1,2) assms(2), of u] obtain N st out where
    N: "\<And>k. N \<le> k \<Longrightarrow> join_calls (pkg_split u) k pkg0 (map (cmd_meta base) cmds) ds = (st, map (cmd_meta base) (drop (length bss) cmds), [], out)"
    and out: "carries_all out (concat (map2 (split_packet base) (take (length bss) cmds) bss))" by blast
  have "length (fst (snd (join_calls (pkg_split u) k pkg0 (map (cmd_meta base) cmds) ds))) \<le> metaFifo_depth" if "N \<le> k" for k
    using N [OF that] arr(3) by simp
  from pipeline_checks [OF this assms(3)] obtain n k where
    inv: "mwc_inv u base pkg0 cmds ds k [] (mwc_run u base n c0)" "bc_state (mwc_bc (fst (mwc_run u base n c0))) = CMD" by blast
  have run: "mwc_run u base (n + j) c0 = mwc_run u base j (mwc_run u base n c0)" for j
    by (simp add: mwc_run_def funpow_add add.commute [of n])
  have "mwc_cmdIn (snd c) = [] \<and> mwc_dataIn (snd c) = [] \<and> mwc_cmdOut (snd c) = concat (map (split_cmd base) cmds) \<and> mwc_dataOut (snd c) = out \<and>
      mwc_pageOffsetFifo (fst c) = [] \<and> bc_pending (mwc_bc (fst c)) = []"
    if i: "n + N \<le> i" and c: "mwc_run u base i c0 = c" for i c
  proof -
    from i obtain j where j: "i = n + j" "N \<le> k + j" by (metis add_leD1 le_add_diff_inverse nat_add_left_cancel_le trans_le_add2)
    from pipeline_idle [OF inv, of j] c j run have "mwc_inv u base pkg0 cmds ds (k + j) [] c" "bc_state (mwc_bc (fst c)) = CMD" by simp_all
    then show ?thesis using N [OF j(2)] by (auto simp: mwc_inv_def bc_pending_def)
  qed
  with out show ?thesis by blast
qed

lemma pipeline_result:
  assumes "packets_arrived base cmds ds bss"
  shows "\<exists>n out. (\<forall>i \<ge> n. \<forall>c. mwc_run u base i (mwc_init ic l m w, mwc_start cmds ds) = c \<longrightarrow>
     mwc_cmdIn (snd c) = [] \<and> mwc_dataIn (snd c) = [] \<and> mwc_cmdOut (snd c) = concat (map (split_cmd base) cmds) \<and> mwc_dataOut (snd c) = out) \<and>
     carries_all out (concat (map2 (split_packet base) (take (length bss) cmds) bss))"
  using pipeline_settles [OF assms mwc_pkg_init mwc_inv_start, of u ic l m w] by metis

section \<open>Properties\<close>

lemma cmd_addrs_pieces: "concat (map cmd_addrs (concat (map (split_cmd base) cs))) = concat (map cmd_addrs cs)"
  by (induction cs) (simp_all add: cmd_addrs_split)

text \<open>C23. The commands the module writes address the same bytes, in the same order, as the
  commands it reads. At every number of calls and whatever data arrives, what has been written addresses a first part
  of those bytes, and none of the commands written crosses a page boundary, when no command read reaches into a third
  page. Once the packets of all commands but the last four have arrived, every command is written after some number of
  calls: the FIFO between the check and the packet splitter holds the metadata of four commands.\<close>

theorem boundary_check_commands:
  assumes "\<forall>cmd \<in> set cmds. cmd_offset base cmd + unat (cmd_len cmd) \<le> 2 * page_bytes"
  shows "(\<forall>i. \<exists>st' io' rest. mwc_run u base i (mwc_init ic l m w, mwc_start cmds ds) = (st', io') \<and>
      concat (map cmd_addrs cmds) = concat (map cmd_addrs (mwc_cmdOut io')) @ rest \<and> (\<forall>c \<in> set (mwc_cmdOut io'). \<not> crosses base c)) \<and>
    (packets_arrived base cmds ds bss \<longrightarrow>
      (\<exists>n. \<forall>i \<ge> n. \<exists>st' io'. mwc_run u base i (mwc_init ic l m w, mwc_start cmds ds) = (st', io') \<and>
        mwc_cmdIn io' = [] \<and> concat (map cmd_addrs (mwc_cmdOut io')) = concat (map cmd_addrs cmds)))"
proof (intro conjI allI impI)
  fix i
  let ?c0 = "(mwc_init ic l m w, mwc_start cmds ds)"
  obtain st' io' where c: "mwc_run u base i ?c0 = (st', io')" by (metis surj_pair)
  obtain k rest where "mwc_inv u base (mwc_pkg (mwc_init ic l m w)) cmds ds k rest (st', io')"
    using mwc_inv_run [OF mwc_inv_start, of u base] c by metis
  then obtain checked where
    "cmds = checked @ rest" "mwc_cmdOut io' @ bc_pending (mwc_bc st') = concat (map (split_cmd base) checked)"
    by (auto simp: mwc_inv_def)
  then have W: "concat (map (split_cmd base) cmds) = mwc_cmdOut io' @ bc_pending (mwc_bc st') @ concat (map (split_cmd base) rest)" by simp
  from cmd_addrs_pieces [of base cmds] have "concat (map cmd_addrs cmds) =
      concat (map cmd_addrs (mwc_cmdOut io')) @ concat (map cmd_addrs (bc_pending (mwc_bc st') @ concat (map (split_cmd base) rest)))"
    unfolding W by simp
  moreover have "\<not> crosses base x" if "x \<in> set (mwc_cmdOut io')" for x
  proof -
    from that W have "x \<in> set (concat (map (split_cmd base) cmds))" by simp
    then show ?thesis using assms split_cmd_in_page by fastforce
  qed
  ultimately show "\<exists>st' io' rest. mwc_run u base i ?c0 = (st', io') \<and>
      concat (map cmd_addrs cmds) = concat (map cmd_addrs (mwc_cmdOut io')) @ rest \<and> (\<forall>c \<in> set (mwc_cmdOut io'). \<not> crosses base c)"
    using c by blast
next
  assume "packets_arrived base cmds ds bss"
  from pipeline_result [OF this, of u ic l m w] cmd_addrs_pieces [of base cmds]
  show "\<exists>n. \<forall>i \<ge> n. \<exists>st' io'. mwc_run u base i (mwc_init ic l m w, mwc_start cmds ds) = (st', io') \<and>
      mwc_cmdIn io' = [] \<and> concat (map cmd_addrs (mwc_cmdOut io')) = concat (map cmd_addrs cmds)"
    by (metis prod.collapse)
qed

text \<open>C16. The whole module, on any sequence of commands and of packets of the same lengths in which
  every split falls on a multiple of eight bytes: from some number of calls on all input is
  consumed, the commands written are the split commands, and the data words written carry exactly
  the pieces of the packets that belong to them, one packet per command.\<close>

theorem boundary_check_pipeline:
  assumes "list_all2 (packet_fits base) cmds bss" and "carries_all ds bss"
  shows "\<exists>n. \<forall>i \<ge> n. \<exists>st' io'. mwc_run u base i (mwc_init ic l m w, mwc_start cmds ds) = (st', io') \<and>
    mwc_cmdIn io' = [] \<and> mwc_dataIn io' = [] \<and> mwc_cmdOut io' = concat (map (split_cmd base) cmds) \<and>
    carries_all (mwc_dataOut io') (concat (map2 (split_packet base) cmds bss))"
proof -
  from assms have "packets_arrived base cmds ds bss" "take (length bss) cmds = cmds"
    by (simp_all add: packets_arrived_def list_all2_lengthD)
  from pipeline_result [OF this(1), of u ic l m w] this(2) show ?thesis by (metis prod.collapse)
qed

text \<open>The depths are never exceeded, and without data the module stops after the fourth command: the commands that follow are not
  written however often it is called.\<close>

lemma check_stage_lengths:
  assumes "boundary_check_stage st p = (bc, fifo, out, metas)"
  shows "length fifo \<le> length p" and "length (mwc_metaFifo st) \<le> metaFifo_depth \<Longrightarrow> length (mwc_metaFifo st @ metas) \<le> metaFifo_depth"
  using assms by (auto simp: boundary_check_stage_def bc_blocked_def boundary_check_def Let_def split: if_splits bcStateType.splits list.splits)

lemma fifos_bounded:
  assumes "length (mwc_pageOffsetFifo (fst c)) \<le> pageOffsetFifo_depth" and "length (mwc_metaFifo (fst c)) \<le> metaFifo_depth"
  shows "length (mwc_pageOffsetFifo (fst (mwc_run u base i c))) \<le> pageOffsetFifo_depth \<and> length (mwc_metaFifo (fst (mwc_run u base i c))) \<le> metaFifo_depth"
proof (induction i)
  case 0
  then show ?case using assms by (simp add: mwc_run_def)
next
  case (Suc i)
  let ?st = "fst (mwc_run u base i c)" and ?io = "snd (mwc_run u base i c)"
  let ?p = "mwc_pageOffsetFifo ?st @ map (ic_of base) (take (offset_room ?st) (mwc_cmdIn ?io))"
  obtain bc fifo out metas where b: "boundary_check_stage ?st ?p = (bc, fifo, out, metas)" by (metis prod_cases4)
  obtain pkg ms ds ws where sp: "pkg_split u (mwc_pkg ?st) (mwc_metaFifo ?st @ metas) (mwc_dataIn ?io) = (pkg, ms, ds, ws)" by (metis prod_cases4)
  have "length ?p \<le> pageOffsetFifo_depth" using Suc by (simp add: offset_room_def min_def)
  moreover have "length fifo \<le> length ?p" "length (mwc_metaFifo ?st @ metas) \<le> metaFifo_depth"
    using check_stage_lengths [OF b] Suc by auto
  moreover have "length ms \<le> length (mwc_metaFifo ?st @ metas)"
    using sp by (auto simp: pkg_split_def Let_def split: if_splits pbcStateType.splits list.splits prod.splits)
  ultimately show ?case by (simp add: mwc_run_Suc pipeline_step b sp Let_def)
qed

lemma splitter_idle: "pkg_ready [] (pkg0, []) \<Longrightarrow> join_calls (pkg_split u) k pkg0 ms [] = (pkg0, ms, [], [])"
  by (induction k) (simp_all add: pkg_ready_def pkg_split_def)

lemma boundary_check_waits_for_data:
  assumes "mwc_run u base i (mwc_init ic l m w, mwc_start cmds []) = (st', io')"
  shows "\<exists>rest. concat (map (split_cmd base) (take metaFifo_depth cmds)) = mwc_cmdOut io' @ rest"
proof -
  obtain k rest where "mwc_inv u base (mwc_pkg (mwc_init ic l m w)) cmds [] k rest (st', io')"
    using mwc_inv_run [OF mwc_inv_start, of u base] assms by metis
  then obtain checked where
    inv: "cmds = checked @ rest" "mwc_cmdOut io' @ bc_pending (mwc_bc st') = concat (map (split_cmd base) checked)"
      "mwc_metaFifo st' @ map (cmd_meta base) rest = map (cmd_meta base) cmds"
    by (auto simp: mwc_inv_def splitter_idle [OF mwc_pkg_init])
  have "length checked \<le> metaFifo_depth"
    using arg_cong [OF inv(3), of length] fifos_bounded [of "(mwc_init ic l m w, mwc_start cmds [])" u base i] assms inv(1)
    by (simp add: mwc_init_def)
  then have "take metaFifo_depth cmds = checked @ take (metaFifo_depth - length checked) rest" by (simp add: inv(1))
  then show ?thesis by (simp flip: inv(2))
qed

text \<open>Witnesses: a 32-byte write that starts 16 bytes before the end of a page, and its packet.\<close>

definition example_cmd :: memCmd where
  "example_cmd = \<lparr>cmd_addr = 0x1FFFF0, cmd_len = 32\<rparr>"

definition example_word :: word512 where
  "example_word = \<lparr>axis_data = 0x201F1E1D1C1B1A191817161514131211100F0E0D0C0B0A090807060504030201,
                   axis_keep = 0xFFFFFFFF, axis_last = True\<rparr>"

definition example_static :: mwc_state where
  "example_static = mwc_init (ic_of 0 example_cmd) 0 \<lparr>meta_length = 0, meta_isSplit = False\<rparr> example_word"

lemma example_crosses: "cmd_offset 0 example_cmd = 0x1FFFF0" "crosses 0 example_cmd" "split_point 0 example_cmd = 16"
  by (simp_all add: cmd_offset_def crosses_def split_point_def example_cmd_def)

theorem boundary_check_commands_witness:
  "\<exists>n. \<forall>i \<ge> n. \<exists>st' io'. mwc_run example_word 0 i (example_static, mwc_start [example_cmd] []) = (st', io') \<and>
    concat (map cmd_addrs (mwc_cmdOut io')) = cmd_addrs example_cmd \<and> (\<forall>c \<in> set (mwc_cmdOut io'). \<not> crosses 0 c)"
proof -
  have "\<forall>cmd \<in> set [example_cmd]. cmd_offset 0 cmd + unat (cmd_len cmd) \<le> 2 * page_bytes"
    by (simp add: example_crosses) (simp add: example_cmd_def)
  note both = boundary_check_commands [OF this, of example_word "ic_of 0 example_cmd" 0 "\<lparr>meta_length = 0, meta_isSplit = False\<rparr>" example_word "[]" "[]",
      folded example_static_def]
  have "packets_arrived 0 [example_cmd] [] []" by (simp add: packets_arrived_def metaFifo_depth_def)
  with both obtain n where n: "\<And>i. n \<le> i \<Longrightarrow> \<exists>st' io'. mwc_run example_word 0 i (example_static, mwc_start [example_cmd] []) = (st', io') \<and>
      concat (map cmd_addrs (mwc_cmdOut io')) = concat (map cmd_addrs [example_cmd])" by blast
  from both have safe: "\<exists>st' io'. mwc_run example_word 0 i (example_static, mwc_start [example_cmd] []) = (st', io') \<and>
      (\<forall>c \<in> set (mwc_cmdOut io'). \<not> crosses 0 c)" for i by blast
  have "concat (map cmd_addrs [example_cmd]) = cmd_addrs example_cmd" by simp
  with n safe show ?thesis by (intro exI [of _ n] allI impI) fastforce
qed

definition example_bytes :: "u8 list" where
  "example_bytes = take 32 (word_bytes (axis_data example_word))"

lemma example_carries: "carries_all [example_word] [example_bytes]"
  unfolding carries_all_Cons
  by (intro exI [of _ "[example_word]"] exI [of _ "[]"])
     (simp add: example_word_def example_bytes_def mask_eq_exp_minus_1)

theorem boundary_check_pipeline_witness:
  "\<exists>n. \<forall>i \<ge> n. \<exists>st' io'. mwc_run example_word 0 i (example_static, mwc_start [example_cmd] [example_word]) = (st', io') \<and>
    mwc_cmdOut io' = [\<lparr>cmd_addr = 0x1FFFF0, cmd_len = 16\<rparr>, \<lparr>cmd_addr = 0x200000, cmd_len = 16\<rparr>] \<and>
    carries_all (mwc_dataOut io') [take 16 example_bytes, drop 16 example_bytes]"
proof -
  have fits: "list_all2 (packet_fits 0) [example_cmd] [example_bytes]"
    by (simp add: packet_fits_def example_crosses) (simp add: example_cmd_def example_bytes_def)
  have cmds: "concat (map (split_cmd 0) [example_cmd]) = [\<lparr>cmd_addr = 0x1FFFF0, cmd_len = 16\<rparr>, \<lparr>cmd_addr = 0x200000, cmd_len = 16\<rparr>]"
    by (simp add: split_cmd_def example_crosses) (simp add: example_cmd_def)
  have pieces: "concat (map2 (split_packet 0) [example_cmd] [example_bytes]) = [take 16 example_bytes, drop 16 example_bytes]"
    by (simp add: split_packet_def example_crosses)
  from boundary_check_pipeline [OF fits example_carries, of example_word "ic_of 0 example_cmd" 0
      "\<lparr>meta_length = 0, meta_isSplit = False\<rparr>" example_word]
  show ?thesis unfolding cmds pieces example_static_def by metis
qed

text \<open>The check splits a command only once. A command that reaches into a third page is written
  as two commands of which the second still crosses a page boundary.\<close>

theorem boundary_check_third_page:
  assumes "bc_state st = CMD" and "2 * page_bytes < cmd_offset base cmd + unat (cmd_len cmd)"
  shows "\<exists>st1 st2 c1 c2 m. boundary_check st (snd (snd (calculate_page_offset base () [cmd]))) = (st1, [], [c1], [m]) \<and>
    boundary_check st1 [] = (st2, [], [c2], []) \<and> bc_state st2 = CMD \<and> crosses base c2"
proof -
  let ?p = "split_point base cmd"
  have x: "crosses base cmd" using assms(2) by (simp add: crosses_def)
  have pp: "cmd_offset base cmd + ?p = page_bytes" using cmd_offset_less [of base cmd] by (simp add: split_point_def)
  then have "page_bytes < unat (cmd_len cmd) - ?p" using assms(2) by simp
  moreover have "of_nat ?p \<le> cmd_len cmd" using x by (simp add: word_le_nat_alt crosses_split_point)
  ultimately have c2: "crosses base \<lparr>cmd_addr = a, cmd_len = cmd_len cmd - of_nat ?p\<rparr>" for a
    by (simp add: crosses_def unat_sub)
  have sp: "split_cmd base cmd = [\<lparr>cmd_addr = cmd_addr cmd, cmd_len = of_nat ?p\<rparr>,
      \<lparr>cmd_addr = cmd_addr cmd + of_nat ?p, cmd_len = cmd_len cmd - of_nat ?p\<rparr>]" using x by (simp add: split_cmd_def)
  from boundary_check_CMD [OF assms(1), of base cmd "[]"] x obtain st1 where
    "boundary_check st [ic_of base cmd] = (st1, [], [hd (split_cmd base cmd)], [cmd_meta base cmd])" "bc_state st1 = CMD_SPLIT"
    "crosses base \<lparr>cmd_addr = ic_addr (bc_cmd st1), cmd_len = ic_len (bc_cmd st1)\<rparr>"
    using c2 by (auto simp: sp)
  then show ?thesis by (auto simp: calculate_page_offset_Cons boundary_check_CMD_SPLIT)
qed

theorem boundary_check_third_page_witness:
  "\<exists>st1 st2 c1 c2 m.
     boundary_check (mwc_bc example_static) (snd (snd (calculate_page_offset 0 () [\<lparr>cmd_addr = 0x1FFFF0, cmd_len = 0x400000\<rparr>]))) = (st1, [], [c1], [m]) \<and>
     boundary_check st1 [] = (st2, [], [c2], []) \<and> crosses 0 c2"
  using boundary_check_third_page [of "mwc_bc example_static" 0 "\<lparr>cmd_addr = 0x1FFFF0, cmd_len = 0x400000\<rparr>"]
  by (simp add: example_static_def mwc_init_def cmd_offset_def) blast

text \<open>A split that falls on no multiple of eight bytes is applied to the commands but not to
  the data: the first packet written then holds the whole word in which the split falls instead of
  ending at the split, and the second one starts with the next word.\<close>

theorem pkg_split_unaligned:
  assumes "carries (w # w' # ws) bs" and "\<not> 8 dvd unat l" and "unat l < 64" and "pkg_loaded ms l True c"
  shows "\<exists>c'. drains (pkg_view u) c (w # w' # ws) c' ([w\<lparr>axis_last := True\<rparr>] @ w' # ws) \<and>
    carries [w\<lparr>axis_last := True\<rparr>] (take 64 bs) \<and> carries (w' # ws) (drop 64 bs)"
proof -
  have l: "l \<le> 64" "\<not> 64 < l" using assms(3) by (auto simp: word_le_nat_alt word_less_nat_alt)
  from assms(1) have w: "\<not> axis_last w" "carries (w' # ws) (drop 64 bs)" "axis_keep w = - 1" "64 < length bs"
    "word_bytes (axis_data w) = take 64 bs" by auto
  from pkg_load_step [OF assms(4), of u w "w' # ws"] l w obtain c1 where
    step: "pkg_view u c (w # w' # ws) = (c1, w' # ws, [\<lparr>axis_data = axis_data w, axis_keep = axis_keep w, axis_last = True\<rparr>])"
    and c1: "snd c1 = ms" "pbc_state (fst c1) = PKG_SECOND" "meta_length (pkg_meta (fst c1)) = l"
    by (auto simp: first_keep_id(2) [OF assms(2)])
  from pkg_default_rest [OF w(2) c1(1,2), of u] c1(3) assms(2) obtain c' where
    "drains (pkg_view u) c1 (w' # ws) c' (w' # ws)" by auto
  note pkp.step_drains [OF step this]
  moreover have "\<lparr>axis_data = axis_data w, axis_keep = axis_keep w, axis_last = True\<rparr> = w\<lparr>axis_last := True\<rparr>" by (cases w) simp
  moreover have "carries [w\<lparr>axis_last := True\<rparr>] (take 64 bs)" using w by (simp add: min_absorb2 mask_64)
  ultimately show ?thesis using w(2) by metis
qed

theorem pkg_split_unaligned_witness:
  "\<exists>c'. drains (pkg_view example_word) (mwc_pkg example_static, [\<lparr>meta_length = 12, meta_isSplit = True\<rparr>])
     [\<lparr>axis_data = 7, axis_keep = - 1, axis_last = False\<rparr>, example_word] c'
     [\<lparr>axis_data = 7, axis_keep = - 1, axis_last = True\<rparr>, example_word] \<and>
   carries [\<lparr>axis_data = 7 :: 512 word, axis_keep = - 1 :: 64 word, axis_last = True\<rparr>] (word_bytes (7 :: 512 word))"
proof -
  have "carries [\<lparr>axis_data = 7 :: 512 word, axis_keep = - 1 :: 64 word, axis_last = False\<rparr>, example_word]
      (word_bytes (7 :: 512 word) @ example_bytes)"
    by (simp add: example_word_def example_bytes_def mask_eq_exp_minus_1)
  from pkg_split_unaligned [OF this, of 12 "[]" "(mwc_pkg example_static, [\<lparr>meta_length = 12, meta_isSplit = True\<rparr>])" example_word]
  show ?thesis by (simp add: example_static_def mwc_init_def pkg_loaded_def del: carries.simps)
qed

end
