(* ===== verification/Dma_Bench.thy ===== *)
theory Dma_Bench
  imports Axi_Utils Mem_Utils
begin

text \<open>
  \<^verbatim>\<open>hls/dma_bench\<close>: the benchmark engine. \<open>cmd_generator\<close> writes the memory commands of one run,
  \<open>data_generator\<close> the data of a write run, \<open>data_consumer\<close> counts the packets of a read
  run, and \<open>clock\<close> measures the cycles between the start and the end of a run. \<open>dma_bench\<close>
  is one call of the top-level function, which calls the four in order.

  \<^item> The configuration registers are arguments of every call, as in the source; whether an output
    stream is full is an argument too, since it depends on the consumer of the stream. The command
    generator checks for space before it writes; the data generator writes without a check and is blocked while
    the stream is full, and the other processes go on. The internal FIFOs have depth two.
  \<^item> The local \<open>sendWord\<close> of \<open>data_generator\<close> is uninitialised in the source and is the
    argument \<open>uninit\<close> here.
  \<^item> The comparison of the end of the next chunk with the end of the memory is computed at 65 bits
    and does not wrap; the addresses themselves are 64 bits wide.

  The lemmas give the exact sequence of commands of a run under every pattern of stalls, show
  that every command stays inside the configured memory, give the packets of a write run, and
  show that the reported number of cycles is the number of calls up to the last word of a run, those in
  which the data stream is stalled or empty included. The internal FIFOs never fill up.
\<close>

section \<open>Registers and state\<close>

record bench_regs =
  regBaseAddr :: u64
  memorySize :: u64
  numberOfAccesses :: u32
  chunkLength :: u32
  strideLength :: u32
  isWrite :: bool
  start :: bool

datatype cmdStateType = IDLE | WRITE_CMD | READ_CMD

record cmd_static =
  cg_state :: cmdStateType
  cg_isRandom :: bool
  cg_currentAddress :: u64
  cg_count :: u32

record dg_static =
  dg_state :: bool
  dg_remainingLength :: u32
  dg_count :: u32

record dc_static =
  dc_state :: bool
  dc_count :: u32

record clock_static =
  cycle_counter :: u64
  clock_running :: bool

section \<open>The four processes\<close>

text \<open>The statements that the states \<open>WRITE_CMD\<close> and \<open>READ_CMD\<close> share after the write.\<close>

definition advance :: "bench_regs \<Rightarrow> cmd_static \<Rightarrow> cmd_static" where
  "advance r st =
     (let a = (if \<not> cg_isRandom st then cg_currentAddress st + ucast (chunkLength r)
               else cg_currentAddress st + ucast (strideLength r));
          a = (if unat (regBaseAddr r) + unat (memorySize r) < unat a + unat (chunkLength r) then regBaseAddr r else a);
          c = cg_count st + 1
      in st\<lparr>cg_currentAddress := a, cg_count := c, cg_state := (if c = numberOfAccesses r then IDLE else cg_state st)\<rparr>)"

text \<open>The result is the new state and what the call writes to \<open>startSignal\<close>, \<open>m_axis_read_cmd\<close>
  and \<open>m_axis_write_cmd\<close>.\<close>

definition cmd_generator ::
  "bench_regs \<Rightarrow> bool \<Rightarrow> bool \<Rightarrow> bool \<Rightarrow> cmd_static \<Rightarrow> cmd_static \<times> bool list \<times> memCmd list \<times> memCmd list" where
  "cmd_generator r startSignal_full read_cmd_full write_cmd_full st =
     (case cg_state st of
        IDLE \<Rightarrow>
          (if start r \<and> \<not> startSignal_full then
             (st\<lparr>cg_isRandom := (strideLength r \<noteq> 0), cg_currentAddress := regBaseAddr r, cg_count := 0,
                 cg_state := (if isWrite r then WRITE_CMD else READ_CMD)\<rparr>, [True], [], [])
           else (st, [], [], []))
      | WRITE_CMD \<Rightarrow>
          (if \<not> write_cmd_full
           then (advance r st, [], [], [\<lparr>cmd_addr = cg_currentAddress st, cmd_len = chunkLength r\<rparr>])
           else (st, [], [], []))
      | READ_CMD \<Rightarrow>
          (if \<not> read_cmd_full
           then (advance r st, [], [\<lparr>cmd_addr = cg_currentAddress st, cmd_len = chunkLength r\<rparr>], [])
           else (st, [], [], [])))"

text \<open>The write of the word blocks while \<open>m_axis_write_data\<close> is full: the state is kept and the word is written by
  the first call that finds space.\<close>

definition data_generator ::
  "(512, 64) axis \<Rightarrow> u32 \<Rightarrow> u32 \<Rightarrow> bool \<Rightarrow> bool \<Rightarrow> bool \<Rightarrow> dg_static \<Rightarrow> dg_static \<times> bool list \<times> (512, 64) axis list" where
  "data_generator uninit nAccesses chunk isWr st_start write_data_full st =
     (if \<not> dg_state st then
        (if st_start \<and> isWr then (\<lparr>dg_state = True, dg_remainingLength = chunk, dg_count = 0\<rparr>, [], [])
         else (st, [], []))
      else if write_data_full then (st, [], [])
      else
        let sendWord = uninit\<lparr>
              axis_data := fold (\<lambda>i t. range_set (i*8+7) (i*8) (of_nat (unat (dg_count st) + i) :: u8) t) [0..<64] (axis_data uninit),
              axis_keep := fold (\<lambda>i t. if i < unat (dg_remainingLength st) then range_set i i (1 :: 1 word) t else t)
                             [0..<64] (axis_keep uninit),
              axis_last := (dg_remainingLength st \<le> 64)\<rparr>;
            remaining = (if axis_last sendWord then chunk else dg_remainingLength st - 64);
            count = (if axis_last sendWord then dg_count st + 1 else dg_count st)
        in (\<lparr>dg_state = (count \<noteq> nAccesses), dg_remainingLength = remaining, dg_count = count\<rparr>,
            if count = nAccesses then [True] else [], [sendWord]))"

definition data_consumer ::
  "u32 \<Rightarrow> bool \<Rightarrow> bool \<Rightarrow> dc_static \<Rightarrow> (512, 64) axis list \<Rightarrow> dc_static \<times> (512, 64) axis list \<times> bool list" where
  "data_consumer nAccesses st_start isWr st readData =
     (if \<not> dc_state st then
        (if st_start \<and> \<not> isWr then (\<lparr>dc_state = True, dc_count = 0\<rparr>, readData, []) else (st, readData, []))
      else
        (case readData of
           [] \<Rightarrow> (st, [], [])
         | currWord # rest \<Rightarrow>
             let count = (if axis_last currWord then dc_count st + 1 else dc_count st)
             in (\<lparr>dc_state = (count \<noteq> nAccesses), dc_count = count\<rparr>, rest, if count = nAccesses then [True] else [])))"

definition clock ::
  "clock_static \<Rightarrow> bool list \<Rightarrow> bool list \<Rightarrow> bool list \<Rightarrow> u64 \<Rightarrow>
     clock_static \<times> bool list \<times> bool list \<times> bool list \<times> u64" where
  "clock st startSignal readDone writeDone regExecutionCycles =
     (let st = (if clock_running st then st\<lparr>cycle_counter := cycle_counter st + 1\<rparr> else st);
          (st, startSignal) = (case startSignal of [] \<Rightarrow> (st, []) | _ # rest \<Rightarrow> (\<lparr>cycle_counter = 0, clock_running = True\<rparr>, rest));
          (st, readDone, reg) = (case readDone of [] \<Rightarrow> (st, [], regExecutionCycles)
             | _ # rest \<Rightarrow> (st\<lparr>clock_running := False\<rparr>, rest, cycle_counter st));
          (st, writeDone, reg) = (case writeDone of [] \<Rightarrow> (st, [], reg)
             | _ # rest \<Rightarrow> (st\<lparr>clock_running := False\<rparr>, rest, cycle_counter st))
      in (st, startSignal, readDone, writeDone, reg))"

section \<open>The engine\<close>

record bench_state =
  b_cmd :: cmd_static
  b_dg :: dg_static
  b_dc :: dc_static
  b_clock :: clock_static
  b_startSignal :: "bool list"
  b_readDone :: "bool list"
  b_writeDone :: "bool list"

record bench_io =
  b_read_cmd :: "memCmd list"
  b_write_cmd :: "memCmd list"
  b_write_data :: "(512, 64) axis list"
  b_read_data :: "(512, 64) axis list"
  b_regExecutionCycles :: u64

definition dma_bench ::
  "(512, 64) axis \<Rightarrow> bench_regs \<Rightarrow> bool \<Rightarrow> bool \<Rightarrow> bool \<Rightarrow> bench_state \<times> bench_io \<Rightarrow> bench_state \<times> bench_io" where
  "dma_bench uninit r read_cmd_full write_cmd_full write_data_full c =
     (let (s, io) = c;
          (cmd, start_out, read_out, write_out) =
            cmd_generator r (2 \<le> length (b_startSignal s)) read_cmd_full write_cmd_full (b_cmd s);
          (dg, wdone, words) = data_generator uninit (numberOfAccesses r) (chunkLength r) (start r) (isWrite r) write_data_full (b_dg s);
          (dc, readData, rdone) = data_consumer (numberOfAccesses r) (start r) (isWrite r) (b_dc s) (b_read_data io);
          (clk, startSignal, readDone, writeDone, reg) =
            clock (b_clock s) (b_startSignal s @ start_out) (b_readDone s @ rdone) (b_writeDone s @ wdone) (b_regExecutionCycles io)
      in (\<lparr>b_cmd = cmd, b_dg = dg, b_dc = dc, b_clock = clk,
           b_startSignal = startSignal, b_readDone = readDone, b_writeDone = writeDone\<rparr>,
          \<lparr>b_read_cmd = b_read_cmd io @ read_out, b_write_cmd = b_write_cmd io @ write_out,
           b_write_data = b_write_data io @ words, b_read_data = readData, b_regExecutionCycles = reg\<rparr>))"

text \<open>The static variables before the first call; those without initialiser are arguments.\<close>

definition bench_init :: "u64 \<Rightarrow> u32 \<Rightarrow> u64 \<Rightarrow> bench_state" where
  "bench_init addr cnt cycles =
     \<lparr>b_cmd = \<lparr>cg_state = IDLE, cg_isRandom = False, cg_currentAddress = addr, cg_count = cnt\<rparr>,
      b_dg = \<lparr>dg_state = False, dg_remainingLength = 0, dg_count = 0\<rparr>,
      b_dc = \<lparr>dc_state = False, dc_count = 0\<rparr>,
      b_clock = \<lparr>cycle_counter = cycles, clock_running = False\<rparr>,
      b_startSignal = [], b_readDone = [], b_writeDone = []\<rparr>"

text \<open>The sequential composition of calls, one per element of a list of inputs: the registers
  and the three full flags of each call.\<close>

fun bench_calls :: "(512, 64) axis \<Rightarrow> (bench_regs \<times> bool \<times> bool \<times> bool) list \<Rightarrow> bench_state \<times> bench_io \<Rightarrow> bench_state \<times> bench_io" where
  "bench_calls u [] c = c"
| "bench_calls u ((r, rfull, wfull, dfull) # ins) c = bench_calls u ins (dma_bench u r rfull wfull dfull c)"

section \<open>The commands of a run\<close>

fun cmd_calls ::
  "(bench_regs \<times> bool \<times> bool \<times> bool) list \<Rightarrow> cmd_static \<Rightarrow> cmd_static \<times> bool list \<times> memCmd list \<times> memCmd list" where
  "cmd_calls [] st = (st, [], [], [])"
| "cmd_calls ((r, sfull, rfull, wfull) # ins) st =
     (case cmd_generator r sfull rfull wfull st of (st1, s1, r1, w1) \<Rightarrow>
        (case cmd_calls ins st1 of (st2, s2, r2, w2) \<Rightarrow> (st2, s1 @ s2, r1 @ r2, w1 @ w2)))"

text \<open>The distance between two accesses, the number of accesses before the address wraps around,
  the address of the \<open>i\<close>-th access and the number of accesses; the counter is compared after
  it is incremented, so that 0 stands for \<open>2 ^ 32\<close> accesses.\<close>

definition bench_step :: "bench_regs \<Rightarrow> nat" where
  "bench_step r = unat (if strideLength r = 0 then chunkLength r else strideLength r)"

definition bench_slots :: "bench_regs \<Rightarrow> nat" where
  "bench_slots r = (unat (memorySize r) - unat (chunkLength r)) div bench_step r + 1"

definition bench_addr :: "bench_regs \<Rightarrow> nat \<Rightarrow> u64" where
  "bench_addr r i = regBaseAddr r + of_nat (i mod bench_slots r * bench_step r)"

definition accesses :: "bench_regs \<Rightarrow> nat" where
  "accesses r = (if numberOfAccesses r = 0 then 2 ^ 32 else unat (numberOfAccesses r))"

text \<open>The configurations the host can use: the chunk fits into the memory, the accesses move, and
  the memory with one further step lies below \<open>2 ^ 64\<close>.\<close>

definition bench_valid :: "bench_regs \<Rightarrow> bool" where
  "bench_valid r \<longleftrightarrow> 0 < bench_step r \<and> unat (chunkLength r) \<le> unat (memorySize r) \<and>
     unat (regBaseAddr r) + (unat (memorySize r) - unat (chunkLength r)) + bench_step r < 2 ^ 64"

lemma bench_slot_fits:
  assumes "bench_valid r"
  shows "i mod bench_slots r * bench_step r + unat (chunkLength r) \<le> unat (memorySize r)"
proof -
  have "i mod bench_slots r < bench_slots r" by (simp add: bench_slots_def)
  then have "i mod bench_slots r \<le> (unat (memorySize r) - unat (chunkLength r)) div bench_step r" by (simp add: bench_slots_def)
  then have "i mod bench_slots r * bench_step r \<le> unat (memorySize r) - unat (chunkLength r)"
    by (meson div_times_less_eq_dividend le_trans mult_le_mono1)
  then show ?thesis using assms by (auto simp: bench_valid_def)
qed

lemma unat_bench_addr:
  assumes "bench_valid r"
  shows "unat (bench_addr r i) = unat (regBaseAddr r) + i mod bench_slots r * bench_step r"
    and "unat (bench_addr r i + of_nat (bench_step r)) = unat (regBaseAddr r) + Suc (i mod bench_slots r) * bench_step r"
proof -
  have lt: "unat (regBaseAddr r) + i mod bench_slots r * bench_step r + bench_step r < 2 ^ 64"
    using assms bench_slot_fits [OF assms, of i] unfolding bench_valid_def by linarith
  then show u: "unat (bench_addr r i) = unat (regBaseAddr r) + i mod bench_slots r * bench_step r"
    by (simp add: bench_addr_def unat_word_ariths unat_of_nat del: of_nat_mult)
  show "unat (bench_addr r i + of_nat (bench_step r)) = unat (regBaseAddr r) + Suc (i mod bench_slots r) * bench_step r"
    using lt by (simp add: unat_word_ariths u unat_of_nat)
qed

lemma advance_address:
  assumes "bench_valid r" and "cg_isRandom st = (strideLength r \<noteq> 0)" and "cg_currentAddress st = bench_addr r i"
  shows "cg_currentAddress (advance r st) = bench_addr r (Suc i)"
proof -
  let ?j = "i mod bench_slots r" and ?s = "bench_step r" and ?a = "bench_addr r i + of_nat (bench_step r)"
  have nxt: "(if \<not> cg_isRandom st then cg_currentAddress st + ucast (chunkLength r)
      else cg_currentAddress st + ucast (strideLength r)) = ?a"
    using assms(2,3) by (simp add: bench_step_def of_nat_unat)
  have "unat (regBaseAddr r) + unat (memorySize r) < unat ?a + unat (chunkLength r) \<longleftrightarrow>
      unat (memorySize r) - unat (chunkLength r) < Suc ?j * ?s"
    using assms(1) unat_bench_addr(2) [OF assms(1), of i] by (auto simp: bench_valid_def)
  also have "\<dots> \<longleftrightarrow> (unat (memorySize r) - unat (chunkLength r)) div ?s < Suc ?j"
    using assms(1) by (simp add: bench_valid_def div_less_iff_less_mult)
  also have "\<dots> \<longleftrightarrow> Suc ?j = bench_slots r"
    using mod_less_divisor [of "bench_slots r" i] unfolding bench_slots_def by linarith
  finally have wrap: "unat (regBaseAddr r) + unat (memorySize r) < unat ?a + unat (chunkLength r) \<longleftrightarrow> Suc ?j = bench_slots r" .
  have "cg_currentAddress (advance r st) = (if Suc ?j = bench_slots r then regBaseAddr r else ?a)"
    by (simp only: advance_def Let_def nxt wrap) simp
  then show ?thesis
    by (cases "Suc ?j = bench_slots r") (simp_all add: bench_addr_def mod_Suc algebra_simps)
qed

lemma advance_state:
  assumes "cg_count st = of_nat i" and "i < accesses r"
  shows "cg_count (advance r st) = of_nat (Suc i)"
    and "cg_state (advance r st) = (if Suc i = accesses r then IDLE else cg_state st)"
    and "cg_isRandom (advance r st) = cg_isRandom st"
proof -
  have le: "Suc i \<le> 2 ^ 32" using assms(2) unsigned_less [of "numberOfAccesses r", where 'a = nat] by (auto simp: accesses_def split: if_splits)
  have "(of_nat i + 1 :: u32) = numberOfAccesses r \<longleftrightarrow> unat (of_nat (Suc i) :: u32) = unat (numberOfAccesses r)"
    by (simp add: word_unat_eq_iff add.commute)
  also have "unat (of_nat (Suc i) :: u32) = (if Suc i = 2 ^ 32 then 0 else Suc i)"
    using le by (auto simp: unat_of_nat simp del: of_nat_Suc)
  also have "\<dots> = unat (numberOfAccesses r) \<longleftrightarrow> Suc i = accesses r"
    using le assms(2) unsigned_less [of "numberOfAccesses r", where 'a = nat]
    by (auto simp: accesses_def word_unat_eq_iff split: if_splits)
  finally have "(of_nat i + 1 :: u32) = numberOfAccesses r \<longleftrightarrow> Suc i = accesses r" .
  then show "cg_state (advance r st) = (if Suc i = accesses r then IDLE else cg_state st)"
    by (simp add: advance_def Let_def assms(1))
qed (simp_all add: advance_def Let_def assms(1))

text \<open>The phases of a run, for read and write runs alike: \<open>bench_busy r i st\<close> says that \<open>i\<close>
  commands have been written.\<close>

definition bench_busy :: "bench_regs \<Rightarrow> nat \<Rightarrow> cmd_static \<Rightarrow> bool" where
  "bench_busy r i st \<longleftrightarrow> i < accesses r \<and> cg_state st = (if isWrite r then WRITE_CMD else READ_CMD) \<and>
     cg_isRandom st = (strideLength r \<noteq> 0) \<and> cg_currentAddress st = bench_addr r i \<and> cg_count st = of_nat i"

definition bench_cmds :: "bench_regs \<Rightarrow> nat \<Rightarrow> nat \<Rightarrow> memCmd list" where
  "bench_cmds r i j = map (\<lambda>k. \<lparr>cmd_addr = bench_addr r k, cmd_len = chunkLength r\<rparr>) [i..<j]"

definition accepting :: "bench_regs \<Rightarrow> bool \<times> bool \<times> bool \<Rightarrow> bool" where
  "accepting r f = (case f of (sfull, rfull, wfull) \<Rightarrow> \<not> (if isWrite r then wfull else rfull))"

lemma cmd_generator_busy:
  assumes "bench_valid r" and "bench_busy r i st"
  shows "\<exists>st'. cmd_generator r sfull rfull wfull st =
      (let cs = (if accepting r (sfull, rfull, wfull) then bench_cmds r i (Suc i) else [])
       in (st', [], if isWrite r then [] else cs, if isWrite r then cs else [])) \<and>
    (if \<not> accepting r (sfull, rfull, wfull) then st' = st
     else if Suc i = accesses r then cg_state st' = IDLE else bench_busy r (Suc i) st')"
proof -
  from assms(2) have st: "i < accesses r" "cg_state st = (if isWrite r then WRITE_CMD else READ_CMD)"
    "cg_isRandom st = (strideLength r \<noteq> 0)" "cg_currentAddress st = bench_addr r i" "cg_count st = of_nat i"
    by (auto simp: bench_busy_def)
  note adv = advance_address [OF assms(1) st(3,4)] advance_state [OF st(5,1)]
  have "if Suc i = accesses r then cg_state (advance r st) = IDLE else bench_busy r (Suc i) (advance r st)"
    using st adv by (auto simp: bench_busy_def)
  with st show ?thesis
    by (cases "isWrite r"; cases "accepting r (sfull, rfull, wfull)")
       (simp_all add: cmd_generator_def accepting_def bench_cmds_def)
qed

lemma cmd_generator_idle:
  "cg_state st = IDLE \<Longrightarrow> \<not> start r \<Longrightarrow> cmd_generator r sfull rfull wfull st = (st, [], [], [])"
  by (simp add: cmd_generator_def)

lemma cmd_calls_idle:
  "cg_state st = IDLE \<Longrightarrow> \<not> start r \<Longrightarrow> cmd_calls (map (Pair r) fs) st = (st, [], [], [])"
  by (induction fs) (auto simp: cmd_generator_idle)

lemma cmd_calls_busy:
  "bench_valid r \<Longrightarrow> \<not> start r \<Longrightarrow> bench_busy r i st \<Longrightarrow>
   \<exists>st'. cmd_calls (map (Pair r) fs) st =
       (let cs = bench_cmds r i (min (accesses r) (i + length (filter (accepting r) fs)))
        in (st', [], if isWrite r then [] else cs, if isWrite r then cs else [])) \<and>
     (accesses r \<le> i + length (filter (accepting r) fs) \<longrightarrow> cg_state st' = IDLE)"
proof (induction fs arbitrary: i st)
  case Nil
  then show ?case by (simp add: bench_busy_def bench_cmds_def)
next
  case (Cons f fs)
  obtain sfull rfull wfull where f: "f = (sfull, rfull, wfull)" by (cases f)
  from cmd_generator_busy [OF Cons(2,4), of sfull rfull wfull] obtain st1 where
    st1: "cmd_generator r sfull rfull wfull st =
      (let cs = (if accepting r f then bench_cmds r i (Suc i) else [])
       in (st1, [], if isWrite r then [] else cs, if isWrite r then cs else []))"
    "if \<not> accepting r f then st1 = st else if Suc i = accesses r then cg_state st1 = IDLE else bench_busy r (Suc i) st1"
    unfolding f by blast
  have i: "i < accesses r" using Cons(4) by (simp add: bench_busy_def)
  consider "\<not> accepting r f" | "accepting r f" "Suc i = accesses r" | "accepting r f" "bench_busy r (Suc i) st1"
    using st1(2) by (auto split: if_splits)
  then show ?case
  proof cases
    case 1
    with st1 Cons.IH [OF Cons(2,3,4)] show ?thesis by (auto simp: f Let_def)
  next
    case 2
    then have "cg_state st1 = IDLE" using st1(2) by simp
    with 2 st1(1) Cons(3) show ?thesis by (simp add: f cmd_calls_idle bench_cmds_def min_def Let_def)
  next
    case 3
    have "bench_cmds r i (Suc i) @ bench_cmds r (Suc i) n = bench_cmds r i n" if "Suc i \<le> n" for n
      using that by (simp add: bench_cmds_def upt_conv_Cons)
    with 3 st1(1) Cons.IH [OF Cons(2,3) 3(2)] i show ?thesis by (auto simp: f Let_def)
  qed
qed

lemma cmd_calls_run:
  assumes "bench_valid r" and "\<not> start r" and "cg_state st = IDLE"
  shows "\<exists>st'. cmd_calls ((r\<lparr>start := True\<rparr>, False, rfull, wfull) # map (Pair r) fs) st =
       (let cs = bench_cmds r 0 (min (accesses r) (length (filter (accepting r) fs)))
        in (st', [True], if isWrite r then [] else cs, if isWrite r then cs else [])) \<and>
     (accesses r \<le> length (filter (accepting r) fs) \<longrightarrow> cg_state st' = IDLE)"
proof -
  let ?st = "st\<lparr>cg_isRandom := (strideLength r \<noteq> 0), cg_currentAddress := regBaseAddr r, cg_count := 0,
      cg_state := (if isWrite r then WRITE_CMD else READ_CMD)\<rparr>"
  have first: "cmd_generator (r\<lparr>start := True\<rparr>) False rfull wfull st = (?st, [True], [], [])"
    using assms(3) by (simp add: cmd_generator_def)
  have "unat (numberOfAccesses r) = 0 \<longleftrightarrow> numberOfAccesses r = 0" by (simp add: word_unat_eq_iff)
  then have "bench_busy r 0 ?st" by (auto simp: bench_busy_def bench_addr_def accesses_def)
  from cmd_calls_busy [OF assms(1,2) this, of fs] first show ?thesis by (auto simp: Let_def)
qed

section \<open>The data of a write run\<close>

text \<open>Calls that find space in the data stream.\<close>

fun dg_calls ::
  "(512, 64) axis \<Rightarrow> u32 \<Rightarrow> u32 \<Rightarrow> bool \<Rightarrow> bool \<Rightarrow> nat \<Rightarrow> dg_static \<Rightarrow> dg_static \<times> bool list \<times> (512, 64) axis list" where
  "dg_calls u N chunk isWr go 0 st = (st, [], [])"
| "dg_calls u N chunk isWr go (Suc n) st =
     (case data_generator u N chunk isWr go False st of (st1, d1, w1) \<Rightarrow>
        (case dg_calls u N chunk isWr go n st1 of (st2, d2, w2) \<Rightarrow> (st2, d1 @ d2, w1 @ w2)))"

text \<open>The packet of the \<open>c\<close>-th access, of \<open>n\<close> bytes, and the number of words it takes.\<close>

definition dg_bytes :: "nat \<Rightarrow> nat \<Rightarrow> u8 list" where
  "dg_bytes c n = map (\<lambda>i. of_nat (c + i mod 64)) [0..<n]"

definition words_of :: "nat \<Rightarrow> nat" where
  "words_of n = (n + 63) div 64"

lemma dg_calls_add:
  "dg_calls u N chunk isWr go n st = (st1, d1, w1) \<Longrightarrow> dg_calls u N chunk isWr go m st1 = (st2, d2, w2) \<Longrightarrow>
   dg_calls u N chunk isWr go (n + m) st = (st2, d1 @ d2, w1 @ w2)"
  by (induction n arbitrary: st d1 w1) (auto split: prod.splits)

lemma bit_keep_loop:
  "j < 64 \<Longrightarrow> bit (fold (\<lambda>i t. if i < n then range_set i i (1 :: 1 word) t else t) [0..<m] (k :: 64 word)) j \<longleftrightarrow>
     (if j < m \<and> j < n then True else bit k j)"
  by (induction m) (auto simp: bit_range_set less_Suc_eq)

lemma keep_loop:
  "fold (\<lambda>i t. if i < n then range_set i i (1 :: 1 word) t else t) [0..<64] (0 :: 64 word) = mask n"
  by (rule bit_word_eqI) (simp add: bit_keep_loop bit_mask_iff)

lemma data_loop:
  fixes t :: "512 word"
  shows "word_bytes (fold (\<lambda>i t. range_set (i*8+7) (i*8) (of_nat (c + i) :: u8) t) [0..<64] t) = map (\<lambda>i. of_nat (c + i)) [0..<64]"
proof (rule nth_equalityI)
  fix i assume "i < length (word_bytes (fold (\<lambda>i t. range_set (i*8+7) (i*8) (of_nat (c + i) :: u8) t) [0..<64] t))"
  then have i: "i < 64" by simp
  have "byte_at (fold (\<lambda>i t. range_set (i*8+7) (i*8) (of_nat (c + i) :: u8) t) [0..<64] t) i = of_nat (c + i)"
  proof (rule bit_word_eqI)
    fix n assume n: "n < LENGTH(8)"
    then have "8 * i + n < 512" "(8 * i + n) div 8 = i" "(8 * i + n) mod 8 = n" using i by auto
    then show "bit (byte_at (fold (\<lambda>i t. range_set (i*8+7) (i*8) (of_nat (c + i) :: u8) t) [0..<64] t) i) n = bit (of_nat (c + i) :: u8) n"
      using n by (simp add: bit_byte_at bit_fold_bytes [where f = "\<lambda>i. of_nat (c + i)"] del: of_nat_add)
  qed
  then show "word_bytes (fold (\<lambda>i t. range_set (i*8+7) (i*8) (of_nat (c + i) :: u8) t) [0..<64] t) ! i = map (\<lambda>i. of_nat (c + i)) [0..<64] ! i"
    using i by simp
qed simp

lemma data_generator_word:
  assumes "dg_state st" and "axis_keep u = 0"
  obtains w where "data_generator u N chunk isWr go False st =
      (let count = (if dg_remainingLength st \<le> 64 then dg_count st + 1 else dg_count st)
       in (\<lparr>dg_state = (count \<noteq> N), dg_remainingLength = (if dg_remainingLength st \<le> 64 then chunk else dg_remainingLength st - 64),
            dg_count = count\<rparr>, if count = N then [True] else [], [w]))"
    and "word_bytes (axis_data w) = map (\<lambda>i. of_nat (unat (dg_count st) + i)) [0..<64]"
    and "axis_keep w = mask (unat (dg_remainingLength st))" and "axis_last w \<longleftrightarrow> dg_remainingLength st \<le> 64"
proof -
  let ?w = "u\<lparr>axis_data := fold (\<lambda>i t. range_set (i*8+7) (i*8) (of_nat (unat (dg_count st) + i) :: u8) t) [0..<64] (axis_data u),
     axis_keep := mask (unat (dg_remainingLength st)), axis_last := (dg_remainingLength st \<le> 64)\<rparr>"
  show thesis
    by (rule that [of ?w]) (use assms data_loop [of "unat (dg_count st)" "axis_data u"] in
        \<open>simp_all add: data_generator_def Let_def keep_loop del: of_nat_add\<close>)
qed

lemma dg_bytes_short: "n \<le> 64 \<Longrightarrow> dg_bytes c n = take n (map (\<lambda>i. of_nat (c + i)) [0..<64])"
  by (intro nth_equalityI) (auto simp: dg_bytes_def)

lemma dg_bytes_long:
  assumes "64 < n"
  shows "take 64 (dg_bytes c n) = map (\<lambda>i. of_nat (c + i)) [0..<64]" and "drop 64 (dg_bytes c n) = dg_bytes c (n - 64)"
  using assms by (auto intro!: nth_equalityI simp: dg_bytes_def)

lemma length_dg_bytes [simp]: "length (dg_bytes c n) = n"
  by (simp add: dg_bytes_def)

lemma dg_packet:
  assumes "axis_keep u = 0"
  shows "0 < n \<Longrightarrow> dg_state st \<Longrightarrow> unat (dg_remainingLength st) = n \<Longrightarrow> dg_count st \<noteq> N \<Longrightarrow>
    \<exists>ws. dg_calls u N chunk isWr go (words_of n) st =
        (\<lparr>dg_state = (dg_count st + 1 \<noteq> N), dg_remainingLength = chunk, dg_count = dg_count st + 1\<rparr>,
         if dg_count st + 1 = N then [True] else [], ws) \<and>
      carries ws (dg_bytes (unat (dg_count st)) n) \<and> length ws = words_of n"
proof (induction n arbitrary: st rule: less_induct)
  case (less n)
  obtain w where step: "data_generator u N chunk isWr go False st =
      (let count = (if dg_remainingLength st \<le> 64 then dg_count st + 1 else dg_count st)
       in (\<lparr>dg_state = (count \<noteq> N), dg_remainingLength = (if dg_remainingLength st \<le> 64 then chunk else dg_remainingLength st - 64),
            dg_count = count\<rparr>, if count = N then [True] else [], [w]))"
    and w: "word_bytes (axis_data w) = map (\<lambda>i. of_nat (unat (dg_count st) + i)) [0..<64]"
      "axis_keep w = mask (unat (dg_remainingLength st))" "axis_last w \<longleftrightarrow> dg_remainingLength st \<le> 64"
    by (rule data_generator_word [OF less(3) assms])
  show ?case
  proof (cases "n \<le> 64")
    case True
    then have l: "dg_remainingLength st \<le> 64" using less(4) by (simp add: word_le_nat_alt)
    have "words_of n = 1" using True less(2) by (simp add: words_of_def)
    moreover have "carries [w] (dg_bytes (unat (dg_count st)) n)"
      using True w l less(2,4) dg_bytes_short [OF True, of "unat (dg_count st)"] by simp
    ultimately show ?thesis using step l by (simp add: Let_def)
  next
    case False
    let ?st = "\<lparr>dg_state = True, dg_remainingLength = dg_remainingLength st - 64, dg_count = dg_count st\<rparr>"
    have l: "\<not> dg_remainingLength st \<le> 64" "unat (dg_remainingLength st - 64) = n - 64"
      using False less(4) by (auto simp: word_le_nat_alt unat_sub)
    have k: "words_of n = Suc (words_of (n - 64))" using False by (simp add: words_of_def)
    from step l less(5) have s1: "data_generator u N chunk isWr go False st = (?st, [], [w])" by (simp add: Let_def)
    from less(1) [of "n - 64" ?st] False l(2) less(2,5) obtain ws where
      ws: "dg_calls u N chunk isWr go (words_of (n - 64)) ?st =
        (\<lparr>dg_state = (dg_count st + 1 \<noteq> N), dg_remainingLength = chunk, dg_count = dg_count st + 1\<rparr>,
         if dg_count st + 1 = N then [True] else [], ws)"
      "carries ws (dg_bytes (unat (dg_count st)) (n - 64))" "length ws = words_of (n - 64)" by auto
    have keep: "axis_keep w = - 1" using False w(2) less(4) by (intro bit_word_eqI) (auto simp: bit_simps)
    obtain x xs where "ws = x # xs" using ws(2) by (cases ws) auto
    then have "carries (w # ws) (dg_bytes (unat (dg_count st)) n)"
      using False ws(2) w l keep dg_bytes_long [of n "unat (dg_count st)"] by simp
    then show ?thesis using s1 ws(1,3) by (simp add: k)
  qed
qed

lemma next_packet:
  fixes N :: u32
  assumes "k < unat N"
  shows "of_nat k \<noteq> N" and "of_nat k + 1 = N \<longleftrightarrow> Suc k = unat N"
proof -
  have c: "unat (of_nat k :: u32) = k" using assms unsigned_less [of N, where 'a = nat] by (simp add: unat_of_nat)
  then show "of_nat k \<noteq> N" using assms by auto
  show "of_nat k + 1 = N \<longleftrightarrow> Suc k = unat N"
    using assms unsigned_less [of N, where 'a = nat] by (auto simp: word_unat_eq_iff unat_word_ariths c)
qed

lemma dg_packets:
  fixes N chunk :: u32
  assumes u: "axis_keep u = 0" and chunk: "0 < unat chunk"
  shows "c < unat N \<Longrightarrow>
    \<exists>wss. dg_calls u N chunk isWr go ((unat N - c) * words_of (unat chunk)) \<lparr>dg_state = True, dg_remainingLength = chunk, dg_count = of_nat c\<rparr> =
        (\<lparr>dg_state = False, dg_remainingLength = chunk, dg_count = N\<rparr>, [True], concat wss) \<and>
      list_all2 carries wss (map (\<lambda>i. dg_bytes i (unat chunk)) [c..<unat N]) \<and>
      length (concat wss) = (unat N - c) * words_of (unat chunk)"
proof (induction "unat N - c" arbitrary: c)
  case 0
  then show ?case by simp
next
  case (Suc k)
  let ?st = "\<lambda>c. \<lparr>dg_state = True, dg_remainingLength = chunk, dg_count = of_nat c\<rparr>" and ?n = "words_of (unat chunk)"
  have c: "unat (of_nat c :: u32) = c" using Suc(3) unsigned_less [of N, where 'a = nat] by (simp add: unat_of_nat)
  note ne = next_packet(1) [OF Suc(3)] and next_N = next_packet(2) [OF Suc(3)]
  from dg_packet [OF u chunk, of "?st c" N chunk isWr go] ne c obtain ws where
    ws: "dg_calls u N chunk isWr go ?n (?st c) =
      (\<lparr>dg_state = (of_nat c + 1 \<noteq> N), dg_remainingLength = chunk, dg_count = of_nat c + 1\<rparr>, if of_nat c + 1 = N then [True] else [], ws)"
    "carries ws (dg_bytes c (unat chunk))" "length ws = ?n" by auto
  have upt: "[c..<unat N] = c # [Suc c..<unat N]" using Suc(3) by (simp add: upt_conv_Cons)
  show ?case
  proof (cases "Suc c = unat N")
    case True
    then have n: "(unat N - c) * ?n = ?n" "[Suc c..<unat N] = []" by auto
    from True next_N have "of_nat c + 1 = N" by simp
    with ws show ?thesis unfolding n(1) by (intro exI [of _ "[ws]"]) (simp add: upt n(2))
  next
    case False
    have "k = unat N - Suc c" "Suc c < unat N" using Suc(2,3) False by auto
    from Suc(1) [OF this] obtain wss where
      wss: "dg_calls u N chunk isWr go ((unat N - Suc c) * ?n) (?st (Suc c)) =
        (\<lparr>dg_state = False, dg_remainingLength = chunk, dg_count = N\<rparr>, [True], concat wss)"
      "list_all2 carries wss (map (\<lambda>i. dg_bytes i (unat chunk)) [Suc c..<unat N])"
      "length (concat wss) = (unat N - Suc c) * ?n" by blast
    have k: "(unat N - c) * ?n = ?n + (unat N - Suc c) * ?n" using Suc(3) by (simp flip: mult_Suc add: Suc_diff_Suc)
    have eq: "?st (Suc c) = \<lparr>dg_state = (of_nat c + 1 \<noteq> N), dg_remainingLength = chunk, dg_count = of_nat c + 1\<rparr>"
      using False next_N by (simp add: add.commute)
    from dg_calls_add [OF ws(1) wss(1) [unfolded eq]] next_N False
    have "dg_calls u N chunk isWr go ((unat N - c) * ?n) (?st c) =
        (\<lparr>dg_state = False, dg_remainingLength = chunk, dg_count = N\<rparr>, [True], concat (ws # wss))" by (simp add: k)
    then show ?thesis using ws wss by (intro exI [of _ "ws # wss"]) (simp add: upt k)
  qed
qed

text \<open>A run that writes a word in every call has not signalled its end before the last one.\<close>

lemma data_generator_idle: "\<not> dg_state st \<Longrightarrow> \<not> (isWr \<and> go) \<Longrightarrow> data_generator u N chunk isWr go full st = (st, [], [])"
  by (auto simp: data_generator_def)

lemma data_generator_stalled: "\<not> (isWr \<and> go) \<Longrightarrow> data_generator u N chunk isWr go True st = (st, [], [])"
  by (auto simp: data_generator_def)

lemma dg_calls_idle: "\<not> dg_state st \<Longrightarrow> \<not> (isWr \<and> go) \<Longrightarrow> dg_calls u N chunk isWr go n st = (st, [], [])"
  by (induction n) (simp_all add: data_generator_idle)

lemma dg_calls_length: "length (snd (snd (dg_calls u N chunk isWr go n st))) \<le> n"
proof (induction n arbitrary: st)
  case 0
  then show ?case by simp
next
  case (Suc n)
  obtain st1 d1 w1 where s1: "data_generator u N chunk isWr go False st = (st1, d1, w1)" by (metis prod_cases3)
  then have "length w1 \<le> 1" by (auto simp: data_generator_def Let_def split: if_splits)
  with Suc [of st1] s1 show ?case by (auto split: prod.splits)
qed

lemma dg_last_call:
  "\<not> (isWr \<and> go) \<Longrightarrow> dg_calls u N chunk isWr go (Suc n) st = (st', ds, ws) \<Longrightarrow> length ws = Suc n \<Longrightarrow>
   \<exists>st1 w1 w. dg_calls u N chunk isWr go n st = (st1, [], w1) \<and> data_generator u N chunk isWr go False st1 = (st', ds, [w]) \<and> ws = w1 @ [w]"
proof (induction n arbitrary: st ds ws)
  case 0
  then show ?case by (auto simp: length_Suc_conv split: prod.splits)
next
  case (Suc n)
  obtain st1 d1 w1 where s1: "data_generator u N chunk isWr go False st = (st1, d1, w1)" by (metis prod_cases3)
  obtain d2 w2 where s2: "dg_calls u N chunk isWr go (Suc n) st1 = (st', d2, w2)" "ds = d1 @ d2" "ws = w1 @ w2"
    using Suc(3) s1 by (auto split: prod.splits simp del: dg_calls.simps(2) simp: dg_calls.simps(2) [of _ _ _ _ _ "Suc n"])
  have l: "length w1 \<le> 1" "d1 \<noteq> [] \<Longrightarrow> \<not> dg_state st1"
    using s1 by (auto simp: data_generator_def Let_def split: if_splits)
  have "d1 = []"
  proof (rule ccontr)
    assume "d1 \<noteq> []"
    then have "w2 = []" using l(2) s2(1) dg_calls_idle [of st1 isWr go u N chunk "Suc n"] Suc(2) by simp
    then show False using Suc(4) s2(3) l(1) by simp
  qed
  moreover have "length w2 \<le> Suc n" using dg_calls_length [of u N chunk isWr go "Suc n" st1] s2(1) by simp
  then have "length w2 = Suc n" using Suc(4) s2(3) l(1) by simp
  from Suc(1) [OF Suc(2) s2(1) this] obtain st2 v w where
    "dg_calls u N chunk isWr go n st1 = (st2, [], v)" "data_generator u N chunk isWr go False st2 = (st', d2, [w])" "w2 = v @ [w]" by blast
  ultimately show ?case using s1 s2 by auto
qed

section \<open>The engine\<close>

text \<open>Between the start and the end of a write run the clock runs and the signals are consumed.\<close>

definition bench_running :: "u64 \<Rightarrow> bench_state \<Rightarrow> bool" where
  "bench_running t s \<longleftrightarrow> b_startSignal s = [] \<and> b_readDone s = [] \<and> b_writeDone s = [] \<and> \<not> dc_state (b_dc s) \<and>
     b_clock s = \<lparr>cycle_counter = t, clock_running = True\<rparr>"

lemma cmd_generator_no_start: "\<not> start r \<Longrightarrow> \<exists>st' rd wr. cmd_generator r sfull rfull wfull st = (st', [], rd, wr)"
  by (cases "cg_state st") (simp_all add: cmd_generator_def)

lemma dma_bench_running:
  assumes "\<not> start r" and "bench_running t s"
    and "data_generator u (numberOfAccesses r) (chunkLength r) (start r) (isWrite r) dfull (b_dg s) = (dg, d, ws)" and "d = [] \<or> d = [True]"
  shows "\<exists>s' io'. dma_bench u r rfull wfull dfull (s, io) = (s', io') \<and> b_dg s' = dg \<and> b_write_data io' = b_write_data io @ ws \<and>
    (if d = [] then bench_running (t + 1) s' \<and> b_regExecutionCycles io' = b_regExecutionCycles io
     else b_clock s' = \<lparr>cycle_counter = t + 1, clock_running = False\<rparr> \<and> b_regExecutionCycles io' = t + 1)"
proof -
  obtain cmd rd wr where cmd: "cmd_generator r (2 \<le> length (b_startSignal s)) rfull wfull (b_cmd s) = (cmd, [], rd, wr)"
    using cmd_generator_no_start [OF assms(1)] by blast
  have dc: "data_consumer (numberOfAccesses r) (start r) (isWrite r) (b_dc s) (b_read_data io) = (b_dc s, b_read_data io, [])"
    using assms(1,2) by (simp add: data_consumer_def bench_running_def)
  have clk: "clock (b_clock s) [] [] d (b_regExecutionCycles io) =
      (\<lparr>cycle_counter = t + 1, clock_running = (d = [])\<rparr>, [], [], [], if d = [] then b_regExecutionCycles io else t + 1)"
    using assms(2,4) by (auto simp: clock_def bench_running_def)
  from assms(2) have s: "b_startSignal s = []" "b_readDone s = []" "b_writeDone s = []" "\<not> dc_state (b_dc s)"
    by (simp_all add: bench_running_def)
  show ?thesis
    unfolding dma_bench_def Let_def
    by (simp only: split cmd assms(3) dc) (simp add: s clk bench_running_def)
qed

text \<open>The number of calls that find space in the data stream.\<close>

definition unstalled :: "(bool \<times> bool \<times> bool) list \<Rightarrow> nat" where
  "unstalled fs = length (filter (\<lambda>(rfull, wfull, dfull). \<not> dfull) fs)"

lemma unstalled_simps [simp]:
  "unstalled [] = 0" "unstalled ((rfull, wfull, dfull) # fs) = (if dfull then unstalled fs else Suc (unstalled fs))"
  "unstalled (fs @ gs) = unstalled fs + unstalled gs"
  by (simp_all add: unstalled_def)

lemma bench_calls_running:
  "\<not> start r \<Longrightarrow> bench_running t s \<Longrightarrow>
   dg_calls u (numberOfAccesses r) (chunkLength r) (start r) (isWrite r) (unstalled fs) (b_dg s) = (dg, [], ws) \<Longrightarrow>
   \<exists>s' io'. bench_calls u (map (Pair r) fs) (s, io) = (s', io') \<and> b_dg s' = dg \<and> b_write_data io' = b_write_data io @ ws \<and>
     bench_running (t + of_nat (length fs)) s' \<and> b_regExecutionCycles io' = b_regExecutionCycles io"
proof (induction fs arbitrary: t s io ws)
  case Nil
  then show ?case by simp
next
  case (Cons f fs)
  obtain rfull wfull dfull where f: "f = (rfull, wfull, dfull)" by (cases f) auto
  obtain dg1 w1 w2 where s1: "data_generator u (numberOfAccesses r) (chunkLength r) (start r) (isWrite r) dfull (b_dg s) = (dg1, [], w1)"
    and s2: "dg_calls u (numberOfAccesses r) (chunkLength r) (start r) (isWrite r) (unstalled fs) dg1 = (dg, [], w2)" and ws: "ws = w1 @ w2"
  proof (cases dfull)
    case True
    with Cons(2,4) that [of "b_dg s" "[]" ws] show thesis by (simp add: f data_generator_stalled)
  next
    case False
    with Cons(4) that show thesis by (auto simp: f split: prod.splits)
  qed
  from dma_bench_running [OF Cons(2,3) s1, of rfull wfull io] obtain s' io' where
    st: "dma_bench u r rfull wfull dfull (s, io) = (s', io')" "b_dg s' = dg1" "b_write_data io' = b_write_data io @ w1" "bench_running (t + 1) s'"
      "b_regExecutionCycles io' = b_regExecutionCycles io" by auto
  from Cons(1) [OF Cons(2) st(4), of w2 io'] s2 st(2) obtain s2 io2 where
    "bench_calls u (map (Pair r) fs) (s', io') = (s2, io2)" "b_dg s2 = dg" "b_write_data io2 = b_write_data io' @ w2"
    "bench_running (t + 1 + of_nat (length fs)) s2" "b_regExecutionCycles io2 = b_regExecutionCycles io'" by auto
  then show ?case using st by (simp add: f ws algebra_simps)
qed

section \<open>Read runs and the internal FIFOs\<close>

text \<open>Every process writes at most one signal per call, and the clock takes one from each FIFO.\<close>

lemma signals_written:
  "length (fst (snd (cmd_generator r sfull rfull wfull cg))) \<le> 1"
  "length (fst (snd (data_generator u N chunk isWr go dfull dg))) \<le> 1"
  "length (snd (snd (data_consumer N go isWr dc q))) \<le> 1"
  by (simp_all add: cmd_generator_def data_generator_def data_consumer_def Let_def split: cmdStateType.split list.split)

lemma clock_drains:
  assumes "length ss \<le> 1" and "length rs \<le> 1" and "length ws \<le> 1"
  shows "\<exists>st' reg'. clock st ss rs ws reg = (st', [], [], [], reg')"
  using assms by (cases ss; cases rs; cases ws) (simp_all add: clock_def Let_def)

text \<open>The three internal FIFOs are empty between two calls.\<close>

definition fifos_empty :: "bench_state \<Rightarrow> bool" where
  "fifos_empty s \<longleftrightarrow> b_startSignal s = [] \<and> b_readDone s = [] \<and> b_writeDone s = []"

lemma dma_bench_fifos:
  assumes "fifos_empty s"
  shows "fifos_empty (fst (dma_bench u r rfull wfull dfull (s, io)))"
proof -
  obtain cmd st rd wr where cmd: "cmd_generator r (2 \<le> length (b_startSignal s)) rfull wfull (b_cmd s) = (cmd, st, rd, wr)"
    by (metis prod_cases4)
  obtain dg wd ws where dg: "data_generator u (numberOfAccesses r) (chunkLength r) (start r) (isWrite r) dfull (b_dg s) = (dg, wd, ws)"
    by (metis prod_cases3)
  obtain dc q rn where dc: "data_consumer (numberOfAccesses r) (start r) (isWrite r) (b_dc s) (b_read_data io) = (dc, q, rn)"
    by (metis prod_cases3)
  have "length st \<le> 1" "length wd \<le> 1" "length rn \<le> 1"
    using signals_written(1) [of r "2 \<le> length (b_startSignal s)" rfull wfull "b_cmd s"]
      signals_written(2) [of u "numberOfAccesses r" "chunkLength r" "start r" "isWrite r" dfull "b_dg s"]
      signals_written(3) [of "numberOfAccesses r" "start r" "isWrite r" "b_dc s" "b_read_data io"]
    by (simp_all add: cmd dg dc)
  from clock_drains [OF this(1,3,2), of "b_clock s" "b_regExecutionCycles io"] obtain clk reg where
    clk: "clock (b_clock s) st rn wd (b_regExecutionCycles io) = (clk, [], [], [], reg)" by blast
  from assms have "b_startSignal s = []" "b_readDone s = []" "b_writeDone s = []" by (simp_all add: fifos_empty_def)
  then show ?thesis
    unfolding dma_bench_def Let_def split cmd dg dc by (simp add: clk fifos_empty_def)
qed

text \<open>The number of packets that end in a list of words.\<close>

definition packets :: "(512, 64) axis list \<Rightarrow> nat" where
  "packets ws = length (filter axis_last ws)"

lemma packets_simps [simp]: "packets [] = 0" "packets (w # ws) = (if axis_last w then Suc (packets ws) else packets ws)"
  by (simp_all add: packets_def)

text \<open>A queue from which every call takes one word if there is one, after the words that arrive
  before the call have been added: the words taken and the words left.\<close>

fun consumed :: "(512, 64) axis list \<Rightarrow> (512, 64) axis list list \<Rightarrow> (512, 64) axis list \<times> (512, 64) axis list" where
  "consumed q [] = ([], q)"
| "consumed q (a # as) = (case q @ a of [] \<Rightarrow> consumed [] as | w # q' \<Rightarrow> apfst ((#) w) (consumed q' as))"

text \<open>Calls of the engine between which words arrive on \<open>s_axis_read_data\<close>.\<close>

fun bench_feed :: "(512, 64) axis \<Rightarrow> ((512, 64) axis list \<times> bench_regs \<times> bool \<times> bool \<times> bool) list \<Rightarrow> bench_state \<times> bench_io \<Rightarrow> bench_state \<times> bench_io" where
  "bench_feed u [] c = c"
| "bench_feed u ((a, r, rfull, wfull, dfull) # ins) (s, io) =
     bench_feed u ins (dma_bench u r rfull wfull dfull (s, io\<lparr>b_read_data := b_read_data io @ a\<rparr>))"

lemma bench_feed_append: "bench_feed u (xs @ ys) c = bench_feed u ys (bench_feed u xs c)"
  by (induction u xs c rule: bench_feed.induct) simp_all

text \<open>A read run that has received \<open>k\<close> packets after \<open>t\<close> calls.\<close>

definition bench_reading :: "u64 \<Rightarrow> nat \<Rightarrow> bench_state \<Rightarrow> bool" where
  "bench_reading t k s \<longleftrightarrow> b_startSignal s = [] \<and> b_readDone s = [] \<and> b_writeDone s = [] \<and> \<not> dg_state (b_dg s) \<and>
     b_dc s = \<lparr>dc_state = True, dc_count = of_nat k\<rparr> \<and> b_clock s = \<lparr>cycle_counter = t, clock_running = True\<rparr>"

lemma bench_first_read_call:
  assumes "\<not> isWrite r"
  shows "\<exists>s. dma_bench u (r\<lparr>start := True\<rparr>) rfull wfull dfull (bench_init a c t, io) = (s, io) \<and> bench_reading 0 0 s"
  using assms
  by (simp add: dma_bench_def bench_init_def bench_reading_def cmd_generator_def data_generator_def data_consumer_def clock_def)

text \<open>One call of a read run that has received \<open>k\<close> packets.\<close>

lemma dma_bench_reading:
  assumes "\<not> start r" and "bench_reading t k s" and "k < unat (numberOfAccesses r)"
  shows "\<exists>s' io'. dma_bench u r rfull wfull dfull (s, io) = (s', io') \<and>
    b_write_data io' = b_write_data io \<and> b_read_data io' = tl (b_read_data io) \<and>
    (let k' = k + packets (take 1 (b_read_data io))
     in if k' < unat (numberOfAccesses r)
        then bench_reading (t + 1) k' s' \<and> b_regExecutionCycles io' = b_regExecutionCycles io
        else b_clock s' = \<lparr>cycle_counter = t + 1, clock_running = False\<rparr> \<and> b_regExecutionCycles io' = t + 1 \<and>
          \<not> dc_state (b_dc s'))"
proof -
  obtain cmd rd wr where cmd: "cmd_generator r (2 \<le> length (b_startSignal s)) rfull wfull (b_cmd s) = (cmd, [], rd, wr)"
    using cmd_generator_no_start [OF assms(1)] by blast
  from assms(2) have s: "b_startSignal s = []" "b_readDone s = []" "b_writeDone s = []" "\<not> dg_state (b_dg s)"
    "b_dc s = \<lparr>dc_state = True, dc_count = of_nat k\<rparr>" "b_clock s = \<lparr>cycle_counter = t, clock_running = True\<rparr>"
    by (simp_all add: bench_reading_def)
  have dg: "data_generator u (numberOfAccesses r) (chunkLength r) (start r) (isWrite r) dfull (b_dg s) = (b_dg s, [], [])"
    using s(4) assms(1) by (simp add: data_generator_idle)
  let ?k = "k + packets (take 1 (b_read_data io))"
  have dc: "data_consumer (numberOfAccesses r) (start r) (isWrite r) (b_dc s) (b_read_data io) =
      (\<lparr>dc_state = (?k < unat (numberOfAccesses r)), dc_count = of_nat ?k\<rparr>, tl (b_read_data io),
       if ?k < unat (numberOfAccesses r) then [] else [True])"
    using assms(3) next_packet [OF assms(3)]
    by (cases "b_read_data io") (auto simp: data_consumer_def s(5) Let_def add.commute)
  show ?thesis
    unfolding dma_bench_def Let_def
    by (simp only: split cmd dg dc) (simp add: s clock_def bench_reading_def)
qed

lemma consumed_step: "consumed q (a # as) = apfst ((@) (take 1 (q @ a))) (consumed (tl (q @ a)) as)"
  by (cases "q @ a") (simp_all add: apfst_def map_prod_def split: prod.splits)

lemma packets_append [simp]: "packets (xs @ ys) = packets xs + packets ys"
  by (simp add: packets_def)

lemma bench_feed_reading:
  "\<not> start r \<Longrightarrow> bench_reading t k s \<Longrightarrow> consumed (b_read_data io) (map fst fs) = (ws, q) \<Longrightarrow>
   k + packets ws < unat (numberOfAccesses r) \<Longrightarrow>
   \<exists>s' io'. bench_feed u (map (\<lambda>(a, f). (a, r, f)) fs) (s, io) = (s', io') \<and> bench_reading (t + of_nat (length fs)) (k + packets ws) s' \<and>
     b_read_data io' = q \<and> b_write_data io' = b_write_data io \<and> b_regExecutionCycles io' = b_regExecutionCycles io"
proof (induction fs arbitrary: t k s io ws)
  case Nil
  then show ?case by auto
next
  case (Cons f fs)
  obtain a rfull wfull dfull where f: "f = (a, rfull, wfull, dfull)" by (cases f)
  let ?io = "io\<lparr>b_read_data := b_read_data io @ a\<rparr>" and ?p = "take 1 (b_read_data io @ a)"
  obtain ws' where ws: "consumed (tl (b_read_data io @ a)) (map fst fs) = (ws', q)" "ws = ?p @ ws'"
    using Cons(4) by (cases "consumed (tl (b_read_data io @ a)) (map fst fs)") (simp add: f consumed_step del: consumed.simps(2))
  then have k: "k < unat (numberOfAccesses r)" "k + packets ?p < unat (numberOfAccesses r)" using Cons(5) by auto
  from dma_bench_reading [OF Cons(2,3) k(1), of u rfull wfull dfull ?io] k(2) obtain s' io' where
    s': "dma_bench u r rfull wfull dfull (s, ?io) = (s', io')" "b_write_data io' = b_write_data io"
      "b_read_data io' = tl (b_read_data io @ a)" "bench_reading (t + 1) (k + packets ?p) s'"
      "b_regExecutionCycles io' = b_regExecutionCycles io"
    by (auto simp: Let_def)
  from Cons(1) [OF Cons(2) s'(4), of io' ws'] ws Cons(5) s'(3) obtain s2 io2 where
    "bench_feed u (map (\<lambda>(a, f). (a, r, f)) fs) (s', io') = (s2, io2)" "bench_reading (t + 1 + of_nat (length fs)) (k + packets ?p + packets ws') s2"
    "b_read_data io2 = q" "b_write_data io2 = b_write_data io'" "b_regExecutionCycles io2 = b_regExecutionCycles io'" by auto
  then show ?case using s' ws(2) by (simp add: f algebra_simps)
qed

section \<open>Properties\<close>

text \<open>C29. A run of the command generator, for every valid configuration and every pattern of stalls
  of its output stream that accepts enough commands: it signals the start once, writes exactly the
  configured number of commands (\<open>2 ^ 32\<close> when the register is 0) to the stream of the
  configured direction and none to the other, the \<open>i\<close>-th one for the \<open>i\<close>-th slot of the
  memory, wrapping around after the last slot that fits, and then is idle again.\<close>

theorem bench_command_sequence:
  assumes "bench_valid r" and "\<not> start r" and "cg_state st = IDLE" and "accesses r \<le> length (filter (accepting r) fs)"
  shows "\<exists>st'. cmd_calls ((r\<lparr>start := True\<rparr>, False, rfull, wfull) # map (Pair r) fs) st =
      (let cs = map (\<lambda>i. \<lparr>cmd_addr = bench_addr r i, cmd_len = chunkLength r\<rparr>) [0..<accesses r]
       in (st', [True], if isWrite r then [] else cs, if isWrite r then cs else [])) \<and> cg_state st' = IDLE"
  using cmd_calls_run [OF assms(1-3), of rfull wfull fs] assms(4) by (simp add: bench_cmds_def min_absorb1)

definition example_regs :: bench_regs where
  "example_regs = \<lparr>regBaseAddr = 0x1000, memorySize = 0x200, numberOfAccesses = 3, chunkLength = 0x100, strideLength = 0,
     isWrite = True, start = False\<rparr>"

lemma example_regs_valid: "bench_valid example_regs" "bench_step example_regs = 0x100" "bench_slots example_regs = 2"
  by (simp_all add: bench_valid_def bench_step_def bench_slots_def example_regs_def)

theorem bench_command_sequence_witness:
  "\<exists>st'. cmd_calls ((example_regs\<lparr>start := True\<rparr>, False, False, False) #
        map (Pair example_regs) [(False, False, False), (False, False, True), (False, False, False), (False, False, False)])
      (b_cmd (bench_init 0 0 0)) =
     (st', [True], [], [\<lparr>cmd_addr = 0x1000, cmd_len = 0x100\<rparr>, \<lparr>cmd_addr = 0x1100, cmd_len = 0x100\<rparr>, \<lparr>cmd_addr = 0x1000, cmd_len = 0x100\<rparr>])"
proof -
  let ?fs = "[(False, False, False), (False, False, True), (False, False, False), (False, False, False)]"
  have r: "\<not> start example_regs" "isWrite example_regs" "chunkLength example_regs = 0x100" "accesses example_regs = 3"
    "regBaseAddr example_regs = 0x1000" by (simp_all add: example_regs_def accesses_def)
  have "cg_state (b_cmd (bench_init 0 0 0)) = IDLE" by (simp add: bench_init_def)
  moreover have "[0..<3] = [0, 1, 2 :: nat]" by (simp add: upt_rec)
  then have "map (\<lambda>i. \<lparr>cmd_addr = bench_addr example_regs i, cmd_len = chunkLength example_regs\<rparr>) [0..<accesses example_regs] =
      [\<lparr>cmd_addr = 0x1000, cmd_len = 0x100\<rparr>, \<lparr>cmd_addr = 0x1100, cmd_len = 0x100\<rparr>, \<lparr>cmd_addr = 0x1000, cmd_len = 0x100\<rparr>]"
    by (simp add: r bench_addr_def example_regs_valid(2,3))
  moreover have "accesses example_regs \<le> length (filter (accepting example_regs) ?fs)" by (simp add: accepting_def r)
  ultimately show ?thesis
    using bench_command_sequence [OF example_regs_valid(1) r(1), of "b_cmd (bench_init 0 0 0)" ?fs False False]
    by (simp only: r(2) if_True Let_def) blast
qed

text \<open>No run ever addresses memory outside the configured region, whatever the stride, the
  number of accesses and the stalls: every command written starts at or after the base address and
  ends at or before the end of the memory.\<close>

theorem bench_commands_in_memory:
  assumes "bench_valid r" and "\<not> start r" and "cg_state st = IDLE"
    and "cmd_calls ((r\<lparr>start := True\<rparr>, False, rfull, wfull) # map (Pair r) fs) st = (st', ss, rd, wr)" and "c \<in> set rd \<union> set wr"
  shows "unat (regBaseAddr r) \<le> unat (cmd_addr c) \<and>
    unat (cmd_addr c) + unat (cmd_len c) \<le> unat (regBaseAddr r) + unat (memorySize r)"
proof -
  from cmd_calls_run [OF assms(1-3), of rfull wfull fs] assms(4,5) obtain i where
    "c = \<lparr>cmd_addr = bench_addr r i, cmd_len = chunkLength r\<rparr>"
    by (auto simp: bench_cmds_def Let_def split: if_splits)
  then show ?thesis using unat_bench_addr(1) [OF assms(1), of i] bench_slot_fits [OF assms(1), of i] by simp
qed

theorem bench_commands_in_memory_witness:
  "\<exists>st' ss rd wr c. cmd_calls [(example_regs\<lparr>start := True\<rparr>, False, False, False), (example_regs, False, False, False)]
      (b_cmd (bench_init 0 0 0)) = (st', ss, rd, wr) \<and> c \<in> set rd \<union> set wr \<and>
     0x1000 \<le> unat (cmd_addr c) \<and> unat (cmd_addr c) + unat (cmd_len c) \<le> 0x1200"
proof -
  let ?fs = "[(False, False, False)]"
  have r: "\<not> start example_regs" "cg_state (b_cmd (bench_init 0 0 0)) = IDLE" by (simp_all add: example_regs_def bench_init_def)
  obtain st' where run: "cmd_calls ((example_regs\<lparr>start := True\<rparr>, False, False, False) # map (Pair example_regs) ?fs) (b_cmd (bench_init 0 0 0)) =
      (st', [True], [], [\<lparr>cmd_addr = 0x1000, cmd_len = 0x100\<rparr>])"
    by (simp add: cmd_generator_def bench_init_def example_regs_def)
  from bench_commands_in_memory [OF example_regs_valid(1) r run, of "\<lparr>cmd_addr = 0x1000, cmd_len = 0x100\<rparr>"] run
  show ?thesis by (fastforce simp: example_regs_def)
qed

lemma bench_calls_append: "bench_calls u (xs @ ys) c = bench_calls u ys (bench_calls u xs c)"
  by (induction u xs c rule: bench_calls.induct) simp_all

lemma bench_first_call:
  assumes "isWrite r"
  shows "\<exists>s. dma_bench u (r\<lparr>start := True\<rparr>) rfull wfull dfull (bench_init a c t, io) = (s, io) \<and> bench_running 0 s \<and>
    b_dg s = \<lparr>dg_state = True, dg_remainingLength = chunkLength r, dg_count = 0\<rparr>"
  using assms
  by (simp add: dma_bench_def bench_init_def bench_running_def cmd_generator_def data_generator_def data_consumer_def clock_def)

text \<open>C21. A write run of the whole engine, started from reset by one call with the start flag set,
  under every pattern of stalls of the command streams and of the data stream. Let the last of the calls \<open>fs @ [f]\<close> be
  the one with which as many calls have found space in the data stream as the run has data words. Until then the
  clock runs and the execution time register is untouched. After it the data
  stream holds one packet per access, each of the configured length with the counting pattern, the clock is stopped and
  the reported execution time is the number of calls since the start, those in which the data stream was full
  included. The keep bits of the local word are assumed clear, since the code only ever sets them.\<close>

theorem bench_write_run:
  assumes "isWrite r" and "\<not> start r" and "axis_keep u = 0" and "0 < unat (chunkLength r)" and "0 < unat (numberOfAccesses r)"
    and "Suc (unstalled fs) = unat (numberOfAccesses r) * words_of (unat (chunkLength r))" and "unstalled [f] = 1"
  shows "\<exists>s1 io1 s' io' wss.
    bench_calls u ((r\<lparr>start := True\<rparr>, rfull, wfull, dfull) # map (Pair r) fs) (bench_init a c t, io) = (s1, io1) \<and>
    clock_running (b_clock s1) \<and> b_regExecutionCycles io1 = b_regExecutionCycles io \<and>
    bench_calls u ((r\<lparr>start := True\<rparr>, rfull, wfull, dfull) # map (Pair r) (fs @ [f])) (bench_init a c t, io) = (s', io') \<and>
    b_write_data io' = b_write_data io @ concat wss \<and>
    list_all2 carries wss (map (\<lambda>i. dg_bytes i (unat (chunkLength r))) [0..<unat (numberOfAccesses r)]) \<and>
    b_regExecutionCycles io' = of_nat (length fs + 1) \<and> \<not> clock_running (b_clock s')"
proof -
  from bench_first_call [OF assms(1), of u rfull wfull dfull a c t io] obtain s where
    s: "dma_bench u (r\<lparr>start := True\<rparr>) rfull wfull dfull (bench_init a c t, io) = (s, io)" "bench_running 0 s"
      "b_dg s = \<lparr>dg_state = True, dg_remainingLength = chunkLength r, dg_count = 0\<rparr>" by blast
  from dg_packets [OF assms(3,4,5), of "start r" "isWrite r"] obtain wss where
    wss: "dg_calls u (numberOfAccesses r) (chunkLength r) (start r) (isWrite r) (Suc (unstalled fs)) (b_dg s) =
        (\<lparr>dg_state = False, dg_remainingLength = chunkLength r, dg_count = numberOfAccesses r\<rparr>, [True], concat wss)"
      "list_all2 carries wss (map (\<lambda>i. dg_bytes i (unat (chunkLength r))) [0..<unat (numberOfAccesses r)])"
      "length (concat wss) = Suc (unstalled fs)"
    by (auto simp: s(3) assms(6))
  obtain rf wf' where f: "f = (rf, wf', False)" using assms(7) by (cases f) (auto split: if_splits)
  have go: "\<not> (start r \<and> isWrite r)" using assms(2) by simp
  from dg_last_call [OF go wss(1,3)] obtain st1 w1 w where
    dg: "dg_calls u (numberOfAccesses r) (chunkLength r) (start r) (isWrite r) (unstalled fs) (b_dg s) = (st1, [], w1)"
      "data_generator u (numberOfAccesses r) (chunkLength r) (start r) (isWrite r) False st1 =
         (\<lparr>dg_state = False, dg_remainingLength = chunkLength r, dg_count = numberOfAccesses r\<rparr>, [True], [w])" "concat wss = w1 @ [w]"
    by blast
  from bench_calls_running [OF assms(2) s(2) dg(1), of io] obtain s2 io2 where
    s2: "bench_calls u (map (Pair r) fs) (s, io) = (s2, io2)" "b_dg s2 = st1" "b_write_data io2 = b_write_data io @ w1"
      "bench_running (of_nat (length fs)) s2" "b_regExecutionCycles io2 = b_regExecutionCycles io" by auto
  from dma_bench_running [OF assms(2) s2(4), of u False _ "[True]" "[w]" rf wf' io2] dg(2) s2(2) obtain s3 io3 where
    "dma_bench u r rf wf' False (s2, io2) = (s3, io3)" "b_write_data io3 = b_write_data io2 @ [w]"
    "b_regExecutionCycles io3 = of_nat (length fs) + 1" "\<not> clock_running (b_clock s3)" by auto
  with s(1) s2 dg(3) wss(2) show ?thesis
    by (auto simp: f bench_calls_append add.commute bench_running_def intro!: exI [of _ wss])
qed

theorem bench_write_run_witness:
  "\<exists>s' io' wss. bench_calls \<lparr>axis_data = 0, axis_keep = 0, axis_last = False\<rparr>
      ((example_regs\<lparr>start := True\<rparr>, False, False, True) #
        map (Pair example_regs) ((replicate 7 (False, True, False) @ replicate 5 (False, False, True) @ replicate 4 (False, False, False)) @ [(False, False, False)]))
      (bench_init 0 0 0, \<lparr>b_read_cmd = [], b_write_cmd = [], b_write_data = [], b_read_data = [], b_regExecutionCycles = 0\<rparr>) = (s', io') \<and>
    b_write_data io' = concat wss \<and> list_all2 carries wss [dg_bytes 0 256, dg_bytes 1 256, dg_bytes 2 256] \<and>
    b_regExecutionCycles io' = 17"
proof -
  let ?fs = "replicate 7 (False, True, False) @ replicate 5 (False, False, True) @ replicate 4 (False, False, False)"
  have r: "isWrite example_regs" "\<not> start example_regs" "unat (chunkLength example_regs) = 256" "unat (numberOfAccesses example_regs) = 3"
    by (simp_all add: example_regs_def)
  have n: "Suc (unstalled ?fs) = unat (numberOfAccesses example_regs) * words_of (unat (chunkLength example_regs))" "length ?fs = 16"
    by (simp_all add: r words_of_def unstalled_def)
  have "[0..<3] = [0, 1, 2 :: nat]" by (simp add: upt_rec)
  with bench_write_run [OF r(1,2) _ _ _ n(1), of "\<lparr>axis_data = 0, axis_keep = 0, axis_last = False\<rparr>" "(False, False, False)" False False True 0 0 0
      "\<lparr>b_read_cmd = [], b_write_cmd = [], b_write_data = [], b_read_data = [], b_regExecutionCycles = 0\<rparr>"]
  show ?thesis unfolding n(2) by (simp add: r del: bench_calls.simps map_replicate map_append) blast
qed

text \<open>C22. A read run of the whole engine, started from reset by one call with the start flag set,
  whatever words arrive between the calls and however the command streams stall: until the last
  word of the last packet is taken the clock runs and the execution time register is untouched;
  the call that takes it stops the clock and the consumer and reports exactly the number of
  calls since the start, those without data included. Nothing is written to the data stream,
  and words behind the last packet stay in the input.\<close>

theorem bench_read_run:
  assumes "\<not> isWrite r" and "\<not> start r"
    and "consumed (b_read_data io) (map fst fs) = (ws, q)" and "Suc (packets ws) = unat (numberOfAccesses r)"
    and "q @ a = w # q'" and "axis_last w"
  shows "\<exists>s0 s1 io1 s' io'. dma_bench u (r\<lparr>start := True\<rparr>) rfull wfull dfull (bench_init x y z, io) = (s0, io) \<and>
    bench_feed u (map (\<lambda>(a, f). (a, r, f)) fs) (s0, io) = (s1, io1) \<and> clock_running (b_clock s1) \<and> b_regExecutionCycles io1 = b_regExecutionCycles io \<and>
    bench_feed u (map (\<lambda>(a, f). (a, r, f)) fs @ [(a, r, rfull', wfull', dfull')]) (s0, io) = (s', io') \<and> b_regExecutionCycles io' = of_nat (length fs + 1) \<and>
    \<not> clock_running (b_clock s') \<and> \<not> dc_state (b_dc s') \<and> b_read_data io' = q' \<and> b_write_data io' = b_write_data io"
proof -
  from bench_first_read_call [OF assms(1)] obtain s0 where
    s0: "dma_bench u (r\<lparr>start := True\<rparr>) rfull wfull dfull (bench_init x y z, io) = (s0, io)" "bench_reading 0 0 s0" by blast
  from bench_feed_reading [OF assms(2) s0(2) assms(3), of u] assms(4) obtain s1 io1 where
    s1: "bench_feed u (map (\<lambda>(a, f). (a, r, f)) fs) (s0, io) = (s1, io1)" "bench_reading (of_nat (length fs)) (packets ws) s1"
      "b_read_data io1 = q" "b_write_data io1 = b_write_data io" "b_regExecutionCycles io1 = b_regExecutionCycles io" by auto
  let ?io = "io1\<lparr>b_read_data := q @ a\<rparr>"
  from dma_bench_reading [OF assms(2) s1(2), of u rfull' wfull' dfull' ?io] assms(4,5,6) obtain s' io' where
    "dma_bench u r rfull' wfull' dfull' (s1, ?io) = (s', io')" "b_write_data io' = b_write_data io1" "b_read_data io' = q'"
    "b_clock s' = \<lparr>cycle_counter = of_nat (length fs) + 1, clock_running = False\<rparr>"
    "b_regExecutionCycles io' = of_nat (length fs) + 1" "\<not> dc_state (b_dc s')"
    by (auto simp: Let_def)
  with s0(1) s1 show ?thesis by (auto simp: bench_feed_append add.commute bench_reading_def)
qed

definition read_regs :: bench_regs where
  "read_regs = example_regs\<lparr>numberOfAccesses := 2, chunkLength := 0x80, isWrite := False\<rparr>"

theorem bench_read_run_witness:
  "let w = \<lparr>axis_data = 0, axis_keep = - 1, axis_last = False\<rparr>; l = w\<lparr>axis_last := True\<rparr>;
       io = \<lparr>b_read_cmd = [], b_write_cmd = [], b_write_data = [], b_read_data = [], b_regExecutionCycles = 0\<rparr>
   in \<exists>s0 s' io'. dma_bench w (read_regs\<lparr>start := True\<rparr>) False False False (bench_init 0 0 0, io) = (s0, io) \<and>
      bench_feed w [([], read_regs, False, False, False), ([w, l], read_regs, False, False, False), ([], read_regs, False, False, False),
        ([w], read_regs, False, False, False), ([l], read_regs, True, True, True)] (s0, io) = (s', io') \<and> b_regExecutionCycles io' = 5"
proof -
  let ?w = "\<lparr>axis_data = 0, axis_keep = - 1, axis_last = False\<rparr> :: (512, 64) axis"
  let ?l = "?w\<lparr>axis_last := True\<rparr>"
  let ?io = "\<lparr>b_read_cmd = [], b_write_cmd = [], b_write_data = [], b_read_data = [], b_regExecutionCycles = 0\<rparr>"
  let ?fs = "[([], False, False, False), ([?w, ?l], False, False, False), ([], False, False, False), ([?w], False, False, False)]"
  have r: "\<not> isWrite read_regs" "\<not> start read_regs" "Suc (packets [?w, ?l, ?w]) = unat (numberOfAccesses read_regs)"
    by (simp_all add: read_regs_def example_regs_def)
  have "consumed (b_read_data ?io) (map fst ?fs) = ([?w, ?l, ?w], [])" by simp
  from bench_read_run [OF r(1,2) this r(3), of "[?l]" ?l "[]" ?w False False False 0 0 0 True True True] show ?thesis
    by (simp add: Let_def del: bench_feed.simps) blast
qed

text \<open>C32. The FIFOs between the processes have depth two and two of their writers do not check
  for space. Whatever the registers, the stalls and the data of any sequence of calls, the three FIFOs
  are empty between two calls, so that no write to them blocks and the guard of the start
  signal never holds a run back.\<close>

theorem bench_fifos_drained: "fifos_empty (fst (bench_feed u ins (bench_init a c t, io)))"
proof -
  have "fifos_empty s \<Longrightarrow> fifos_empty (fst (bench_feed u ins (s, io)))" for s
  proof (induction u ins "(s, io)" arbitrary: s io rule: bench_feed.induct)
    case (2 u b r rfull wfull dfull ins s io)
    let ?c = "dma_bench u r rfull wfull dfull (s, io\<lparr>b_read_data := b_read_data io @ b\<rparr>)"
    show ?case using 2(1) [of "fst ?c" "snd ?c"] dma_bench_fifos [OF 2(2)] by simp
  qed simp
  then show ?thesis by (simp add: bench_init_def fifos_empty_def)
qed

text \<open>With a configured number of 0 the processes disagree: the command generator writes
  \<open>2 ^ 32\<close> commands (\<open>accesses\<close>), while the consumer compares the counter also after a
  word in the middle of a packet and ends the run with the first such word.\<close>

theorem data_consumer_zero_accesses:
  assumes "\<not> axis_last w"
  shows "data_consumer 0 go isWr \<lparr>dc_state = True, dc_count = 0\<rparr> (w # ws) = (\<lparr>dc_state = False, dc_count = 0\<rparr>, ws, [True])"
  using assms by (simp add: data_consumer_def)

end
