(* ===== verification/Memory_Manager.thy ===== *)
theory Memory_Manager
  imports Dma_Prelude
begin

text \<open>
  \<^verbatim>\<open>sw/src/fpga/MemoryManager.h\<close> and \<^verbatim>\<open>MemoryManager.cpp\<close>: the allocator for the memory that the
  FPGA can reach.

  \<^item> The singly linked list of \<open>MemChunk\<close> nodes is a list, in list order; a pointer into the
    managed memory is a 64-bit address, and \<open>nullptr\<close> is \<open>None\<close>.
  \<^item> The contents of memory are a function from addresses to bytes; the allocator writes it
    with \<open>memset\<close>.
  \<^item> \<open>compare_exchange_weak\<close> may fail although the flag has the expected value. Whether it
    does at the \<open>i\<close>-th chunk is the argument \<open>spurious i\<close>.
  \<^item> \<open>allocate\<close> holds the mutex for its whole body, so that its calls are atomic steps;
    \<open>free\<close> takes no lock; here it is an atomic step too, and the interleavings of its loop with
    other calls are the subject of \<^verbatim>\<open>Memory_Threads\<close>.

  The lemmas show that the chunks always tile the managed region, that \<open>allocate\<close> is first
  fit, that live blocks never overlap, and that a block handed out is all zero as long as clients
  write into their own blocks only.
\<close>

section \<open>Chunks and memory\<close>

record memChunk =
  chunk_addr :: u64
  chunk_size :: u64
  chunk_free :: bool

definition new_chunk :: "u64 \<Rightarrow> u64 \<Rightarrow> memChunk" where
  "new_chunk a n = \<lparr>chunk_addr = a, chunk_size = n, chunk_free = True\<rparr>"

type_synonym memory = "u64 \<Rightarrow> u8"

text \<open>The C library's \<open>memset\<close>.\<close>

definition memset :: "u64 \<Rightarrow> u8 \<Rightarrow> u64 \<Rightarrow> memory \<Rightarrow> memory" where
  "memset a v n m = (\<lambda>x. if x - a < n then v else m x)"

record memoryManager =
  mm_base :: u64
  mm_size :: u64
  mm_chunks :: "memChunk list"

section \<open>Operations\<close>

definition mm_construct :: "u64 \<Rightarrow> u64 \<Rightarrow> memory \<Rightarrow> memoryManager \<times> memory" where
  "mm_construct base sz mem =
     (\<lparr>mm_base = base, mm_size = sz, mm_chunks = [new_chunk base sz]\<rparr>, memset base 0 sz mem)"

text \<open>The destructor's loop; the result lists the nodes it deletes.\<close>

fun mm_destroy :: "memChunk list \<Rightarrow> memChunk list" where
  "mm_destroy [] = []"
| "mm_destroy (current # next') = current # mm_destroy next'"

definition round_size :: "u64 \<Rightarrow> u64" where
  "round_size allocSize = ((allocSize + 4095) div 4096) * 4096"

text \<open>The loop of \<open>allocate\<close> over the chunks that are left, \<open>i\<close> of them already visited.\<close>

fun allocate_loop :: "(nat \<Rightarrow> bool) \<Rightarrow> nat \<Rightarrow> u64 \<Rightarrow> memChunk list \<Rightarrow> memChunk list \<times> u64 option" where
  "allocate_loop spurious i roundedSize [] = ([], None)"
| "allocate_loop spurious i roundedSize (current # rest) =
     (if chunk_free current \<and> roundedSize \<le> chunk_size current \<and> \<not> spurious i then
        (let current' = current\<lparr>chunk_free := False\<rparr> in
         if chunk_size current > roundedSize then
           (current'\<lparr>chunk_size := roundedSize\<rparr> #
            new_chunk (chunk_addr current + roundedSize) (chunk_size current - roundedSize) # rest, Some (chunk_addr current))
         else (current' # rest, Some (chunk_addr current)))
      else
        (case allocate_loop spurious (Suc i) roundedSize rest of (rest', p) \<Rightarrow> (current # rest', p)))"

definition allocate :: "(nat \<Rightarrow> bool) \<Rightarrow> u64 \<Rightarrow> memoryManager \<Rightarrow> memoryManager \<times> u64 option" where
  "allocate spurious allocSize mm =
     (case allocate_loop spurious 0 (round_size allocSize) (mm_chunks mm) of
        (chunks, p) \<Rightarrow> (mm\<lparr>mm_chunks := chunks\<rparr>, p))"

text \<open>The loop of \<open>free\<close> does not stop at the first match.\<close>

fun free_loop :: "u64 \<Rightarrow> memChunk list \<Rightarrow> memory \<Rightarrow> memChunk list \<times> memory" where
  "free_loop ptr [] mem = ([], mem)"
| "free_loop ptr (current # rest) mem =
     (let (current', mem') =
            (if chunk_addr current = ptr
             then (current\<lparr>chunk_free := True\<rparr>, memset (chunk_addr current) 0 (chunk_size current) mem)
             else (current, mem));
          (rest', mem'') = free_loop ptr rest mem'
      in (current' # rest', mem''))"

definition mm_free :: "u64 \<Rightarrow> memoryManager \<Rightarrow> memory \<Rightarrow> memoryManager \<times> memory" where
  "mm_free ptr mm mem = (case free_loop ptr (mm_chunks mm) mem of (chunks, mem') \<Rightarrow> (mm\<lparr>mm_chunks := chunks\<rparr>, mem'))"

section \<open>The contract of a block allocator\<close>

text \<open>
  What a client of the allocator relies on, with addresses and sizes as numbers: \<open>live\<close> is the
  set of blocks (start and length) handed out and not yet returned. A successful allocation adds
  one new block inside the region that overlaps no live one; a release removes the block.
\<close>

definition overlap :: "nat \<times> nat \<Rightarrow> nat \<times> nat \<Rightarrow> bool" where
  "overlap b c \<longleftrightarrow> fst b < fst c + snd c \<and> fst c < fst b + snd b"

locale block_allocator =
  fixes inv :: "'s \<Rightarrow> bool" and live :: "'s \<Rightarrow> (nat \<times> nat) set"
    and alloc :: "'a \<Rightarrow> 's \<Rightarrow> 's \<times> (nat \<times> nat) option" and release :: "'p \<Rightarrow> 's \<Rightarrow> 's" and at :: "'p \<Rightarrow> nat"
    and region :: "'s \<Rightarrow> nat \<times> nat" and good_request :: "'a \<Rightarrow> bool"
  assumes alloc_inv: "inv s \<Longrightarrow> good_request n \<Longrightarrow> alloc n s = (s', r) \<Longrightarrow> inv s' \<and> region s' = region s"
    and alloc_none: "inv s \<Longrightarrow> alloc n s = (s', None) \<Longrightarrow> live s' = live s"
    and alloc_some: "inv s \<Longrightarrow> good_request n \<Longrightarrow> alloc n s = (s', Some b) \<Longrightarrow>
      live s' = insert b (live s) \<and> (\<forall>c \<in> live s. \<not> overlap b c) \<and>
      0 < snd b \<and> fst (region s) \<le> fst b \<and> fst b + snd b \<le> fst (region s) + snd (region s)"
    and release_inv: "inv s \<Longrightarrow> inv (release p s) \<and> region (release p s) = region s"
    and release_live: "inv s \<Longrightarrow> live (release p s) = {b \<in> live s. fst b \<noteq> at p}"
begin

text \<open>Sequences of requests; a request that fails leaves the blocks alone.\<close>

fun run :: "('a + 'p) list \<Rightarrow> 's \<Rightarrow> 's" where
  "run [] s = s"
| "run (Inl n # ops) s = run ops (fst (alloc n s))"
| "run (Inr p # ops) s = run ops (release p s)"

definition disjoint_blocks :: "'s \<Rightarrow> bool" where
  "disjoint_blocks s \<longleftrightarrow> (\<forall>b \<in> live s. fst (region s) \<le> fst b \<and> fst b + snd b \<le> fst (region s) + snd (region s)) \<and>
     (\<forall>b \<in> live s. \<forall>c \<in> live s. b \<noteq> c \<longrightarrow> \<not> overlap b c)"

lemma alloc_disjoint:
  assumes "inv s" and "good_request n" and "disjoint_blocks s" and "alloc n s = (s', r)"
  shows "disjoint_blocks s'"
proof (cases r)
  case None
  then show ?thesis
    using alloc_none [OF assms(1)] alloc_inv [OF assms(1,2,4)] assms(3,4) by (simp add: disjoint_blocks_def)
next
  case (Some b)
  then have b: "live s' = insert b (live s)" "\<forall>c \<in> live s. \<not> overlap b c" "region s' = region s"
      "fst (region s) \<le> fst b" "fst b + snd b \<le> fst (region s) + snd (region s)"
    using alloc_some [OF assms(1,2), of s' b] alloc_inv [OF assms(1,2,4)] assms(4) by auto
  have "\<forall>c \<in> live s. \<not> overlap c b" using b(2) unfolding overlap_def by blast
  with b assms(3) show ?thesis unfolding disjoint_blocks_def by (metis insert_iff)
qed

lemma run_disjoint:
  "inv s \<Longrightarrow> disjoint_blocks s \<Longrightarrow> (\<forall>n. Inl n \<in> set ops \<longrightarrow> good_request n) \<Longrightarrow> inv (run ops s) \<and> disjoint_blocks (run ops s)"
proof (induction ops s rule: run.induct)
  case (2 n ops s)
  obtain s' r where "alloc n s = (s', r)" by (cases "alloc n s")
  with 2 alloc_inv [of s n s' r] alloc_disjoint [of s n s' r] show ?case by auto
next
  case (3 p ops s)
  then have "disjoint_blocks (release p s)"
    using release_inv [of s p] release_live [of s p] by (auto simp: disjoint_blocks_def)
  with 3 release_inv [of s p] show ?case by auto
qed simp

end

section \<open>The chunks tile the region\<close>

fun layout :: "nat \<Rightarrow> memChunk list \<Rightarrow> nat \<Rightarrow> bool" where
  "layout a [] e \<longleftrightarrow> a = e"
| "layout a (c # cs) e \<longleftrightarrow> unat (chunk_addr c) = a \<and> 0 < unat (chunk_size c) \<and> layout (a + unat (chunk_size c)) cs e"

definition mm_inv :: "memoryManager \<Rightarrow> bool" where
  "mm_inv mm \<longleftrightarrow> unat (mm_base mm) + unat (mm_size mm) < 2 ^ 64 \<and>
     layout (unat (mm_base mm)) (mm_chunks mm) (unat (mm_base mm) + unat (mm_size mm))"

definition chunk_block :: "memChunk \<Rightarrow> nat \<times> nat" where
  "chunk_block c = (unat (chunk_addr c), unat (chunk_size c))"

definition mm_live :: "memoryManager \<Rightarrow> (nat \<times> nat) set" where
  "mm_live mm = chunk_block ` {c \<in> set (mm_chunks mm). \<not> chunk_free c}"

lemma layout_append: "layout a (xs @ ys) e \<longleftrightarrow> (\<exists>m. layout a xs m \<and> layout m ys e)"
  by (induction xs arbitrary: a) auto

lemma layout_le: "layout a cs e \<Longrightarrow> a \<le> e"
  by (induction cs arbitrary: a) (auto dest!: add_leD1)

lemma layout_chunk:
  assumes "layout a cs e" and "c \<in> set cs"
  shows "a \<le> unat (chunk_addr c) \<and> unat (chunk_addr c) + unat (chunk_size c) \<le> e \<and> 0 < unat (chunk_size c)"
  using assms by (induction cs arbitrary: a) (fastforce dest: layout_le)+

lemma layout_disjoint:
  assumes "layout a (xs @ c # ys) e" and "d \<in> set xs \<union> set ys"
  shows "\<not> overlap (chunk_block c) (chunk_block d)"
  using assms layout_chunk [of a xs] layout_chunk [of _ ys e]
  by (fastforce simp: layout_append overlap_def chunk_block_def)

text \<open>A chunk that is taken, and what remains of it.\<close>

definition taken :: "u64 \<Rightarrow> memChunk \<Rightarrow> memChunk list" where
  "taken n c = c\<lparr>chunk_size := n, chunk_free := False\<rparr> #
     (if chunk_size c > n then [new_chunk (chunk_addr c + n) (chunk_size c - n)] else [])"

lemma layout_taken:
  assumes "layout a (c # cs) e" and "n \<le> chunk_size c" and "0 < unat n" and "e < 2 ^ 64"
  shows "layout a (taken n c @ cs) e"
proof -
  from assms(1) have c: "unat (chunk_addr c) = a" "layout (a + unat (chunk_size c)) cs e" by auto
  then have "a + unat (chunk_size c) < 2 ^ 64" using layout_le assms(4) by fastforce
  moreover have n: "unat n \<le> unat (chunk_size c)" using assms(2) by (simp add: word_le_nat_alt)
  ultimately have "unat (chunk_addr c + n) = a + unat n" using c by (simp add: unat_word_ariths)
  moreover have "unat (chunk_size c - n) = unat (chunk_size c) - unat n" using assms(2) by (simp add: unat_sub)
  ultimately show ?thesis
    using c n assms(2,3) by (auto simp: taken_def new_chunk_def word_less_nat_alt)
qed

text \<open>\<open>allocate\<close> takes the first chunk that is free, large enough and acquired.\<close>

definition fits :: "(nat \<Rightarrow> bool) \<Rightarrow> u64 \<Rightarrow> nat \<Rightarrow> memChunk \<Rightarrow> bool" where
  "fits spurious n i c \<longleftrightarrow> chunk_free c \<and> n \<le> chunk_size c \<and> \<not> spurious i"

lemma allocate_loop_first_fit:
  assumes "\<forall>j < length pre. \<not> fits spurious n (i + j) (pre ! j)" and "fits spurious n (i + length pre) c"
  shows "allocate_loop spurious i n (pre @ c # post) = (pre @ taken n c @ post, Some (chunk_addr c))"
  using assms
proof (induction pre arbitrary: i)
  case Nil
  then show ?case by (cases c) (auto simp: fits_def taken_def Let_def)
next
  case (Cons d pre)
  have "\<forall>j < length pre. \<not> fits spurious n (Suc i + j) (pre ! j)" using Cons(2) by (auto dest: spec [of _ "Suc _"])
  moreover have "\<not> fits spurious n i d" using Cons(2) by (auto dest: spec [of _ 0])
  ultimately show ?case using Cons(1) [of "Suc i"] Cons(3) by (auto simp: fits_def Let_def)
qed

lemma allocate_loop_none:
  "\<forall>j < length cs. \<not> fits spurious n (i + j) (cs ! j) \<Longrightarrow> allocate_loop spurious i n cs = (cs, None)"
proof (induction cs arbitrary: i)
  case (Cons d cs)
  have "\<forall>j < length cs. \<not> fits spurious n (Suc i + j) (cs ! j)" using Cons(2) by (auto dest: spec [of _ "Suc _"])
  moreover have "\<not> fits spurious n i d" using Cons(2) by (auto dest: spec [of _ 0])
  ultimately show ?case using Cons(1) [of "Suc i"] by (auto simp: fits_def)
qed simp

lemma first_fit_cases:
  obtains (none) "\<forall>j < length cs. \<not> P j (cs ! j)"
  | (found) pre c post where "cs = pre @ c # post" "\<forall>j < length pre. \<not> P j (pre ! j)" "P (length pre) c"
proof (cases "\<exists>j < length cs. P j (cs ! j)")
  case True
  define k where "k = (LEAST j. j < length cs \<and> P j (cs ! j))"
  have k: "k < length cs" "P k (cs ! k)" unfolding k_def using True by (metis (mono_tags, lifting) LeastI)+
  have least: "\<not> P j (cs ! j)" if "j < k" for j
    using that k(1) not_less_Least [of j "\<lambda>j. j < length cs \<and> P j (cs ! j)"] by (auto simp: k_def)
  show thesis
    by (rule found [of "take k cs" "cs ! k" "drop (Suc k) cs"]) (use k least in \<open>auto simp: id_take_nth_drop [symmetric]\<close>)
qed (use none in blast)

section \<open>The allocator meets the contract\<close>

definition good_size :: "u64 \<Rightarrow> bool" where
  "good_size n \<longleftrightarrow> 0 < unat n \<and> unat n + 4095 < 2 ^ 64"

lemma unat_round_size:
  assumes "good_size n"
  shows "unat (round_size n) = (unat n + 4095) div 4096 * 4096" and "unat n \<le> unat (round_size n)" and "0 < unat (round_size n)"
proof -
  have "unat (n + 4095) = unat n + 4095" using assms by (simp add: unat_word_ariths good_size_def)
  moreover have "(unat n + 4095) div 4096 * 4096 < 2 ^ 64"
    using assms le_less_trans [OF div_times_less_eq_dividend] by (simp only: good_size_def)
  ultimately show u: "unat (round_size n) = (unat n + 4095) div 4096 * 4096"
    by (simp add: round_size_def unat_word_ariths unat_div)
  show "unat n \<le> unat (round_size n)" "0 < unat (round_size n)" using assms by (auto simp: u good_size_def)
qed

lemma allocate_cases:
  obtains (none) "\<forall>j < length (mm_chunks mm). \<not> fits spurious (round_size n) j (mm_chunks mm ! j)" "allocate spurious n mm = (mm, None)"
  | (found) pre c post where "mm_chunks mm = pre @ c # post" "fits spurious (round_size n) (length pre) c"
      "\<forall>j < length pre. \<not> fits spurious (round_size n) j (pre ! j)"
      "allocate spurious n mm = (mm\<lparr>mm_chunks := pre @ taken (round_size n) c @ post\<rparr>, Some (chunk_addr c))"
proof (rule first_fit_cases [where cs = "mm_chunks mm" and P = "fits spurious (round_size n)"], goal_cases none found)
  case none
  then show thesis using that(1) allocate_loop_none [of "mm_chunks mm" spurious "round_size n" 0] by (simp add: allocate_def)
next
  case (found pre c post)
  then show thesis
    using that(2) [of pre c post] allocate_loop_first_fit [of pre spurious "round_size n" 0 c post] by (simp add: allocate_def)
qed

lemma free_loop_chunks:
  "fst (free_loop p cs mem) = map (\<lambda>c. if chunk_addr c = p then c\<lparr>chunk_free := True\<rparr> else c) cs"
  by (induction cs arbitrary: mem) (simp_all add: Let_def case_prod_beta)

lemma free_loop_memory:
  "snd (free_loop p cs mem) x = (if \<exists>c \<in> set cs. chunk_addr c = p \<and> x - p < chunk_size c then 0 else mem x)"
  by (induction cs arbitrary: mem) (auto simp: Let_def memset_def case_prod_beta)

lemma layout_map:
  "(\<And>c. chunk_addr (f c) = chunk_addr c \<and> chunk_size (f c) = chunk_size c) \<Longrightarrow> layout a (map f cs) e = layout a cs e"
  by (induction cs arbitrary: a) auto

text \<open>The operations as the contract has them.\<close>

definition alloc_block :: "(nat \<Rightarrow> bool) \<times> u64 \<Rightarrow> memoryManager \<Rightarrow> memoryManager \<times> (nat \<times> nat) option" where
  "alloc_block r mm = (case allocate (fst r) (snd r) mm of
     (mm', p) \<Rightarrow> (mm', map_option (\<lambda>p. (unat p, unat (round_size (snd r)))) p))"

definition release_block :: "u64 \<Rightarrow> memoryManager \<Rightarrow> memoryManager" where
  "release_block p mm = fst (mm_free p mm (\<lambda>_. 0))"

definition mm_region :: "memoryManager \<Rightarrow> nat \<times> nat" where
  "mm_region mm = (unat (mm_base mm), unat (mm_size mm))"

lemma mm_free_chunks:
  "fst (mm_free p mm mem) = mm\<lparr>mm_chunks := map (\<lambda>c. if chunk_addr c = p then c\<lparr>chunk_free := True\<rparr> else c) (mm_chunks mm)\<rparr>"
  by (simp add: mm_free_def case_prod_beta free_loop_chunks)

lemma mm_free_inv: "mm_inv mm \<Longrightarrow> mm_inv (fst (mm_free p mm mem))"
  unfolding mm_inv_def mm_free_chunks
  using layout_map [of "\<lambda>c. if chunk_addr c = p then c\<lparr>chunk_free := True\<rparr> else c"] by simp

lemma allocate_inv:
  assumes "mm_inv mm" and "good_size n"
  shows "mm_inv (fst (allocate spurious n mm)) \<and> mm_region (fst (allocate spurious n mm)) = mm_region mm"
proof (rule allocate_cases [where mm = mm and spurious = spurious and n = n], goal_cases none found)
  case none
  then show ?thesis using assms by simp
next
  case (found pre c post)
  let ?b = "unat (mm_base mm)" and ?e = "unat (mm_base mm) + unat (mm_size mm)"
  from assms(1) found(1) obtain m where m: "layout ?b pre m" "layout m (c # post) ?e" "?e < 2 ^ 64"
    using layout_append [of ?b pre "c # post" ?e] unfolding mm_inv_def by auto
  have "layout m (taken (round_size n) c @ post) ?e"
    using found(2) unat_round_size(3) [OF assms(2)] by (intro layout_taken [OF m(2) _ _ m(3)]) (simp_all add: fits_def)
  with m found show ?thesis by (auto simp: mm_inv_def mm_region_def layout_append)
qed

lemma allocate_live:
  assumes "mm_inv mm" and "good_size n" and "allocate spurious n mm = (mm', Some p)"
  shows "mm_live mm' = insert (unat p, unat (round_size n)) (mm_live mm)"
    and "\<forall>b \<in> mm_live mm. \<not> overlap (unat p, unat (round_size n)) b"
    and "unat (mm_base mm) \<le> unat p" and "unat p + unat (round_size n) \<le> unat (mm_base mm) + unat (mm_size mm)"
proof -
  obtain pre c post where c: "mm_chunks mm = pre @ c # post" "fits spurious (round_size n) (length pre) c"
      "mm' = mm\<lparr>mm_chunks := pre @ taken (round_size n) c @ post\<rparr>" "p = chunk_addr c"
    by (rule allocate_cases [where mm = mm and spurious = spurious and n = n]) (use assms(3) in auto)
  have "{d \<in> set (pre @ taken (round_size n) c @ post). \<not> chunk_free d} =
      insert (c\<lparr>chunk_size := round_size n, chunk_free := False\<rparr>) {d \<in> set (pre @ c # post). \<not> chunk_free d}"
    using c(2) by (auto simp: taken_def new_chunk_def fits_def)
  then show "mm_live mm' = insert (unat p, unat (round_size n)) (mm_live mm)"
    by (simp only: mm_live_def c(1,3,4) memoryManager.simps image_insert) (simp add: chunk_block_def)
  have lay: "layout (unat (mm_base mm)) (pre @ c # post) (unat (mm_base mm) + unat (mm_size mm))"
    using assms(1) c(1) by (simp add: mm_inv_def)
  have le: "unat (round_size n) \<le> unat (chunk_size c)" using c(2) by (simp add: fits_def word_le_nat_alt)
  show "\<forall>b \<in> mm_live mm. \<not> overlap (unat p, unat (round_size n)) b"
    using layout_disjoint [OF lay] c(2) le
    by (fastforce simp: mm_live_def c(1,4) chunk_block_def overlap_def fits_def)
  show "unat (mm_base mm) \<le> unat p" "unat p + unat (round_size n) \<le> unat (mm_base mm) + unat (mm_size mm)"
    using layout_chunk [OF lay, of c] le c(4) by auto
qed

interpretation mma: block_allocator mm_inv mm_live alloc_block release_block unat mm_region "\<lambda>r. good_size (snd r)"
proof unfold_locales
  fix s s' r and n :: "(nat \<Rightarrow> bool) \<times> u64"
  assume "mm_inv s" "good_size (snd n)" "alloc_block n s = (s', r)"
  then show "mm_inv s' \<and> mm_region s' = mm_region s"
    using allocate_inv [of s "snd n" "fst n"] by (simp add: alloc_block_def split: prod.splits)
next
  fix s s' and n :: "(nat \<Rightarrow> bool) \<times> u64"
  assume "alloc_block n s = (s', None)"
  then show "mm_live s' = mm_live s"
    by - (rule allocate_cases [where mm = s and spurious = "fst n" and n = "snd n"], auto simp: alloc_block_def)
next
  fix s s' b and n :: "(nat \<Rightarrow> bool) \<times> u64"
  assume a: "mm_inv s" "good_size (snd n)" "alloc_block n s = (s', Some b)"
  then obtain p where "allocate (fst n) (snd n) s = (s', Some p)" "b = (unat p, unat (round_size (snd n)))"
    by (auto simp: alloc_block_def split: prod.splits)
  with allocate_live [OF a(1,2), of "fst n" s' p] unat_round_size(3) [OF a(2)]
  show "mm_live s' = insert b (mm_live s) \<and> (\<forall>c \<in> mm_live s. \<not> overlap b c) \<and> 0 < snd b \<and>
      fst (mm_region s) \<le> fst b \<and> fst b + snd b \<le> fst (mm_region s) + snd (mm_region s)"
    by (simp add: mm_region_def)
next
  fix s p
  assume "mm_inv s"
  then show "mm_inv (release_block p s) \<and> mm_region (release_block p s) = mm_region s"
    by (simp add: release_block_def mm_free_inv) (simp add: mm_free_chunks mm_region_def)
next
  fix s p
  show "mm_live (release_block p s) = {b \<in> mm_live s. fst b \<noteq> unat p}"
    by (auto simp: release_block_def mm_free_chunks mm_live_def chunk_block_def word_unat_eq_iff)
qed

section \<open>Runs with memory\<close>

text \<open>The steps of a program that uses the allocator: it allocates, frees, and writes single bytes
  into blocks it has been given.\<close>

inductive mm_step :: "memoryManager \<times> memory \<Rightarrow> memoryManager \<times> memory \<Rightarrow> bool" where
  step_allocate: "good_size n \<Longrightarrow> allocate spurious n mm = (mm', p) \<Longrightarrow> mm_step (mm, mem) (mm', mem)"
| step_free: "mm_free p mm mem = (mm', mem') \<Longrightarrow> mm_step (mm, mem) (mm', mem')"
| step_write: "c \<in> set (mm_chunks mm) \<Longrightarrow> \<not> chunk_free c \<Longrightarrow> x - chunk_addr c < chunk_size c \<Longrightarrow>
    mm_step (mm, mem) (mm, mem(x := v))"

inductive mm_reachable :: "u64 \<Rightarrow> u64 \<Rightarrow> memoryManager \<times> memory \<Rightarrow> bool" for base sz where
  reach_construct: "mm_reachable base sz (mm_construct base sz mem)"
| reach_step: "mm_reachable base sz s \<Longrightarrow> mm_step s s' \<Longrightarrow> mm_reachable base sz s'"

inductive_cases mm_stepE: "mm_step (mm, mem) (mm', mem')"

definition zeroed :: "u64 \<Rightarrow> u64 \<Rightarrow> memory \<Rightarrow> bool" where
  "zeroed a n mem \<longleftrightarrow> (\<forall>x. x - a < n \<longrightarrow> mem x = 0)"

definition mm_zero :: "memoryManager \<times> memory \<Rightarrow> bool" where
  "mm_zero s \<longleftrightarrow> (\<forall>c \<in> set (mm_chunks (fst s)). chunk_free c \<longrightarrow> zeroed (chunk_addr c) (chunk_size c) (snd s))"

lemma in_range:
  fixes a n x :: u64
  assumes "unat a + unat n < 2 ^ 64"
  shows "x - a < n \<longleftrightarrow> unat a \<le> unat x \<and> unat x < unat a + unat n"
proof (cases "a \<le> x")
  case True
  then show ?thesis by (auto simp: word_less_nat_alt word_le_nat_alt unat_sub)
next
  case False
  then have lt: "unat x < unat a" by (simp add: word_le_nat_alt)
  have "unat (x - a) = 2 ^ 64 + unat x - unat a"
    using lt unsigned_less [of a, where 'a = nat] by (subst unat_sub_if_size) (simp add: word_size)
  then show ?thesis using lt assms by (auto simp: word_less_nat_alt)
qed

lemma zeroed_mono:
  assumes "zeroed a n mem" and "m \<le> n" and "m \<le> k" and "k \<le> n"
  shows "zeroed a m mem" and "zeroed (a + k) (n - k) mem"
proof -
  show "zeroed a m mem" using assms(1,2) by (auto simp: zeroed_def)
  have "x - a < n" if "x - (a + k) < n - k" for x
  proof -
    have "unat (x - (a + k)) + unat k < unat n" using that assms(4) by (simp add: word_less_nat_alt unat_sub word_le_nat_alt)
    moreover from this have "unat (x - (a + k)) + unat k < 2 ^ 64" using unsigned_less [of n, where 'a = nat] by simp
    then have "unat (x - (a + k) + k) = unat (x - (a + k)) + unat k" by (simp only: unat_word_ariths) simp
    moreover have "x - (a + k) + k = x - a" by simp
    ultimately show ?thesis by (simp only: word_less_nat_alt)
  qed
  then show "zeroed (a + k) (n - k) mem" using assms(1) by (auto simp: zeroed_def)
qed

lemma allocate_zero:
  assumes "mm_zero (mm, mem)" and "allocate spurious n mm = (mm', p)"
  shows "mm_zero (mm', mem) \<and> (\<forall>a. p = Some a \<longrightarrow> zeroed a (round_size n) mem)"
proof (rule allocate_cases [where mm = mm and spurious = spurious and n = n], goal_cases none found)
  case none
  then show ?case using assms by simp
next
  case (found pre c post)
  then have "zeroed (chunk_addr c) (chunk_size c) mem" and le: "round_size n \<le> chunk_size c"
    using assms(1) by (auto simp: mm_zero_def fits_def)
  note z = zeroed_mono [OF this(1) le order_refl le]
  have "mm_zero (mm\<lparr>mm_chunks := pre @ taken (round_size n) c @ post\<rparr>, mem)"
    using assms(1) found(1) z(2) by (auto simp: mm_zero_def taken_def new_chunk_def)
  then show ?case using found(4) assms(2) z(1) by auto
qed

lemma mm_free_zero:
  assumes "mm_zero (mm, mem)" and "mm_free p mm mem = (mm', mem')"
  shows "mm_zero (mm', mem')"
proof -
  have mem': "mem' x = (if \<exists>c \<in> set (mm_chunks mm). chunk_addr c = p \<and> x - p < chunk_size c then 0 else mem x)" for x
    using assms(2) free_loop_memory [of p "mm_chunks mm" mem x] by (simp add: mm_free_def case_prod_beta)
  have "mm' = mm\<lparr>mm_chunks := map (\<lambda>c. if chunk_addr c = p then c\<lparr>chunk_free := True\<rparr> else c) (mm_chunks mm)\<rparr>"
    using mm_free_chunks [of p mm mem] assms(2) by simp
  then show ?thesis using assms(1) by (fastforce simp: mm_zero_def zeroed_def mem')
qed

lemma write_zero:
  assumes "mm_inv mm" and "mm_zero (mm, mem)" and "c \<in> set (mm_chunks mm)" and "\<not> chunk_free c" and "x - chunk_addr c < chunk_size c"
  shows "mm_zero (mm, mem(x := v))"
proof -
  have "\<not> x - chunk_addr d < chunk_size d" if d: "d \<in> set (mm_chunks mm)" "chunk_free d" for d
  proof -
    obtain xs ys where cs: "mm_chunks mm = xs @ c # ys" using assms(3) by (meson split_list)
    note lay = assms(1) [unfolded mm_inv_def, THEN conjunct2]
    have bounds: "unat (chunk_addr e) + unat (chunk_size e) < 2 ^ 64" if "e \<in> set (mm_chunks mm)" for e
      using layout_chunk [OF lay that] assms(1) by (auto simp: mm_inv_def)
    have "d \<in> set xs \<union> set ys" using d assms(4) cs by auto
    from layout_disjoint [OF lay [unfolded cs] this] show ?thesis
      using assms(5) in_range [OF bounds [OF assms(3)], of x] in_range [OF bounds [OF d(1)], of x]
      by (auto simp: overlap_def chunk_block_def)
  qed
  then show ?thesis using assms(2) by (auto simp: mm_zero_def zeroed_def)
qed

lemma mm_reachable_inv:
  assumes "unat base + unat sz < 2 ^ 64" and "0 < unat sz"
  shows "mm_reachable base sz s \<Longrightarrow> mm_inv (fst s) \<and> mm_zero s \<and> mm_region (fst s) = (unat base, unat sz)"
proof (induction rule: mm_reachable.induct)
  case (reach_construct mem)
  show ?case using assms
    by (auto simp: mm_construct_def mm_inv_def mm_zero_def zeroed_def memset_def new_chunk_def mm_region_def)
next
  case (reach_step s s')
  from reach_step(2,3) show ?case
  proof (cases rule: mm_step.cases)
    case (step_allocate n spurious mm mm' p mem)
    then show ?thesis using reach_step(3) allocate_inv [of mm n spurious] allocate_zero [of mm mem spurious n mm' p] by auto
  next
    case (step_free p mm mem mm' mem')
    then show ?thesis
      using reach_step(3) mm_free_inv [of mm p mem] mm_free_zero [of mm mem p mm' mem'] mm_free_chunks [of p mm mem]
      by (auto simp: mm_region_def)
  next
    case (step_write c mm x mem v)
    then show ?thesis using reach_step(3) write_zero by auto
  qed
qed

section \<open>Properties\<close>

text \<open>C18. In every state that allocations, frees and writes into allocated blocks can reach, a
  successful allocation returns a block that lies in the managed region, overlaps no block still in
  use, has at least the requested size rounded up to 4096 bytes, and is all zero.\<close>

theorem allocate_fresh_zeroed_block:
  assumes "unat base + unat sz < 2 ^ 64" and "0 < unat sz" and "mm_reachable base sz (mm, mem)" and "good_size n"
    and "allocate spurious n mm = (mm', Some p)"
  shows "unat base \<le> unat p \<and> unat p + unat (round_size n) \<le> unat base + unat sz \<and> unat n \<le> unat (round_size n) \<and>
    (\<forall>b \<in> mm_live mm. \<not> overlap (unat p, unat (round_size n)) b) \<and> mm_live mm' = insert (unat p, unat (round_size n)) (mm_live mm) \<and>
    (\<forall>x. x - p < round_size n \<longrightarrow> mem x = 0)"
proof -
  from mm_reachable_inv [OF assms(1-3)] have mm: "mm_inv mm" "mm_zero (mm, mem)" "mm_region mm = (unat base, unat sz)" by auto
  from allocate_live [OF mm(1) assms(4,5)] allocate_zero [OF mm(2) assms(5)] mm(3) unat_round_size(2) [OF assms(4)]
  show ?thesis by (simp add: mm_region_def zeroed_def)
qed

theorem allocate_fresh_zeroed_block_witness:
  "\<exists>mm mem mm'. mm_reachable 0x10000 0x8000 (mm, mem) \<and> allocate (\<lambda>_. False) 100 mm = (mm', Some 0x10000) \<and>
     (\<forall>x. x - 0x10000 < (0x1000 :: u64) \<longrightarrow> mem x = 0)"
proof -
  let ?s = "mm_construct 0x10000 0x8000 (\<lambda>_. 7)"
  obtain mm mem where s: "?s = (mm, mem)" by (cases ?s)
  have r: "mm_reachable 0x10000 0x8000 (mm, mem)" using reach_construct [of "0x10000" "0x8000" "\<lambda>_. 7"] s by simp
  have rs: "round_size 100 = 0x1000" by (simp add: round_size_def)
  obtain mm' where a: "allocate (\<lambda>_. False) 100 mm = (mm', Some 0x10000)"
    using s by (auto simp: mm_construct_def allocate_def new_chunk_def round_size_def Let_def)
  have h: "unat (0x10000 :: u64) + unat (0x8000 :: u64) < 2 ^ 64" "0 < unat (0x8000 :: u64)" "good_size 100"
    by (simp_all add: good_size_def)
  from allocate_fresh_zeroed_block [OF h(1,2) r h(3) a] r a show ?thesis unfolding rs by blast
qed

text \<open>For every sequence of allocation requests and frees on a new manager, whatever pointers
  are freed and whichever compare-and-swap fails spuriously, the blocks in use lie in the managed
  region and no two of them overlap.\<close>

theorem live_blocks_disjoint:
  assumes "unat base + unat sz < 2 ^ 64" and "0 < unat sz" and "\<forall>r. Inl r \<in> set ops \<longrightarrow> good_size (snd r)"
  shows "mma.disjoint_blocks (mma.run ops (fst (mm_construct base sz mem)))"
proof -
  from mm_reachable_inv [OF assms(1,2) reach_construct] have inv: "mm_inv (fst (mm_construct base sz mem))" by blast
  have "mma.disjoint_blocks (fst (mm_construct base sz mem))"
    by (simp add: mma.disjoint_blocks_def mm_construct_def mm_live_def new_chunk_def)
  from mma.run_disjoint [OF inv this assms(3)] show ?thesis by blast
qed

theorem live_blocks_disjoint_witness:
  "mma.disjoint_blocks (mma.run [Inl (\<lambda>_. False, 100), Inl (\<lambda>_. False, 5000), Inr 0x10000, Inl (\<lambda>i. i = 0, 100)]
     (fst (mm_construct 0x10000 0x8000 (\<lambda>_. 0))))"
  using live_blocks_disjoint [of "0x10000" "0x8000" "[Inl (\<lambda>_. False, 100), Inl (\<lambda>_. False, 5000), Inr 0x10000, Inl (\<lambda>i. i = 0, 100)]" "\<lambda>_. 0"]
  by (simp add: good_size_def)

text \<open>C36. \<open>allocate\<close> is first fit: when no compare-and-swap fails spuriously it returns
  \<open>nullptr\<close> and changes nothing exactly when no free chunk is large enough, and otherwise takes
  the first such chunk, splits off what is not needed as a new free chunk behind it and leaves every
  other chunk as it is.\<close>

theorem allocate_first_fit:
  "(case find (\<lambda>c. chunk_free c \<and> round_size n \<le> chunk_size c) (mm_chunks mm) of
      None \<Rightarrow> allocate (\<lambda>_. False) n mm = (mm, None)
    | Some c \<Rightarrow> (\<exists>pre post. mm_chunks mm = pre @ c # post \<and>
        filter (\<lambda>d. chunk_free d \<and> round_size n \<le> chunk_size d) pre = [] \<and>
        allocate (\<lambda>_. False) n mm = (mm\<lparr>mm_chunks := pre @ taken (round_size n) c @ post\<rparr>, Some (chunk_addr c))))"
proof (rule allocate_cases [where mm = mm and spurious = "\<lambda>_. False" and n = n], goal_cases none found)
  case none
  then have "find (\<lambda>c. chunk_free c \<and> round_size n \<le> chunk_size c) (mm_chunks mm) = None"
    by (auto simp: find_None_iff fits_def in_set_conv_nth)
  with none show ?case by simp
next
  case (found pre c post)
  have pre: "\<not> (chunk_free d \<and> round_size n \<le> chunk_size d)" if "d \<in> set pre" for d
    using found(3) that by (auto simp: fits_def in_set_conv_nth)
  then have "find (\<lambda>c. chunk_free c \<and> round_size n \<le> chunk_size c) pre = None" by (simp add: find_None_iff)
  then have "find (\<lambda>c. chunk_free c \<and> round_size n \<le> chunk_size c) (pre @ c # post) = Some c"
    using found(2) by (induction pre) (auto simp: fits_def split: if_splits)
  moreover have "filter (\<lambda>d. chunk_free d \<and> round_size n \<le> chunk_size d) pre = []" using pre by (auto simp: filter_empty_conv)
  ultimately show ?case using found(1,4) by auto
qed

text \<open>A request of size 0 (or one so large that rounding it up wraps around to 0) is not
  refused: it yields a chunk of size 0, and the next allocation returns the same pointer. Freeing
  that pointer once then releases and clears the second block as well.\<close>

theorem allocate_zero_aliases:
  assumes "round_size z = 0" and "mm_chunks mm = c # cs" and "chunk_free c" and "0 < unat (chunk_size c)"
    and "round_size n \<le> chunk_size c"
  shows "\<exists>mm1 mm2. allocate (\<lambda>_. False) z mm = (mm1, Some (chunk_addr c)) \<and> allocate (\<lambda>_. False) n mm1 = (mm2, Some (chunk_addr c)) \<and>
    (\<forall>mem. \<forall>x. x - chunk_addr c < round_size n \<longrightarrow> snd (mm_free (chunk_addr c) mm2 mem) x = 0) \<and>
    (\<forall>d \<in> set (mm_chunks (fst (mm_free (chunk_addr c) mm2 mem))). chunk_addr d = chunk_addr c \<longrightarrow> chunk_free d)"
proof -
  let ?d = "new_chunk (chunk_addr c) (chunk_size c)"
  let ?mm1 = "mm\<lparr>mm_chunks := c\<lparr>chunk_size := 0, chunk_free := False\<rparr> # ?d # cs\<rparr>"
  let ?mm2 = "mm\<lparr>mm_chunks := c\<lparr>chunk_size := 0, chunk_free := False\<rparr> # taken (round_size n) ?d @ cs\<rparr>"
  have pos: "0 < chunk_size c" using assms(4) by (simp add: word_less_nat_alt)
  have one: "allocate (\<lambda>_. False) z mm = (?mm1, Some (chunk_addr c))"
    using assms(1-3) pos by (simp add: allocate_def Let_def new_chunk_def)
  have "allocate_loop (\<lambda>_. False) 1 (round_size n) (?d # cs) = (taken (round_size n) ?d @ cs, Some (chunk_addr c))"
    using allocate_loop_first_fit [of "[]" "\<lambda>_. False" "round_size n" 1 ?d cs] assms(5) by (simp add: fits_def new_chunk_def)
  then have two: "allocate (\<lambda>_. False) n ?mm1 = (?mm2, Some (chunk_addr c))"
    by (simp add: allocate_def del: allocate_loop.simps(2)) (simp add: split_def)
  have "snd (mm_free (chunk_addr c) ?mm2 mem) x = 0" if "x - chunk_addr c < round_size n" for x mem
    using that free_loop_memory [of "chunk_addr c" "mm_chunks ?mm2" mem x]
    by (auto simp: mm_free_def case_prod_beta taken_def new_chunk_def)
  moreover have "\<forall>d \<in> set (mm_chunks (fst (mm_free (chunk_addr c) ?mm2 mem))). chunk_addr d = chunk_addr c \<longrightarrow> chunk_free d"
    by (auto simp: mm_free_chunks)
  ultimately show ?thesis using one two by blast
qed

theorem allocate_zero_aliases_witness:
  "\<exists>mm1 mm2. allocate (\<lambda>_. False) 0 (fst (mm_construct 0x10000 0x8000 (\<lambda>_. 0))) = (mm1, Some 0x10000) \<and>
     allocate (\<lambda>_. False) 100 mm1 = (mm2, Some 0x10000)"
  using allocate_zero_aliases [of 0 "fst (mm_construct 0x10000 0x8000 (\<lambda>_. 0))" "new_chunk 0x10000 0x8000" "[]" 100]
  by (simp add: mm_construct_def new_chunk_def round_size_def) blast

end
