(* ===== verification/Register_Controllers.thy ===== *)
theory Register_Controllers
  imports Tlb Dma_Bench
begin

text \<open>
  \<^verbatim>\<open>hdl/common/dma_controller.sv\<close> and \<^verbatim>\<open>hdl/common/benchmark_controller.sv\<close>: the register files that
  the host controller writes and reads, one completed AXI-Lite transaction per step. The
  handshakes (ready, valid, response) of a transaction are in \<^verbatim>\<open>Axi_Lite\<close>; the vendor's clock-domain
  crossing is not modelled.

  \<^item> A write to the TLB register collects 32-bit words by \<open>word_counter\<close>; the fifth one passes
    the collected bits to the TLB, where \<open>unpack_mapping\<close> reads them in field order.
  \<^item> A write to a benchmark register collects eight words in the same way and starts a run. The
    controller has one \<open>word_counter\<close> for both benchmark registers.
  \<^item> Reads of 64-bit values return the lower and the upper half in turn; reads of the statistics
    register cycle through the ten counters.
  \<^item> The inputs of the controllers (counters, execution cycles) are fields of the state that the
    environment sets.
\<close>

section \<open>The DMA controller\<close>

record dma_counters =
  dma_write_cmd_counter :: u32
  dma_write_word_counter :: u32
  dma_write_pkg_counter :: u32
  dma_write_length_counter :: u48
  dma_read_cmd_counter :: u32
  dma_read_word_counter :: u32
  dma_read_pkg_counter :: u32
  dma_read_length_counter :: u48
  tlb_miss_counter :: u32
  tlb_boundary_crossing_counter :: u32
  dma_reads_flushed :: bool

record dma_ctrl =
  dc_word_counter :: u8
  dc_tlb_data :: "136 word"
  dc_tlb_out :: "tlbMapping list"
  dc_debugRegAddr :: u8
  dc_read_length_upper :: bool
  dc_write_length_upper :: bool
  dc_counters :: dma_counters

definition dma_ctrl_reset :: "136 word \<Rightarrow> dma_counters \<Rightarrow> dma_ctrl" where
  "dma_ctrl_reset w cs =
     \<lparr>dc_word_counter = 0, dc_tlb_data = w, dc_tlb_out = [], dc_debugRegAddr = 0,
      dc_read_length_upper = False, dc_write_length_upper = False, dc_counters = cs\<rparr>"

definition unpack_mapping :: "136 word \<Rightarrow> tlbMapping" where
  "unpack_mapping w = \<lparr>map_vaddr = range_get 63 0 w, map_paddr = range_get 127 64 w, map_isBase = bit w 128\<rparr>"

text \<open>\<open>addr\<close> is the register number, \<open>axil_awaddr[11:0] >> 5\<close>.\<close>

definition dma_ctrl_write :: "nat \<Rightarrow> u32 \<Rightarrow> dma_ctrl \<Rightarrow> dma_ctrl" where
  "dma_ctrl_write addr wdata st =
     (if addr = 2 then
        (let n = unat (dc_word_counter st); st' = st\<lparr>dc_word_counter := dc_word_counter st + 1\<rparr>; w = dc_tlb_data st in
         if n = 0 then st'\<lparr>dc_tlb_data := range_set 31 0 wdata w\<rparr>
         else if n = 1 then st'\<lparr>dc_tlb_data := range_set 63 32 wdata w\<rparr>
         else if n = 2 then st'\<lparr>dc_tlb_data := range_set 95 64 wdata w\<rparr>
         else if n = 3 then st'\<lparr>dc_tlb_data := range_set 127 96 wdata w\<rparr>
         else if n = 4 then
           (let w' = range_set 128 128 (range_get 0 0 wdata :: 1 word) w
            in st\<lparr>dc_word_counter := 0, dc_tlb_data := w', dc_tlb_out := dc_tlb_out st @ [unpack_mapping w']\<rparr>)
         else st')
      else if addr = 10 then st\<lparr>dc_counters := (dc_counters st)\<lparr>dma_read_length_counter := 0\<rparr>\<rparr>
      else if addr = 11 then st\<lparr>dc_counters := (dc_counters st)\<lparr>dma_write_length_counter := 0\<rparr>\<rparr>
      else st)"

definition stats_reg :: "dma_counters \<Rightarrow> nat \<Rightarrow> u32" where
  "stats_reg cs i =
     (if i = 0 then dma_write_cmd_counter cs
      else if i = 1 then dma_write_word_counter cs
      else if i = 2 then dma_write_pkg_counter cs
      else if i = 3 then range_get 31 0 (dma_write_length_counter cs)
      else if i = 4 then dma_read_cmd_counter cs
      else if i = 5 then dma_read_word_counter cs
      else if i = 6 then dma_read_pkg_counter cs
      else if i = 7 then range_get 31 0 (dma_read_length_counter cs)
      else if i = 8 then tlb_miss_counter cs
      else if i = 9 then tlb_boundary_crossing_counter cs
      else 0)"

definition length_half :: "bool \<Rightarrow> u48 \<Rightarrow> u32" where
  "length_half upper c = (if \<not> upper then range_get 31 0 c else range_get 47 32 c)"

text \<open>The idle state resets \<open>debugRegAddr\<close> after the last register, before the next read.\<close>

definition dma_ctrl_read :: "nat \<Rightarrow> dma_ctrl \<Rightarrow> u32 \<times> dma_ctrl" where
  "dma_ctrl_read addr st =
     (let st = (if dc_debugRegAddr st = 10 then st\<lparr>dc_debugRegAddr := 0\<rparr> else st); cs = dc_counters st in
      if addr = 10 then
        (if dma_reads_flushed cs then length_half (dc_read_length_upper st) (dma_read_length_counter cs) else 0,
         st\<lparr>dc_read_length_upper := \<not> dc_read_length_upper st\<rparr>)
      else if addr = 11 then
        (length_half (dc_write_length_upper st) (dma_write_length_counter cs),
         st\<lparr>dc_write_length_upper := \<not> dc_write_length_upper st\<rparr>)
      else if addr = 13 then
        (stats_reg cs (unat (dc_debugRegAddr st)), st\<lparr>dc_debugRegAddr := dc_debugRegAddr st + 1\<rparr>)
      else (0xdeadbeef, st))"

section \<open>The benchmark controller\<close>

record bench_cmd =
  bcmd_regs :: bench_regs
  bcmd_dest :: "2 word"

record bench_ctrl =
  bn_word_counter :: u8
  bn_ddr_data :: "193 word"
  bn_dma_data :: "193 word"
  bn_ddr_out :: "bench_cmd list"
  bn_dma_out :: "bench_cmd list"
  bn_ddr_upper :: bool
  bn_dma_upper :: bool
  bn_ddr_cycles :: u64
  bn_dma_cycles :: u64

definition bench_ctrl_reset :: "193 word \<Rightarrow> 193 word \<Rightarrow> bench_ctrl" where
  "bench_ctrl_reset w v =
     \<lparr>bn_word_counter = 0, bn_ddr_data = w, bn_dma_data = v, bn_ddr_out = [], bn_dma_out = [],
      bn_ddr_upper = False, bn_dma_upper = False, bn_ddr_cycles = 0, bn_dma_cycles = 0\<rparr>"

text \<open>The role reads the fields of the 193 collected bits and zero-extends the two 48-bit ones.\<close>

definition unpack_bench :: "193 word \<Rightarrow> bench_regs" where
  "unpack_bench w =
     \<lparr>regBaseAddr = range_get 47 0 w, memorySize = range_get 95 48 w, numberOfAccesses = range_get 127 96 w,
      chunkLength = range_get 159 128 w, strideLength = range_get 191 160 w, isWrite = bit w 192, start = True\<rparr>"

text \<open>The eight cases of the word counter, the same for both registers; the last one is complete.\<close>

definition collect :: "nat \<Rightarrow> u32 \<Rightarrow> 193 word \<Rightarrow> 193 word" where
  "collect n wdata w =
     (if n = 0 then range_set 31 0 wdata w
      else if n = 1 then range_set 47 32 wdata w
      else if n = 2 then range_set 79 48 wdata w
      else if n = 3 then range_set 95 80 wdata w
      else if n = 4 then range_set 127 96 wdata w
      else if n = 5 then range_set 159 128 wdata w
      else if n = 6 then range_set 191 160 wdata w
      else if n = 7 then range_set 192 192 (range_get 0 0 wdata :: 1 word) w
      else w)"

definition bench_ctrl_write :: "nat \<Rightarrow> u32 \<Rightarrow> bench_ctrl \<Rightarrow> bench_ctrl" where
  "bench_ctrl_write addr wdata st =
     (let n = unat (bn_word_counter st); c = (if n = 7 then 0 else bn_word_counter st + 1) in
      if addr = 2 then
        (let w = collect n wdata (bn_ddr_data st); st' = st\<lparr>bn_word_counter := c, bn_ddr_data := w\<rparr>
         in if n = 7 then st'\<lparr>bn_ddr_out := bn_ddr_out st @ [\<lparr>bcmd_regs = unpack_bench w, bcmd_dest = range_get 2 1 wdata\<rparr>], bn_ddr_cycles := 0\<rparr>
            else st')
      else if addr = 3 then
        (let w = collect n wdata (bn_dma_data st); st' = st\<lparr>bn_word_counter := c, bn_dma_data := w\<rparr>
         in if n = 7 then st'\<lparr>bn_dma_out := bn_dma_out st @ [\<lparr>bcmd_regs = unpack_bench w, bcmd_dest = 0\<rparr>], bn_dma_cycles := 0\<rparr>
            else st')
      else st)"

definition bench_ctrl_read :: "nat \<Rightarrow> bench_ctrl \<Rightarrow> u32 \<times> bench_ctrl" where
  "bench_ctrl_read addr st =
     (if addr = 13 then
        (if \<not> bn_ddr_upper st then range_get 31 0 (bn_ddr_cycles st) else range_get 63 32 (bn_ddr_cycles st),
         st\<lparr>bn_ddr_upper := \<not> bn_ddr_upper st\<rparr>)
      else if addr = 14 then
        (if \<not> bn_dma_upper st then range_get 31 0 (bn_dma_cycles st) else range_get 63 32 (bn_dma_cycles st),
         st\<lparr>bn_dma_upper := \<not> bn_dma_upper st\<rparr>)
      else (0xdeadbeef, st))"

section \<open>Complete requests\<close>

lemma unpack_five_words:
  "unpack_mapping (range_set 128 128 (range_get 0 0 (if b then 1 else 0 :: u32) :: 1 word)
     (range_set 127 96 (ucast (drop_bit 32 p) :: u32) (range_set 95 64 (ucast p :: u32)
       (range_set 63 32 (ucast (drop_bit 32 v) :: u32) (range_set 31 0 (ucast v :: u32) w))))) =
   \<lparr>map_vaddr = v, map_paddr = p, map_isBase = b\<rparr>" (is "unpack_mapping ?w = _")
proof -
  have "(range_get 63 0 ?w :: u64) = v"
    by (rule bit_word_eqI) (auto simp: bit_range_get bit_range_set bit_simps)
  moreover have "(range_get 127 64 ?w :: u64) = p"
    by (rule bit_word_eqI) (auto simp: bit_range_get bit_range_set bit_simps)
  moreover have "bit ?w 128 = b" by (simp add: bit_range_set bit_range_get)
  ultimately show ?thesis by (simp only: unpack_mapping_def)
qed

lemma dma_ctrl_tlb_write:
  assumes "dc_word_counter st = 0"
  shows "\<exists>w. dma_ctrl_write 2 (if b then 1 else 0) (dma_ctrl_write 2 (ucast (drop_bit 32 p)) (dma_ctrl_write 2 (ucast p)
     (dma_ctrl_write 2 (ucast (drop_bit 32 v)) (dma_ctrl_write 2 (ucast v) st)))) =
   st\<lparr>dc_tlb_data := w, dc_tlb_out := dc_tlb_out st @ [\<lparr>map_vaddr = v, map_paddr = p, map_isBase = b\<rparr>]\<rparr>"
  using assms by (cases st) (simp add: dma_ctrl_write_def unpack_five_words [simplified])

text \<open>The eight words of a benchmark request, of which the address and the size lose their upper 16 bits.\<close>

definition requested :: "u64 \<Rightarrow> u64 \<Rightarrow> u32 \<Rightarrow> u32 \<Rightarrow> u32 \<Rightarrow> bool \<Rightarrow> bench_regs" where
  "requested a m n c s w =
     \<lparr>regBaseAddr = take_bit 48 a, memorySize = take_bit 48 m, numberOfAccesses = n, chunkLength = c, strideLength = s, isWrite = w, start = True\<rparr>"

definition collected :: "u64 \<Rightarrow> u64 \<Rightarrow> u32 \<Rightarrow> u32 \<Rightarrow> u32 \<Rightarrow> u32 \<Rightarrow> 193 word \<Rightarrow> 193 word" where
  "collected a m n c s op w =
     collect 7 op (collect 6 s (collect 5 c (collect 4 n (collect 3 (ucast (drop_bit 32 m)) (collect 2 (ucast m)
       (collect 1 (ucast (drop_bit 32 a)) (collect 0 (ucast a) w)))))))"

lemma bit_collected:
  assumes "i < 193"
  shows "bit (collected a m n c s op w) i =
    (if i < 48 then bit a i else if i < 96 then bit m (i - 48) else if i < 128 then bit n (i - 96)
     else if i < 160 then bit c (i - 128) else if i < 192 then bit s (i - 160) else bit op 0)"
  using assms
  by (auto simp: collected_def collect_def bit_range_set bit_range_get bit_simps not_less)

lemma unpack_collected: "unpack_bench (collected a m n c s op w) = requested a m n c s (bit op 0)"
proof -
  let ?w = "collected a m n c s op w"
  have "(range_get 47 0 ?w :: u64) = take_bit 48 a" "(range_get 95 48 ?w :: u64) = take_bit 48 m"
    "(range_get 127 96 ?w :: u32) = n" "(range_get 159 128 ?w :: u32) = c" "(range_get 191 160 ?w :: u32) = s"
    by (rule bit_word_eqI; auto simp: bit_range_get bit_collected bit_simps)+
  moreover have "bit ?w 192 = bit op 0" by (simp add: bit_collected)
  ultimately show ?thesis by (simp only: unpack_bench_def requested_def)
qed

lemma bench_ctrl_dma_request:
  assumes "bn_word_counter st = 0"
  shows "\<exists>w. bench_ctrl_write 3 op (bench_ctrl_write 3 s (bench_ctrl_write 3 c (bench_ctrl_write 3 n
      (bench_ctrl_write 3 (ucast (drop_bit 32 m)) (bench_ctrl_write 3 (ucast m)
        (bench_ctrl_write 3 (ucast (drop_bit 32 a)) (bench_ctrl_write 3 (ucast a) st))))))) =
    st\<lparr>bn_dma_data := w, bn_dma_out := bn_dma_out st @ [\<lparr>bcmd_regs = requested a m n c s (bit op 0), bcmd_dest = 0\<rparr>], bn_dma_cycles := 0\<rparr>"
  using assms unpack_collected [of a m n c s op "bn_dma_data st", unfolded collected_def]
  by (cases st) (simp add: bench_ctrl_write_def Let_def)

lemma bench_ctrl_ddr_request:
  assumes "bn_word_counter st = 0"
  shows "\<exists>w. bench_ctrl_write 2 op (bench_ctrl_write 2 s (bench_ctrl_write 2 c (bench_ctrl_write 2 n
      (bench_ctrl_write 2 (ucast (drop_bit 32 m)) (bench_ctrl_write 2 (ucast m)
        (bench_ctrl_write 2 (ucast (drop_bit 32 a)) (bench_ctrl_write 2 (ucast a) st))))))) =
    st\<lparr>bn_ddr_data := w, bn_ddr_out := bn_ddr_out st @ [\<lparr>bcmd_regs = requested a m n c s (bit op 0), bcmd_dest = range_get 2 1 op\<rparr>], bn_ddr_cycles := 0\<rparr>"
  using assms unpack_collected [of a m n c s op "bn_ddr_data st", unfolded collected_def]
  by (cases st) (simp add: bench_ctrl_write_def Let_def)

end
