(* ===== verification/Fpga_Controller.thy ===== *)
theory Fpga_Controller
  imports Register_Controllers
begin

text \<open>
  \<^verbatim>\<open>sw/src/fpga/FpgaController.h\<close> and \<^verbatim>\<open>FpgaController.cpp\<close>: the host's access to the registers of
  the FPGA.

  \<^item> The mapped control device is a parameter: a record of what a 32-bit store, a 32-bit load and
    one second of sleep do to the state of the device. Addresses are offsets from \<open>m_base\<close>.
  \<^item> Every operation holds \<open>ctrl_mutex\<close> for its whole body and is one function of the device here; \<^verbatim>\<open>Controller_Threads\<close>
    shows that concurrent calls act as such functions one after the other.
  \<^item> The polling loops may run forever; they are partial functions with result \<open>None\<close> then.
  \<^item> A function that reaches its end without the \<open>return\<close> it owes its caller yields
    \<open>Missing_Return\<close>; what it did to the device stays.
  \<^item> \<open>fpga_device\<close> is the device of the repository: the register files of
    \<open>Register_Controllers\<close> at the addresses of the crossbar.

  The lemmas show that \<open>writeTlb\<close> delivers exactly its mapping to the TLB and leaves the register
  file ready for the next one, that a benchmark request arrives with its parameters and returns the
  execution cycles once they are available, and that the statistics are printed under their names.
\<close>

section \<open>Register addresses\<close>

datatype memoryOp = READ | WRITE

fun memoryOp_value :: "memoryOp \<Rightarrow> u32" where
  "memoryOp_value READ = 0"
| "memoryOp_value WRITE = 1"

datatype userCtrlAddr = DDR_BENCH | DMA_BENCH | USER_DEBUG | DDR_BENCH_CYCLES | DMA_BENCH_CYCLES

fun userCtrlAddr_value :: "userCtrlAddr \<Rightarrow> u32" where
  "userCtrlAddr_value DDR_BENCH = 2"
| "userCtrlAddr_value DMA_BENCH = 3"
| "userCtrlAddr_value USER_DEBUG = 12"
| "userCtrlAddr_value DDR_BENCH_CYCLES = 13"
| "userCtrlAddr_value DMA_BENCH_CYCLES = 14"

datatype dmaCtrlAddr = TLB | DMA_READS | DMA_WRITES | DMA_STATS

fun dmaCtrlAddr_value :: "dmaCtrlAddr \<Rightarrow> u32" where
  "dmaCtrlAddr_value TLB = 2"
| "dmaCtrlAddr_value DMA_READS = 10"
| "dmaCtrlAddr_value DMA_WRITES = 11"
| "dmaCtrlAddr_value DMA_STATS = 13"

datatype ddrCtrlAddr = DDR_DEBUG | DDR_STATS | DDR_READS | DDR_WRITES

fun ddrCtrlAddr_value :: "ddrCtrlAddr \<Rightarrow> u32" where
  "ddrCtrlAddr_value DDR_DEBUG = 9"
| "ddrCtrlAddr_value DDR_STATS = 1"
| "ddrCtrlAddr_value DDR_READS = 2"
| "ddrCtrlAddr_value DDR_WRITES = 3"

definition userRegAddressOffset :: u64 where "userRegAddressOffset = 0"
definition dmaRegAddressOffset :: u64 where "dmaRegAddressOffset = 4096"
definition ddrRegAddressOffset :: "u64 list" where "ddrRegAddressOffset = [8192, 12288, 16384, 20480]"

definition numDebugRegs :: nat where "numDebugRegs = 0"
definition RegNames :: "string list" where
  "RegNames = [''TLB Miss counter'', ''TLB Page Boundary crossing counter'']"

definition numDmaStatsRegs :: nat where "numDmaStatsRegs = 10"
definition DmaRegNames :: "string list" where
  "DmaRegNames = [''DMA write cmd counter'', ''DMA write word counter'', ''DMA write pkg counter'', ''DMA write length counter'',
     ''DMA read cmd counter'', ''DMA read word counter'', ''DMA read pkg counter'', ''DMA read length counter'',
     ''TLB Miss counter'', ''TLB Page Boundary crossing counter'']"

definition numDdrStatsRegs :: nat where "numDdrStatsRegs = 13"
definition DdrRegNames :: "string list" where
  "DdrRegNames = [''write cmd counter'', ''write word counter'', ''write pkg counter'', ''write length counter'',
     ''write status counter'', ''write error counter'', ''read cmd counter'', ''read word counter'', ''read pkg counter'',
     ''read length counter'', ''read status counter'', ''read error counter'', ''datamover errors'']"

section \<open>Register access\<close>

record 'd device =
  host_little :: bool
  dev_write :: "u64 \<Rightarrow> u32 \<Rightarrow> 'd \<Rightarrow> 'd"
  dev_read :: "u64 \<Rightarrow> 'd \<Rightarrow> u32 \<times> 'd"
  dev_sleep :: "'d \<Rightarrow> 'd"

text \<open>\<open>htols\<close> is the identity on a little-endian host and swaps the lower two bytes, dropping
  the upper two, on a big-endian one.\<close>

definition htols :: "bool \<Rightarrow> u32 \<Rightarrow> u32" where
  "htols little x = (if little then x else (drop_bit 8 x AND 0xFF) OR push_bit 8 (x AND 0xFF))"

definition reg_offset :: "u64 \<Rightarrow> u32 \<Rightarrow> u64" where
  "reg_offset base addr = base + ucast (push_bit 5 addr)"

definition writeReg_user :: "'d device \<Rightarrow> userCtrlAddr \<Rightarrow> u32 \<Rightarrow> 'd \<Rightarrow> 'd" where
  "writeReg_user dev addr v = dev_write dev (reg_offset userRegAddressOffset (userCtrlAddr_value addr)) (htols (host_little dev) v)"

definition writeReg_dma :: "'d device \<Rightarrow> dmaCtrlAddr \<Rightarrow> u32 \<Rightarrow> 'd \<Rightarrow> 'd" where
  "writeReg_dma dev addr v = dev_write dev (reg_offset dmaRegAddressOffset (dmaCtrlAddr_value addr)) (htols (host_little dev) v)"

definition readReg_user :: "'d device \<Rightarrow> userCtrlAddr \<Rightarrow> 'd \<Rightarrow> u32 \<times> 'd" where
  "readReg_user dev addr d =
     (case dev_read dev (reg_offset userRegAddressOffset (userCtrlAddr_value addr)) d of (v, d') \<Rightarrow> (htols (host_little dev) v, d'))"

definition readReg_dma :: "'d device \<Rightarrow> dmaCtrlAddr \<Rightarrow> 'd \<Rightarrow> u32 \<times> 'd" where
  "readReg_dma dev addr d =
     (case dev_read dev (reg_offset dmaRegAddressOffset (dmaCtrlAddr_value addr)) d of (v, d') \<Rightarrow> (htols (host_little dev) v, d'))"

datatype ctrl_error = Missing_Return | Channel_Out_Of_Range u8

definition readReg_ddr :: "'d device \<Rightarrow> ddrCtrlAddr \<Rightarrow> u8 \<Rightarrow> 'd \<Rightarrow> ctrl_error + u32 \<times> 'd" where
  "readReg_ddr dev addr channel d =
     (if unat channel < length ddrRegAddressOffset then
        (case dev_read dev (reg_offset (ddrRegAddressOffset ! unat channel) (ddrCtrlAddr_value addr)) d of
           (v, d') \<Rightarrow> Inr (htols (host_little dev) v, d'))
      else Inl (Channel_Out_Of_Range channel))"

section \<open>Operations\<close>

definition writeTlb :: "'d device \<Rightarrow> u64 \<Rightarrow> u64 \<Rightarrow> bool \<Rightarrow> 'd \<Rightarrow> 'd" where
  "writeTlb dev vaddr paddr isBase d =
     (let d = writeReg_dma dev TLB (ucast vaddr) d;
          d = writeReg_dma dev TLB (ucast (drop_bit 32 vaddr)) d;
          d = writeReg_dma dev TLB (ucast paddr) d;
          d = writeReg_dma dev TLB (ucast (drop_bit 32 paddr)) d
      in writeReg_dma dev TLB (if isBase then 1 else 0) d)"

definition join_halves :: "u32 \<Rightarrow> u32 \<Rightarrow> u64" where
  "join_halves lower upper = push_bit 32 (ucast upper) OR ucast lower"

text \<open>The loop that waits for the execution cycles.\<close>

partial_function (option) poll_cycles :: "'d device \<Rightarrow> userCtrlAddr \<Rightarrow> 'd \<Rightarrow> (u64 \<times> 'd) option" where
  "poll_cycles dev addr d =
     (let d = dev_sleep dev d;
          (lower, d) = readReg_user dev addr d;
          (upper, d) = readReg_user dev addr d
      in if lower = 0 then poll_cycles dev addr d else Some (join_halves lower upper, d))"

definition bench_request ::
  "'d device \<Rightarrow> userCtrlAddr \<Rightarrow> u64 \<Rightarrow> u64 \<Rightarrow> u32 \<Rightarrow> u32 \<Rightarrow> u32 \<Rightarrow> u32 \<Rightarrow> 'd \<Rightarrow> 'd" where
  "bench_request dev addr baseAddr memSize nAccesses chunk stride op d =
     (let d = writeReg_user dev addr (ucast baseAddr) d;
          d = writeReg_user dev addr (ucast (drop_bit 32 baseAddr)) d;
          d = writeReg_user dev addr (ucast memSize) d;
          d = writeReg_user dev addr (ucast (drop_bit 32 memSize)) d;
          d = writeReg_user dev addr nAccesses d;
          d = writeReg_user dev addr chunk d;
          d = writeReg_user dev addr stride d
      in writeReg_user dev addr op d)"

definition runDmaBenchmark ::
  "'d device \<Rightarrow> u64 \<Rightarrow> u64 \<Rightarrow> u32 \<Rightarrow> u32 \<Rightarrow> u32 \<Rightarrow> memoryOp \<Rightarrow> 'd \<Rightarrow> (u64 \<times> 'd) option" where
  "runDmaBenchmark dev baseAddr memSize nAccesses chunk stride op d =
     poll_cycles dev DMA_BENCH_CYCLES
       (bench_request dev DMA_BENCH baseAddr memSize nAccesses chunk stride (memoryOp_value op) d)"

definition runDramBenchmark ::
  "'d device \<Rightarrow> u64 \<Rightarrow> u64 \<Rightarrow> u32 \<Rightarrow> u32 \<Rightarrow> u32 \<Rightarrow> memoryOp \<Rightarrow> u8 \<Rightarrow> 'd \<Rightarrow> (u64 \<times> 'd) option" where
  "runDramBenchmark dev baseAddr memSize nAccesses chunk stride op channel d =
     poll_cycles dev DDR_BENCH_CYCLES
       (bench_request dev DDR_BENCH baseAddr memSize nAccesses chunk stride
         (push_bit 1 (ucast channel) OR memoryOp_value op) d)"

text \<open>The public entry points call the private one and drop its result.\<close>

definition without_return :: "(u64 \<times> 'd) option \<Rightarrow> ((ctrl_error + u64) \<times> 'd) option" where
  "without_return r = map_option (\<lambda>(_, d). (Inl Missing_Return, d)) r"

definition runDmaSeqWriteBenchmark where
  "runDmaSeqWriteBenchmark dev baseAddr memSize nAccesses chunk d =
     without_return (runDmaBenchmark dev baseAddr memSize nAccesses chunk 0 WRITE d)"

definition runDmaSeqReadBenchmark where
  "runDmaSeqReadBenchmark dev baseAddr memSize nAccesses chunk d =
     without_return (runDmaBenchmark dev baseAddr memSize nAccesses chunk 0 READ d)"

definition runDmaRandomWriteBenchmark where
  "runDmaRandomWriteBenchmark dev baseAddr memSize nAccesses chunk stride d =
     without_return (runDmaBenchmark dev baseAddr memSize nAccesses chunk stride WRITE d)"

definition runDmaRandomReadBenchmark where
  "runDmaRandomReadBenchmark dev baseAddr memSize nAccesses chunk stride d =
     without_return (runDmaBenchmark dev baseAddr memSize nAccesses chunk stride READ d)"

definition runDramSeqWriteBenchmark where
  "runDramSeqWriteBenchmark dev baseAddr memSize nAccesses chunk channel d =
     without_return (runDramBenchmark dev baseAddr memSize nAccesses chunk 0 WRITE channel d)"

definition runDramSeqReadBenchmark where
  "runDramSeqReadBenchmark dev baseAddr memSize nAccesses chunk channel d =
     without_return (runDramBenchmark dev baseAddr memSize nAccesses chunk 0 READ channel d)"

definition runDramRandomWriteBenchmark where
  "runDramRandomWriteBenchmark dev baseAddr memSize nAccesses chunk stride channel d =
     without_return (runDramBenchmark dev baseAddr memSize nAccesses chunk stride WRITE channel d)"

definition runDramRandomReadBenchmark where
  "runDramRandomReadBenchmark dev baseAddr memSize nAccesses chunk stride channel d =
     without_return (runDramBenchmark dev baseAddr memSize nAccesses chunk stride READ channel d)"

text \<open>Their register writes are commented out in the source.\<close>

definition setIpAddr :: "'d device \<Rightarrow> u32 \<Rightarrow> 'd \<Rightarrow> 'd" where
  "setIpAddr dev addr d = d"

definition setBoardNumber :: "'d device \<Rightarrow> u8 \<Rightarrow> 'd \<Rightarrow> 'd" where
  "setBoardNumber dev num d = d"

definition resetDmaReads :: "'d device \<Rightarrow> 'd \<Rightarrow> 'd" where
  "resetDmaReads dev = writeReg_dma dev DMA_READS 1"

definition resetDmaWrites :: "'d device \<Rightarrow> 'd \<Rightarrow> 'd" where
  "resetDmaWrites dev = writeReg_dma dev DMA_WRITES 1"

definition getDmaReads :: "'d device \<Rightarrow> 'd \<Rightarrow> u64 \<times> 'd" where
  "getDmaReads dev d =
     (let (lower, d) = readReg_dma dev DMA_READS d; (upper, d) = readReg_dma dev DMA_READS d in (join_halves lower upper, d))"

definition getDmaWrites :: "'d device \<Rightarrow> 'd \<Rightarrow> u64 \<times> 'd" where
  "getDmaWrites dev d =
     (let (lower, d) = readReg_dma dev DMA_WRITES d; (upper, d) = readReg_dma dev DMA_WRITES d in (join_halves lower upper, d))"

text \<open>The print loops; the result is the lines printed between the two rules, as name and value.\<close>

fun print_regs :: "('d \<Rightarrow> u32 \<times> 'd) \<Rightarrow> string list \<Rightarrow> 'd \<Rightarrow> (string \<times> u32) list \<times> 'd" where
  "print_regs rd [] d = ([], d)"
| "print_regs rd (name # names) d =
     (let (v, d) = rd d; (lines, d) = print_regs rd names d in ((name, v) # lines, d))"

definition printDebugRegs :: "'d device \<Rightarrow> 'd \<Rightarrow> (string \<times> u32) list \<times> 'd" where
  "printDebugRegs dev = print_regs (readReg_user dev USER_DEBUG) (take numDebugRegs RegNames)"

definition printDmaStatsRegs :: "'d device \<Rightarrow> 'd \<Rightarrow> (string \<times> u32) list \<times> 'd" where
  "printDmaStatsRegs dev = print_regs (readReg_dma dev DMA_STATS) (take numDmaStatsRegs DmaRegNames)"

fun print_ddr_regs :: "('d \<Rightarrow> ctrl_error + u32 \<times> 'd) \<Rightarrow> string list \<Rightarrow> 'd \<Rightarrow> ctrl_error + (string \<times> u32) list \<times> 'd" where
  "print_ddr_regs rd [] d = Inr ([], d)"
| "print_ddr_regs rd (name # names) d =
     (case rd d of Inl e \<Rightarrow> Inl e
      | Inr (v, d) \<Rightarrow> (case print_ddr_regs rd names d of Inl e \<Rightarrow> Inl e | Inr (lines, d) \<Rightarrow> Inr ((name, v) # lines, d)))"

definition printDdrStatsRegs :: "'d device \<Rightarrow> u8 \<Rightarrow> 'd \<Rightarrow> ctrl_error + (string \<times> u32) list \<times> 'd" where
  "printDdrStatsRegs dev channel = print_ddr_regs (readReg_ddr dev DDR_STATS channel) (take numDdrStatsRegs DdrRegNames)"

text \<open>When every read succeeds, the loop with errors is the loop without.\<close>

lemma print_ddr_regs_eq:
  "print_ddr_regs (\<lambda>d. Inr (rd d)) names d = Inr (print_regs rd names d)"
  by (induction names arbitrary: d) (auto simp: Let_def split: prod.split)

lemma print_ddr_regs_fails: "names \<noteq> [] \<Longrightarrow> print_ddr_regs (\<lambda>d. Inl e) names d = Inl e"
  by (cases names) simp_all

section \<open>The FPGA as a device\<close>

record fpga_regs =
  fr_dma :: dma_ctrl
  fr_bench :: bench_ctrl

text \<open>The crossbar gives each controller one 4 KB window; the number of a register is its offset
  in the window divided by 32. The memory controllers' windows are the parameter \<open>ddr\<close>, and what
  changes during a sleep is the parameter \<open>tick\<close>.\<close>

definition fpga_write :: "u64 \<Rightarrow> u32 \<Rightarrow> fpga_regs \<Rightarrow> fpga_regs" where
  "fpga_write off v d =
     (if unat off < 4096 then d\<lparr>fr_bench := bench_ctrl_write (unat off div 32) v (fr_bench d)\<rparr>
      else if unat off < 8192 then d\<lparr>fr_dma := dma_ctrl_write (unat off mod 4096 div 32) v (fr_dma d)\<rparr>
      else d)"

definition fpga_read :: "(u64 \<Rightarrow> u32) \<Rightarrow> u64 \<Rightarrow> fpga_regs \<Rightarrow> u32 \<times> fpga_regs" where
  "fpga_read ddr off d =
     (if unat off < 4096 then (case bench_ctrl_read (unat off div 32) (fr_bench d) of (v, c) \<Rightarrow> (v, d\<lparr>fr_bench := c\<rparr>))
      else if unat off < 8192 then (case dma_ctrl_read (unat off mod 4096 div 32) (fr_dma d) of (v, c) \<Rightarrow> (v, d\<lparr>fr_dma := c\<rparr>))
      else (ddr off, d))"

definition fpga_device :: "(u64 \<Rightarrow> u32) \<Rightarrow> (fpga_regs \<Rightarrow> fpga_regs) \<Rightarrow> fpga_regs device" where
  "fpga_device ddr tick = \<lparr>host_little = True, dev_write = fpga_write, dev_read = fpga_read ddr, dev_sleep = tick\<rparr>"

section \<open>Accesses reach the registers\<close>

lemma fpga_writeReg_dma:
  "writeReg_dma (fpga_device ddr tick) a v d = d\<lparr>fr_dma := dma_ctrl_write (unat (dmaCtrlAddr_value a)) v (fr_dma d)\<rparr>"
  by (cases a)
     (simp_all add: writeReg_dma_def fpga_device_def fpga_write_def reg_offset_def dmaRegAddressOffset_def htols_def push_bit_eq_mult)

lemma fpga_writeReg_user:
  "writeReg_user (fpga_device ddr tick) a v d = d\<lparr>fr_bench := bench_ctrl_write (unat (userCtrlAddr_value a)) v (fr_bench d)\<rparr>"
  by (cases a)
     (simp_all add: writeReg_user_def fpga_device_def fpga_write_def reg_offset_def userRegAddressOffset_def htols_def push_bit_eq_mult)

lemma fpga_readReg_dma:
  "readReg_dma (fpga_device ddr tick) a d =
     (case dma_ctrl_read (unat (dmaCtrlAddr_value a)) (fr_dma d) of (v, c) \<Rightarrow> (v, d\<lparr>fr_dma := c\<rparr>))"
  by (cases a)
     (simp_all add: readReg_dma_def fpga_device_def fpga_read_def reg_offset_def dmaRegAddressOffset_def htols_def push_bit_eq_mult
       split: prod.splits)

lemma fpga_readReg_user:
  "readReg_user (fpga_device ddr tick) a d =
     (case bench_ctrl_read (unat (userCtrlAddr_value a)) (fr_bench d) of (v, c) \<Rightarrow> (v, d\<lparr>fr_bench := c\<rparr>))"
  by (cases a)
     (simp_all add: readReg_user_def fpga_device_def fpga_read_def reg_offset_def userRegAddressOffset_def htols_def push_bit_eq_mult
       split: prod.splits)

section \<open>Installing mappings\<close>

text \<open>What the set-up of the memory relies on: a device that takes one mapping per \<open>writeTlb\<close>.\<close>

fun writeTlb_pages :: "'d device \<Rightarrow> u64 \<Rightarrow> bool \<Rightarrow> u64 list \<Rightarrow> 'd \<Rightarrow> 'd" where
  "writeTlb_pages dev vaddr first [] d = d"
| "writeTlb_pages dev vaddr first (p # ps) d =
     writeTlb_pages dev (vaddr + 2*1024*1024) False ps (writeTlb dev vaddr p first d)"

locale mapping_device =
  fixes dev :: "'d device" and idle :: "'d \<Rightarrow> bool" and mappings :: "'d \<Rightarrow> tlbMapping list"
  assumes accepts: "idle d \<Longrightarrow> idle (writeTlb dev v p b d) \<and>
    mappings (writeTlb dev v p b d) = mappings d @ [\<lparr>map_vaddr = v, map_paddr = p, map_isBase = b\<rparr>]"
begin

lemma writeTlb_pages_from:
  "idle d \<Longrightarrow> idle (writeTlb_pages dev (page_addr base n 0) (n = 0) ps d) \<and>
   mappings (writeTlb_pages dev (page_addr base n 0) (n = 0) ps d) = mappings d @
     map (\<lambda>i. \<lparr>map_vaddr = page_addr base i 0, map_paddr = ps ! (i - n), map_isBase = (i = 0)\<rparr>) [n..<n + length ps]"
proof (induction ps arbitrary: n d)
  case Nil
  then show ?case by simp
next
  case (Cons p ps)
  let ?d = "writeTlb dev (page_addr base n 0) p (n = 0) d"
  have next_page: "page_addr base n 0 + 2*1024*1024 = page_addr base (Suc n) 0" by (simp add: page_addr_def)
  from accepts [OF Cons(2)] have d: "idle ?d" "mappings ?d = mappings d @ [\<lparr>map_vaddr = page_addr base n 0, map_paddr = p, map_isBase = (n = 0)\<rparr>]"
    by auto
  have upt: "[n..<Suc (n + length ps)] = n # [Suc n..<Suc (n + length ps)]" by (simp add: upt_conv_Cons del: upt_Suc)
  have shift: "map (\<lambda>i. \<lparr>map_vaddr = page_addr base i 0, map_paddr = ps ! (i - Suc n), map_isBase = (i = 0)\<rparr>) [Suc n..<Suc (n + length ps)] =
      map (\<lambda>i. \<lparr>map_vaddr = page_addr base i 0, map_paddr = (p # ps) ! (i - n), map_isBase = (i = 0)\<rparr>) [Suc n..<Suc (n + length ps)]"
    by (rule map_cong [OF refl]) (auto simp: nth_Cons' simp del: upt_Suc)
  from Cons(1) [OF d(1), of "Suc n"] d(2) show ?case
    unfolding writeTlb_pages.simps next_page by (simp add: upt shift del: upt_Suc)
qed

lemma writeTlb_pages_region:
  assumes "idle d"
  shows "idle (writeTlb_pages dev base True ps d) \<and> mappings (writeTlb_pages dev base True ps d) = mappings d @ region_mappings base ps"
  using writeTlb_pages_from [OF assms, of base 0 ps] by (simp add: region_mappings_def page_addr_def)

end

definition tlb_idle :: "fpga_regs \<Rightarrow> bool" where
  "tlb_idle d \<longleftrightarrow> dc_word_counter (fr_dma d) = 0"

lemma fpga_writeTlb:
  assumes "tlb_idle d"
  shows "\<exists>w. writeTlb (fpga_device ddr tick) v p b d =
    d\<lparr>fr_dma := (fr_dma d)\<lparr>dc_tlb_data := w, dc_tlb_out := dc_tlb_out (fr_dma d) @ [\<lparr>map_vaddr = v, map_paddr = p, map_isBase = b\<rparr>]\<rparr>\<rparr>"
proof -
  from dma_ctrl_tlb_write [of "fr_dma d" b p v] assms obtain w where
    "dma_ctrl_write 2 (if b then 1 else 0) (dma_ctrl_write 2 (ucast (drop_bit 32 p)) (dma_ctrl_write 2 (ucast p)
     (dma_ctrl_write 2 (ucast (drop_bit 32 v)) (dma_ctrl_write 2 (ucast v) (fr_dma d))))) =
     (fr_dma d)\<lparr>dc_tlb_data := w, dc_tlb_out := dc_tlb_out (fr_dma d) @ [\<lparr>map_vaddr = v, map_paddr = p, map_isBase = b\<rparr>]\<rparr>"
    by (auto simp: tlb_idle_def)
  then have "writeTlb (fpga_device ddr tick) v p b d =
    d\<lparr>fr_dma := (fr_dma d)\<lparr>dc_tlb_data := w, dc_tlb_out := dc_tlb_out (fr_dma d) @ [\<lparr>map_vaddr = v, map_paddr = p, map_isBase = b\<rparr>]\<rparr>\<rparr>"
    by (simp add: writeTlb_def fpga_writeReg_dma Let_def)
  then show ?thesis by blast
qed

interpretation fpm_dev: mapping_device "fpga_device ddr tick" tlb_idle "\<lambda>d. dc_tlb_out (fr_dma d)" for ddr tick
proof
  fix d v p b
  assume "tlb_idle d"
  from fpga_writeTlb [OF this, of ddr tick v p b] this
  show "tlb_idle (writeTlb (fpga_device ddr tick) v p b d) \<and>
    dc_tlb_out (fr_dma (writeTlb (fpga_device ddr tick) v p b d)) = dc_tlb_out (fr_dma d) @ [\<lparr>map_vaddr = v, map_paddr = p, map_isBase = b\<rparr>]"
    by (auto simp: tlb_idle_def)
qed

section \<open>Waiting for the cycles\<close>

lemma join_halves_range: "join_halves (range_get 31 0 c) (range_get 63 32 c) = (c :: u64)"
  by (rule bit_word_eqI) (auto simp: join_halves_def bit_simps bit_range_get)

text \<open>One round of the loop on the FPGA: two reads leave the register file as it was.\<close>

lemma fpga_poll_reads:
  assumes "\<not> bn_dma_upper (fr_bench d)"
  shows "readReg_user (fpga_device ddr tick) DMA_BENCH_CYCLES d =
      (range_get 31 0 (bn_dma_cycles (fr_bench d)), d\<lparr>fr_bench := (fr_bench d)\<lparr>bn_dma_upper := True\<rparr>\<rparr>)"
    and "readReg_user (fpga_device ddr tick) DMA_BENCH_CYCLES (d\<lparr>fr_bench := (fr_bench d)\<lparr>bn_dma_upper := True\<rparr>\<rparr>) =
      (range_get 63 32 (bn_dma_cycles (fr_bench d)), d)"
  using assms by (simp_all add: fpga_readReg_user bench_ctrl_read_def)

lemma fpga_sleep: "dev_sleep (fpga_device ddr tick) d = tick d"
  by (simp add: fpga_device_def)

lemmas fpga_poll_simps = fpga_sleep fpga_poll_reads Let_def join_halves_range

lemma fpga_poll_round:
  assumes "\<not> bn_dma_upper (fr_bench (tick d))"
  shows "poll_cycles (fpga_device ddr tick) DMA_BENCH_CYCLES d =
    (if (range_get 31 0 (bn_dma_cycles (fr_bench (tick d))) :: u32) = 0
     then poll_cycles (fpga_device ddr tick) DMA_BENCH_CYCLES (tick d)
     else Some (bn_dma_cycles (fr_bench (tick d)), tick d))"
  using assms by (subst poll_cycles.simps) (simp add: fpga_poll_simps)

lemma fpga_poll_result:
  assumes "\<And>d. bn_dma_upper (fr_bench (tick d)) = bn_dma_upper (fr_bench d)" and "\<not> bn_dma_upper (fr_bench d)"
    and "\<forall>j < n. (range_get 31 0 (bn_dma_cycles (fr_bench ((tick ^^ Suc j) d))) :: u32) = 0"
    and "(range_get 31 0 (bn_dma_cycles (fr_bench ((tick ^^ Suc n) d))) :: u32) \<noteq> 0"
  shows "poll_cycles (fpga_device ddr tick) DMA_BENCH_CYCLES d =
    Some (bn_dma_cycles (fr_bench ((tick ^^ Suc n) d)), (tick ^^ Suc n) d)"
  using assms(2-4)
proof (induction n arbitrary: d)
  case 0
  then show ?case using fpga_poll_round [of tick d ddr] assms(1) by simp
next
  case (Suc n)
  have z: "(range_get 31 0 (bn_dma_cycles (fr_bench (tick d))) :: u32) = 0" using spec [OF Suc(3), of 0] by simp
  have "\<forall>j < n. (range_get 31 0 (bn_dma_cycles (fr_bench ((tick ^^ Suc j) (tick d)))) :: u32) = 0"
    using Suc(3) by (auto simp: funpow_swap1 dest: spec [of _ "Suc _"])
  moreover have "(range_get 31 0 (bn_dma_cycles (fr_bench ((tick ^^ Suc n) (tick d)))) :: u32) \<noteq> 0"
    using Suc(4) by (simp add: funpow_swap1)
  ultimately have "poll_cycles (fpga_device ddr tick) DMA_BENCH_CYCLES (tick d) =
      Some (bn_dma_cycles (fr_bench ((tick ^^ Suc n) (tick d))), (tick ^^ Suc n) (tick d))"
    using Suc(2) assms(1) by (intro Suc.IH) auto
  then show ?case using fpga_poll_round [of tick d ddr] Suc(2) assms(1) z by (simp add: funpow_swap1)
qed

lemma fpga_poll_returns:
  assumes "poll_cycles dev addr d = Some y"
  shows "dev = fpga_device ddr tick \<Longrightarrow> addr = DMA_BENCH_CYCLES \<Longrightarrow> (\<And>d. bn_dma_upper (fr_bench (tick d)) = bn_dma_upper (fr_bench d)) \<Longrightarrow>
    \<not> bn_dma_upper (fr_bench d) \<Longrightarrow> \<exists>n. (range_get 31 0 (bn_dma_cycles (fr_bench ((tick ^^ Suc n) d))) :: u32) \<noteq> 0"
proof (induction rule: poll_cycles.raw_induct [OF _ assms])
  case (1 poll dev addr d y)
  note hyps = 1(3,4,5,6)
  have up: "\<not> bn_dma_upper (fr_bench (tick d))" using hyps(3,4) by simp
  show ?case
  proof (cases "(range_get 31 0 (bn_dma_cycles (fr_bench (tick d))) :: u32) = 0")
    case True
    with 1(2) have "poll dev addr (tick d) = Some y" unfolding hyps(1,2) by (simp add: fpga_poll_simps up)
    from 1(1) [OF this hyps(1,2) _ up] hyps(3) obtain n where
      "(range_get 31 0 (bn_dma_cycles (fr_bench ((tick ^^ Suc n) (tick d)))) :: u32) \<noteq> 0" by blast
    then show ?thesis by (intro exI [of _ "Suc n"]) (simp add: funpow_swap1)
  next
    case False
    then show ?thesis by (intro exI [of _ 0]) simp
  qed
qed

section \<open>Properties\<close>

text \<open>On the FPGA, \<open>writeTlb\<close> passes exactly one mapping to the TLB, the one it was called
  with, and leaves the register file ready for the next request, with every other register
  unchanged.\<close>

theorem writeTlb_delivers_mapping:
  assumes "dc_word_counter (fr_dma d) = 0"
  shows "\<exists>w. writeTlb (fpga_device ddr tick) vaddr paddr isBase d =
    d\<lparr>fr_dma := (fr_dma d)\<lparr>dc_tlb_data := w,
       dc_tlb_out := dc_tlb_out (fr_dma d) @ [\<lparr>map_vaddr = vaddr, map_paddr = paddr, map_isBase = isBase\<rparr>]\<rparr>\<rparr>"
  using fpga_writeTlb [of d] assms by (simp add: tlb_idle_def)

definition example_counters :: dma_counters where
  "example_counters = \<lparr>dma_write_cmd_counter = 1, dma_write_word_counter = 2, dma_write_pkg_counter = 3, dma_write_length_counter = 4,
     dma_read_cmd_counter = 5, dma_read_word_counter = 6, dma_read_pkg_counter = 7, dma_read_length_counter = 0x800000009,
     tlb_miss_counter = 10, tlb_boundary_crossing_counter = 11, dma_reads_flushed = True\<rparr>"

definition example_fpga :: fpga_regs where
  "example_fpga = \<lparr>fr_dma = dma_ctrl_reset 0 example_counters, fr_bench = bench_ctrl_reset 0 0\<rparr>"

theorem writeTlb_delivers_mapping_witness:
  "dc_tlb_out (fr_dma (writeTlb (fpga_device (\<lambda>_. 0) id) 0x7F5900000000 0x123400000 True example_fpga)) =
     [\<lparr>map_vaddr = 0x7F5900000000, map_paddr = 0x123400000, map_isBase = True\<rparr>]"
proof -
  have "dc_word_counter (fr_dma example_fpga) = 0" by (simp add: example_fpga_def dma_ctrl_reset_def)
  from writeTlb_delivers_mapping [OF this, of "\<lambda>_. 0" id "0x7F5900000000" "0x123400000" True] show ?thesis
    by (auto simp: example_fpga_def dma_ctrl_reset_def)
qed

text \<open>C34. A DMA benchmark on the FPGA: the engine receives exactly one request, with the
  parameters of the call (address and size reduced to 48 bits) and the execution cycles cleared;
  and once the lower half of the cycles is not zero, the call returns all 64 bits of them. The
  progress of the FPGA during a sleep is arbitrary but does not read the register.\<close>

theorem dma_benchmark_returns_cycles:
  assumes "bn_word_counter (fr_bench d) = 0" and "\<not> bn_dma_upper (fr_bench d)"
    and "\<And>d. bn_dma_upper (fr_bench (tick d)) = bn_dma_upper (fr_bench d)"
    and "d1 = bench_request (fpga_device ddr tick) DMA_BENCH baseAddr memSize nAccesses chunk stride (memoryOp_value op) d"
    and "\<forall>j < n. (range_get 31 0 (bn_dma_cycles (fr_bench ((tick ^^ Suc j) d1))) :: u32) = 0"
    and "(range_get 31 0 (bn_dma_cycles (fr_bench ((tick ^^ Suc n) d1))) :: u32) \<noteq> 0"
  shows "bn_dma_out (fr_bench d1) = bn_dma_out (fr_bench d) @
      [\<lparr>bcmd_regs = requested baseAddr memSize nAccesses chunk stride (op = WRITE), bcmd_dest = 0\<rparr>] \<and>
    bn_dma_cycles (fr_bench d1) = 0 \<and> bn_word_counter (fr_bench d1) = 0 \<and>
    runDmaBenchmark (fpga_device ddr tick) baseAddr memSize nAccesses chunk stride op d =
      Some (bn_dma_cycles (fr_bench ((tick ^^ Suc n) d1)), (tick ^^ Suc n) d1)"
proof -
  have op: "bit (memoryOp_value op) 0 = (op = WRITE)" by (cases op) simp_all
  from bench_ctrl_dma_request [OF assms(1), of "memoryOp_value op" stride chunk nAccesses memSize baseAddr] obtain w where
    d1: "d1 = d\<lparr>fr_bench := (fr_bench d)\<lparr>bn_dma_data := w, bn_dma_out := bn_dma_out (fr_bench d) @
      [\<lparr>bcmd_regs = requested baseAddr memSize nAccesses chunk stride (op = WRITE), bcmd_dest = 0\<rparr>], bn_dma_cycles := 0\<rparr>\<rparr>"
    unfolding assms(4) by (auto simp: bench_request_def fpga_writeReg_user op)
  then have "\<not> bn_dma_upper (fr_bench d1)" using assms(2) by simp
  from fpga_poll_result [OF assms(3) this assms(5,6)] show ?thesis
    unfolding runDmaBenchmark_def assms(4) [symmetric] using d1 assms(1) by simp
qed

definition example_tick :: "fpga_regs \<Rightarrow> fpga_regs" where
  "example_tick d = d\<lparr>fr_bench := (fr_bench d)\<lparr>bn_dma_cycles := 0x500000007\<rparr>\<rparr>"

theorem dma_benchmark_returns_cycles_witness:
  "\<exists>d'. runDmaBenchmark (fpga_device (\<lambda>_. 0) example_tick) 0x1000 0x2000 3 0x100 0 WRITE example_fpga = Some (0x500000007, d')"
proof -
  let ?d1 = "bench_request (fpga_device (\<lambda>_. 0) example_tick) DMA_BENCH 0x1000 0x2000 3 0x100 0 (memoryOp_value WRITE) example_fpga"
  have "(range_get 31 0 (0x500000007 :: u64) :: u32) \<noteq> 0" by (auto dest: arg_cong [of _ _ "\<lambda>w. bit w 0"] simp: bit_range_get)
  with dma_benchmark_returns_cycles [of example_fpga example_tick ?d1 "\<lambda>_. 0" "0x1000" "0x2000" 3 "0x100" 0 WRITE 0]
  show ?thesis by (simp add: example_fpga_def bench_ctrl_reset_def example_tick_def)
qed

text \<open>The loop compares only the lower half of the cycles with zero: a call whose execution
  cycles are a multiple of \<open>2 ^ 32\<close> whenever they are read never returns.\<close>

theorem dma_benchmark_may_hang:
  assumes "bn_word_counter (fr_bench d) = 0" and "\<not> bn_dma_upper (fr_bench d)"
    and "\<And>d. bn_dma_upper (fr_bench (tick d)) = bn_dma_upper (fr_bench d)"
    and "\<And>d. 2 ^ 32 dvd unat (bn_dma_cycles (fr_bench (tick d)))"
  shows "runDmaBenchmark (fpga_device ddr tick) baseAddr memSize nAccesses chunk stride op d = None"
proof (rule ccontr)
  let ?d1 = "bench_request (fpga_device ddr tick) DMA_BENCH baseAddr memSize nAccesses chunk stride (memoryOp_value op) d"
  assume "runDmaBenchmark (fpga_device ddr tick) baseAddr memSize nAccesses chunk stride op d \<noteq> None"
  then obtain y where y: "poll_cycles (fpga_device ddr tick) DMA_BENCH_CYCLES ?d1 = Some y" by (auto simp: runDmaBenchmark_def)
  have "\<not> bn_dma_upper (fr_bench ?d1)"
    using bench_ctrl_dma_request [OF assms(1), of "memoryOp_value op" stride chunk nAccesses memSize baseAddr] assms(2)
    by (auto simp: bench_request_def fpga_writeReg_user)
  from fpga_poll_returns [OF y refl refl assms(3) this] obtain n where
    n: "(range_get 31 0 (bn_dma_cycles (fr_bench ((tick ^^ Suc n) ?d1))) :: u32) \<noteq> 0" by blast
  have "(range_get 31 0 c :: u32) = 0" if "2 ^ 32 dvd unat c" for c :: u64
  proof -
    have "unat (range_get 31 0 c :: u32) = unat c mod 2 ^ 32" 
      by (simp only: range_get_def unat_ucast_mod unsigned_take_bit_eq) (simp add: take_bit_eq_mod)
    with that show ?thesis by (simp add: word_unat_eq_iff)
  qed
  with assms(4) [of "(tick ^^ n) ?d1"] n show False by simp
qed

theorem dma_benchmark_may_hang_witness:
  "runDmaBenchmark (fpga_device (\<lambda>_. 0) (\<lambda>d. d\<lparr>fr_bench := (fr_bench d)\<lparr>bn_dma_cycles := 0x100000000\<rparr>\<rparr>)) 0x1000 0x2000 3 0x100 0 WRITE example_fpga = None"
  by (rule dma_benchmark_may_hang) (simp_all add: example_fpga_def bench_ctrl_reset_def)

lemma print_stats:
  "dc_debugRegAddr (fr_dma d) = of_nat j \<Longrightarrow> i = (if j = 10 then 0 else j) \<Longrightarrow> j \<le> 10 \<Longrightarrow> i + length names \<le> 10 \<Longrightarrow> names \<noteq> [] \<Longrightarrow>
   dc_counters (fr_dma d) = cs \<Longrightarrow>
   \<exists>d'. print_regs (readReg_dma (fpga_device ddr tick) DMA_STATS) names d =
     (zip names (map (stats_reg cs) [i..<i + length names]), d') \<and>
     dc_debugRegAddr (fr_dma d') = of_nat (i + length names) \<and> dc_counters (fr_dma d') = cs"
proof (induction names arbitrary: d i j)
  case Nil
  then show ?case by simp
next
  case (Cons nm names)
  let ?d = "d\<lparr>fr_dma := (fr_dma d)\<lparr>dc_debugRegAddr := of_nat (Suc i)\<rparr>\<rparr>"
  have ten: "(of_nat j = (10 :: u8)) \<longleftrightarrow> j = 10" "unat (of_nat i :: u8) = i"
    using Cons(4,5) by (auto simp: word_unat_eq_iff unat_of_nat)
  have rd: "readReg_dma (fpga_device ddr tick) DMA_STATS d = (stats_reg cs i, ?d)"
    using Cons(2,3,7) ten by (auto simp: fpga_readReg_dma dma_ctrl_read_def Let_def)
  have upt: "[i..<Suc (i + length names)] = i # [Suc i..<Suc (i + length names)]" by (simp add: upt_conv_Cons del: upt_Suc)
  show ?case
  proof (cases "names = []")
    case True
    then show ?thesis using rd Cons(7) by simp
  next
    case False
    then have "\<exists>d'. print_regs (readReg_dma (fpga_device ddr tick) DMA_STATS) names ?d =
        (zip names (map (stats_reg cs) [Suc i..<Suc i + length names]), d') \<and>
        dc_debugRegAddr (fr_dma d') = of_nat (Suc i + length names) \<and> dc_counters (fr_dma d') = cs"
      using Cons(5,7) by (intro Cons.IH [of _ "Suc i"]) (auto simp: neq_Nil_conv)
    then show ?thesis using rd by (auto simp: Let_def upt simp del: upt_Suc)
  qed
qed

text \<open>The statistics are printed under the right names, and printing them leaves the register
  file at the start of the list again, so that they are right on every later call too.\<close>

theorem dma_stats_under_their_names:
  assumes "dc_debugRegAddr (fr_dma d) = 0 \<or> dc_debugRegAddr (fr_dma d) = 10" and "dc_counters (fr_dma d) = cs"
  shows "\<exists>d'. printDmaStatsRegs (fpga_device ddr tick) d =
    ([(''DMA write cmd counter'', dma_write_cmd_counter cs), (''DMA write word counter'', dma_write_word_counter cs),
      (''DMA write pkg counter'', dma_write_pkg_counter cs), (''DMA write length counter'', range_get 31 0 (dma_write_length_counter cs)),
      (''DMA read cmd counter'', dma_read_cmd_counter cs), (''DMA read word counter'', dma_read_word_counter cs),
      (''DMA read pkg counter'', dma_read_pkg_counter cs), (''DMA read length counter'', range_get 31 0 (dma_read_length_counter cs)),
      (''TLB Miss counter'', tlb_miss_counter cs), (''TLB Page Boundary crossing counter'', tlb_boundary_crossing_counter cs)], d') \<and>
    dc_debugRegAddr (fr_dma d') = 10 \<and> dc_counters (fr_dma d') = cs"
proof -
  have len: "length (take numDmaStatsRegs DmaRegNames) = 10" by (simp add: numDmaStatsRegs_def DmaRegNames_def)
  define j where "j = unat (dc_debugRegAddr (fr_dma d))"
  have j: "dc_debugRegAddr (fr_dma d) = of_nat j" "j = 0 \<or> j = 10" using assms(1) by (auto simp: j_def)
  have upt: "[0..<10] = [0, 1, 2, 3, 4, 5, 6, 7, 8, 9 :: nat]" by (simp add: upt_rec)
  have regs: "map (stats_reg cs) [0..<10] = [dma_write_cmd_counter cs, dma_write_word_counter cs, dma_write_pkg_counter cs,
      range_get 31 0 (dma_write_length_counter cs), dma_read_cmd_counter cs, dma_read_word_counter cs, dma_read_pkg_counter cs,
      range_get 31 0 (dma_read_length_counter cs), tlb_miss_counter cs, tlb_boundary_crossing_counter cs]"
    by (simp only: upt list.map) (simp add: stats_reg_def)
  have ne: "take numDmaStatsRegs DmaRegNames \<noteq> []" using len by (cases "take numDmaStatsRegs DmaRegNames") simp_all
  from print_stats [of d j 0 "take numDmaStatsRegs DmaRegNames" cs ddr tick] j(1) assms(2)
  have "\<exists>d'. print_regs (readReg_dma (fpga_device ddr tick) DMA_STATS) (take numDmaStatsRegs DmaRegNames) d =
      (zip (take numDmaStatsRegs DmaRegNames) (map (stats_reg cs) [0..<10]), d') \<and>
      dc_debugRegAddr (fr_dma d') = 10 \<and> dc_counters (fr_dma d') = cs"
    using j(2) ne by (simp only: len) auto
  then obtain d' where
    "printDmaStatsRegs (fpga_device ddr tick) d = (zip (take numDmaStatsRegs DmaRegNames) (map (stats_reg cs) [0..<10]), d')"
    "dc_debugRegAddr (fr_dma d') = 10" "dc_counters (fr_dma d') = cs" unfolding printDmaStatsRegs_def by blast
  then show ?thesis unfolding regs by (simp add: numDmaStatsRegs_def DmaRegNames_def)
qed

theorem dma_stats_under_their_names_witness:
  "\<exists>d'. printDmaStatsRegs (fpga_device (\<lambda>_. 0) id) example_fpga =
    ([(''DMA write cmd counter'', 1), (''DMA write word counter'', 2), (''DMA write pkg counter'', 3), (''DMA write length counter'', 4),
      (''DMA read cmd counter'', 5), (''DMA read word counter'', 6), (''DMA read pkg counter'', 7), (''DMA read length counter'', 9),
      (''TLB Miss counter'', 10), (''TLB Page Boundary crossing counter'', 11)], d')"
  using dma_stats_under_their_names [of example_fpga example_counters "\<lambda>_. 0" id]
  by (simp add: example_fpga_def dma_ctrl_reset_def example_counters_def range_get_def take_bit_eq_mod) blast

text \<open>\<open>getDmaReads\<close> returns all 48 bits of the number of bytes read when all reads have been
  answered, and 0 when some are outstanding, and is ready to be called again; after
  \<open>resetDmaReads\<close> it returns 0.\<close>

theorem dma_reads_counter:
  assumes "\<not> dc_read_length_upper (fr_dma d)"
  shows "fst (getDmaReads (fpga_device ddr tick) d) =
      (if dma_reads_flushed (dc_counters (fr_dma d)) then ucast (dma_read_length_counter (dc_counters (fr_dma d))) else 0) \<and>
    \<not> dc_read_length_upper (fr_dma (snd (getDmaReads (fpga_device ddr tick) d))) \<and>
    fst (getDmaReads (fpga_device ddr tick) (resetDmaReads (fpga_device ddr tick) d)) = 0"
proof -
  have join: "join_halves (range_get 31 0 c) (range_get 47 32 c) = ucast c" for c :: u48
    by (rule bit_word_eqI) (auto simp: join_halves_def bit_simps bit_range_get dest: bit_imp_le_length)
  have zero: "join_halves 0 0 = 0" "(range_get i j (0 :: u48) :: u32) = 0" for i j by (simp_all add: join_halves_def range_get_def)
  show ?thesis
    using assms
    by (simp add: getDmaReads_def resetDmaReads_def fpga_readReg_dma fpga_writeReg_dma dma_ctrl_read_def dma_ctrl_write_def length_half_def
        Let_def join zero)
qed

theorem dma_reads_counter_witness:
  "fst (getDmaReads (fpga_device (\<lambda>_. 0) id) example_fpga) = 0x800000009"
  using dma_reads_counter [of example_fpga "\<lambda>_. 0" id]
  by (simp add: example_fpga_def dma_ctrl_reset_def example_counters_def)

end
