(* ===== verification/Xdma_Device.thy ===== *)
theory Xdma_Device
  imports Dma_Prelude
begin

text \<open>
  \<^verbatim>\<open>driver/xdma_driver.c\<close>, data and registers: the constants, the packed register structures, the
  private data \<open>dev_inst\<close> of a device, the small functions that build register values, and the
  accesses to the interrupt block.

  \<^item> A packed structure of 32-bit registers is the list of its fields with their number of words;
    \<open>field_offset\<close> is what the compiler makes of \<open>&regs->field\<close>.
  \<^item> Pointers are 64-bit addresses and \<open>NULL\<close> is 0. Flags that the code keeps in an \<open>int\<close> and only
    tests are booleans.
  \<^item> What the device answers to a read of a register is a parameter, a function of the address;
    writes are entries \<open>Iowrite32\<close> of a log of kernel calls.
  \<^item> \<open>printk\<close> is left out.

  The lemmas give the bits of the register values: \<open>build_u64\<close> is the number it should be only for
  an upper half below $2^{28}$, and the vector registers hold the vector numbers 0 to 23.
\<close>

section \<open>Constants and register structures\<close>

definition XDMA_CHANNEL_NUM_MAX :: nat where "XDMA_CHANNEL_NUM_MAX = 4"
definition MAX_NUM_ENGINES :: nat where "MAX_NUM_ENGINES = XDMA_CHANNEL_NUM_MAX * 2"
definition C2H_CHANNEL_OFFSET :: u64 where "C2H_CHANNEL_OFFSET = 0x0000"
definition H2C_CHANNEL_OFFSET :: u64 where "H2C_CHANNEL_OFFSET = 0x1000"
definition CHANNEL_SPACING :: u64 where "CHANNEL_SPACING = 0x100"
definition MAX_USER_IRQ :: nat where "MAX_USER_IRQ = 16"
definition XDMA_BAR_NUM :: nat where "XDMA_BAR_NUM = 6"
definition XDMA_BAR_SIZE :: u64 where "XDMA_BAR_SIZE = 0x8000"
definition IRQ_BLOCK_ID :: u32 where "IRQ_BLOCK_ID = 0x1fc20000"
definition CONFIG_BLOCK_ID :: u32 where "CONFIG_BLOCK_ID = 0x1fc30000"
definition XDMA_ID_H2C :: u32 where "XDMA_ID_H2C = 0x1fc0"
definition XDMA_ID_C2H :: u32 where "XDMA_ID_C2H = 0x1fc1"
definition XDMA_OFS_INT_CTRL :: u64 where "XDMA_OFS_INT_CTRL = 0x2000"
definition XDMA_OFS_CONFIG :: u64 where "XDMA_OFS_CONFIG = 0x3000"

lemmas xdma_constants = XDMA_CHANNEL_NUM_MAX_def MAX_NUM_ENGINES_def C2H_CHANNEL_OFFSET_def H2C_CHANNEL_OFFSET_def
  CHANNEL_SPACING_def MAX_USER_IRQ_def XDMA_BAR_NUM_def XDMA_BAR_SIZE_def IRQ_BLOCK_ID_def CONFIG_BLOCK_ID_def
  XDMA_ID_H2C_def XDMA_ID_C2H_def XDMA_OFS_INT_CTRL_def XDMA_OFS_CONFIG_def

type_synonym reg_layout = "(string \<times> nat) list"

fun field_offset :: "reg_layout \<Rightarrow> string \<Rightarrow> u64" where
  "field_offset [] f = 0"
| "field_offset ((g, n) # fs) f = (if g = f then 0 else 4 * of_nat n + field_offset fs f)"

definition engine_regs :: reg_layout where
  "engine_regs =
    [(''identifier'', 1), (''control'', 1), (''control_w1s'', 1), (''control_w1c'', 1), (''reserved_1'', 12),
     (''status'', 1), (''status_rc'', 1), (''completed_desc_count'', 1), (''alignments'', 1), (''reserved_2'', 14),
     (''poll_mode_wb_lo'', 1), (''poll_mode_wb_hi'', 1), (''interrupt_enable_mask'', 1),
     (''interrupt_enable_mask_w1s'', 1), (''interrupt_enable_mask_w1c'', 1), (''reserved_3'', 9),
     (''perf_ctrl'', 1), (''perf_cyc_lo'', 1), (''perf_cyc_hi'', 1), (''perf_dat_lo'', 1), (''perf_dat_hi'', 1),
     (''perf_pnd_lo'', 1), (''perf_pnd_hi'', 1)]"

definition interrupt_regs :: reg_layout where
  "interrupt_regs =
    [(''identifier'', 1), (''user_int_enable'', 1), (''user_int_enable_w1s'', 1), (''user_int_enable_w1c'', 1),
     (''channel_int_enable'', 1), (''channel_int_enable_w1s'', 1), (''channel_int_enable_w1c'', 1), (''reserved_1'', 9),
     (''user_int_request'', 1), (''channel_int_request'', 1), (''user_int_pending'', 1), (''channel_int_pending'', 1),
     (''reserved_2'', 12), (''user_msi_vector'', 8), (''channel_msi_vector'', 8)]"

definition config_regs :: reg_layout where
  "config_regs = [(''identifier'', 1), (''reserved_1'', 4), (''msi_enable'', 1)]"

lemma register_offsets [simp]:
  "field_offset engine_regs ''identifier'' = 0" "field_offset engine_regs ''control'' = 4"
  "field_offset engine_regs ''status'' = 0x40" "field_offset interrupt_regs ''identifier'' = 0"
  "field_offset interrupt_regs ''channel_int_enable_w1s'' = 0x14" "field_offset interrupt_regs ''channel_int_enable_w1c'' = 0x18"
  "field_offset interrupt_regs ''user_int_request'' = 0x40" "field_offset interrupt_regs ''channel_int_request'' = 0x44"
  "field_offset interrupt_regs ''user_msi_vector'' = 0x80" "field_offset interrupt_regs ''channel_msi_vector'' = 0xA0"
  "field_offset config_regs ''identifier'' = 0"
  by (simp_all add: engine_regs_def interrupt_regs_def config_regs_def)

text \<open>An entry of the array of page pointers is \<open>None\<close> as long as nothing has been stored there.\<close>

datatype page_array = No_Pages | Pages "u64 option list" | Freed_Pages

record dev_memory =
  huge_user_addr :: u64
  huge_size :: u64
  huge_npages :: u64
  huge_hnpages :: u64
  huge_pages :: page_array

record dev_inst = dev_memory +
  pci_dev :: u64
  bar :: "u64 list"
  user_bar_idx :: int
  config_bar_idx :: int
  bypass_bar_idx :: int
  regions_in_use :: bool
  got_regions :: bool
  irq_line :: int
  msi_enabled :: bool
  msix_enabled :: bool
  msix_entry :: "nat list"
  h2c_count :: int
  c2h_count :: int
  h2c_engine :: int
  c2h_engine :: int
  h2c_regs :: u64
  c2h_regs :: u64
  desc_bypass_enabled :: bool
  open_count :: int

text \<open>A zeroed instance with the fields set that \<open>alloc_dev_instance\<close> sets.\<close>

definition new_dev_inst :: "u64 \<Rightarrow> dev_inst" where
  "new_dev_inst pdev =
     \<lparr>huge_user_addr = 0, huge_size = 0, huge_npages = 0, huge_hnpages = 0, huge_pages = No_Pages,
      pci_dev = pdev, bar = replicate XDMA_BAR_NUM 0, user_bar_idx = -1, config_bar_idx = -1, bypass_bar_idx = -1,
      regions_in_use = False, got_regions = False, irq_line = -1, msi_enabled = False, msix_enabled = False,
      msix_entry = replicate 32 0, h2c_count = 0, c2h_count = 0, h2c_engine = 0, c2h_engine = 0, h2c_regs = 0, c2h_regs = 0,
      desc_bypass_enabled = False, open_count = 0\<rparr>"

text \<open>The calls of kernel functions that acquire, release or write something, with their result.\<close>

datatype kcall = Kzalloc bool | Set_drvdata | Enable_device int | Set_master | Enable_msix nat int | Enable_msi int
  | Request_regions int | Iomap nat u64 u64 | Iounmap u64 | Iowrite32 u64 u32 | Set_dma_mask int | Mmiowb
  | Misc_register int | Misc_deregister | Free_irq int | Release_regions | Disable_msi | Disable_msix | Disable_device | Kfree
  | Register_driver int | Unregister_driver

section \<open>Register values\<close>

definition build_u32 :: "u32 \<Rightarrow> u32 \<Rightarrow> u32" where
  "build_u32 hi lo = push_bit 16 (hi AND 0xFFFF) OR (lo AND 0xFFFF)"

definition build_u64 :: "u64 \<Rightarrow> u64 \<Rightarrow> u64" where
  "build_u64 hi lo = push_bit 32 (hi AND 0xFFFFFFF) OR (lo AND 0xFFFFFFFF)"

definition read_bit :: "(u64 \<Rightarrow> u32) \<Rightarrow> u64 \<Rightarrow> u64 \<Rightarrow> nat \<Rightarrow> bool" where
  "read_bit readl base reg b = ((ucast (readl (base + reg)) :: u64) AND push_bit b 1 \<noteq> 0)"

definition build_vector_reg :: "u32 \<Rightarrow> u32 \<Rightarrow> u32 \<Rightarrow> u32 \<Rightarrow> u32" where
  "build_vector_reg a b c d =
     (let reg_val = 0;
          reg_val = reg_val OR push_bit 0 (a AND 0x1f);
          reg_val = reg_val OR push_bit 8 (b AND 0x1f);
          reg_val = reg_val OR push_bit 16 (c AND 0x1f)
      in reg_val OR push_bit 24 (d AND 0x1f))"

section \<open>The interrupt block\<close>

definition config_base :: "dev_inst \<Rightarrow> u64" where
  "config_base inst = bar inst ! nat (config_bar_idx inst)"

definition int_reg :: "dev_inst \<Rightarrow> string \<Rightarrow> u64" where
  "int_reg inst f = config_base inst + XDMA_OFS_INT_CTRL + field_offset interrupt_regs f"

definition channel_interrupts_enable :: "dev_inst \<Rightarrow> u32 \<Rightarrow> kcall list \<Rightarrow> kcall list" where
  "channel_interrupts_enable inst irqs log = log @ [Iowrite32 (int_reg inst ''channel_int_enable_w1s'') irqs]"

definition channel_interrupts_disable :: "dev_inst \<Rightarrow> u32 \<Rightarrow> kcall list \<Rightarrow> kcall list" where
  "channel_interrupts_disable inst irqs log = log @ [Iowrite32 (int_reg inst ''channel_int_enable_w1c'') irqs]"

definition read_interrupts :: "(u64 \<Rightarrow> u32) \<Rightarrow> dev_inst \<Rightarrow> u32" where
  "read_interrupts ioread32 inst =
     (let hi = ioread32 (int_reg inst ''user_int_request''); lo = ioread32 (int_reg inst ''channel_int_request'') in build_u32 hi lo)"

definition write_msix_vectors :: "dev_inst \<Rightarrow> kcall list \<Rightarrow> kcall list" where
  "write_msix_vectors inst log =
     (let user = int_reg inst ''user_msi_vector''; channel = int_reg inst ''channel_msi_vector'' in
      log @ [Iowrite32 user (build_vector_reg 0 1 2 3), Iowrite32 (user + 4) (build_vector_reg 4 5 6 7),
        Iowrite32 (user + 8) (build_vector_reg 8 9 10 11), Iowrite32 (user + 12) (build_vector_reg 12 13 14 15),
        Iowrite32 channel (build_vector_reg 16 17 18 19), Iowrite32 (channel + 4) (build_vector_reg 20 21 22 23)])"

definition msix_irq_setup :: "dev_inst \<Rightarrow> kcall list \<Rightarrow> int \<times> kcall list" where
  "msix_irq_setup inst log = (0, write_msix_vectors inst log)"


section \<open>What the register values hold\<close>

lemma build_take_bit:
  "build_u32 hi lo = push_bit 16 (take_bit 16 hi) OR take_bit 16 lo"
  "build_u64 hi' lo' = push_bit 32 (take_bit 28 hi') OR take_bit 32 lo'"
  by (simp_all add: build_u32_def build_u64_def take_bit_eq_mask mask_eq_exp_minus_1)

lemma bit_build:
  "bit (build_u32 hi lo) n \<longleftrightarrow> (if n < 16 then bit lo n else n < 32 \<and> bit hi (n - 16))"
  "bit (build_u64 hi' lo') n \<longleftrightarrow> (if n < 32 then bit lo' n else n < 60 \<and> bit hi' (n - 32))"
  by (auto simp: build_take_bit bit_simps)

text \<open>User interrupts are reported in the upper and channel interrupts in the lower half.\<close>

lemma read_interrupts_halves:
  "(range_get 31 16 (read_interrupts rd inst) :: u16) = ucast (rd (int_reg inst ''user_int_request'')) \<and>
   (range_get 15 0 (read_interrupts rd inst) :: u16) = ucast (rd (int_reg inst ''channel_int_request''))"
  unfolding read_interrupts_def Let_def by (intro conjI bit_word_eqI) (auto simp: bit_range_get bit_build bit_simps)

lemma word_less_exp_bits: "unat (w :: u64) < 2 ^ k \<longleftrightarrow> (\<forall>n. k \<le> n \<longrightarrow> \<not> bit w n)"
proof
  assume "unat w < 2 ^ k"
  then have w: "take_bit k w = w" by (simp add: word_unat_eq_iff unsigned_take_bit_eq take_bit_nat_eq_self)
  show "\<forall>n. k \<le> n \<longrightarrow> \<not> bit w n" by (subst w [symmetric]) (simp add: bit_take_bit_iff)
next
  assume "\<forall>n. k \<le> n \<longrightarrow> \<not> bit w n"
  then have "take_bit k w = w" by (intro bit_word_eqI) (auto simp: bit_take_bit_iff not_le)
  then have "take_bit k (unat w) = unat w" by (metis unsigned_take_bit_eq)
  then show "unat w < 2 ^ k" by (simp add: take_bit_nat_eq_self_iff)
qed

text \<open>The mask of the upper half has seven digits: four bits are lost.\<close>

lemma build_u64_exact:
  assumes "unat hi < 2 ^ 32" "unat lo < 2 ^ 32"
  shows "build_u64 hi lo = push_bit 32 hi OR lo \<longleftrightarrow> unat hi < 2 ^ 28"
proof -
  have lo: "n < 32" if "bit lo n" for n using assms(2) that unfolding word_less_exp_bits by (meson not_le)
  have "build_u64 hi lo = push_bit 32 hi OR lo \<longleftrightarrow> (\<forall>n. 28 \<le> n \<longrightarrow> \<not> bit hi n)"
  proof (intro iffI allI impI)
    fix n :: nat assume eq: "build_u64 hi lo = push_bit 32 hi OR lo" and "28 \<le> n"
    show "\<not> bit hi n"
    proof
      assume hi: "bit hi n"
      then have "n < 32" using assms(1) unfolding word_less_exp_bits by (meson not_le)
      with hi \<open>28 \<le> n\<close> have "bit (push_bit 32 hi OR lo) (n + 32)" "\<not> bit (build_u64 hi lo) (n + 32)"
        by (simp_all add: bit_simps bit_build)
      with eq show False by simp
    qed
  next
    assume "\<forall>n. 28 \<le> n \<longrightarrow> \<not> bit hi n"
    then have hi: "n < 28" if "bit hi n" for n using that by (meson not_le)
    show "build_u64 hi lo = push_bit 32 hi OR lo"
      by (rule bit_word_eqI) (auto simp: bit_simps bit_build dest: lo hi)
  qed
  then show ?thesis by (simp only: word_less_exp_bits)
qed

text \<open>Byte \<open>k\<close> of the user vectors is \<open>k\<close>, and byte \<open>k\<close> of the channel vectors \<open>16 + k\<close>.\<close>

definition reg_writes :: "kcall list \<Rightarrow> (u64 \<times> u32) list" where
  "reg_writes log = concat (map (\<lambda>c. case c of Iowrite32 a v \<Rightarrow> [(a, v)] | _ \<Rightarrow> []) log)"

lemma reg_writes_simps [simp]:
  "reg_writes [] = []" "reg_writes (c # log) = (case c of Iowrite32 a v \<Rightarrow> [(a, v)] | _ \<Rightarrow> []) @ reg_writes log"
  "reg_writes (log @ log') = reg_writes log @ reg_writes log'"
  by (simp_all add: reg_writes_def)

lemma write_msix_vectors_table:
  "concat (map (word_bytes \<circ> snd) (reg_writes (write_msix_vectors inst []))) = map of_nat [0..<24]"
  by (simp add: write_msix_vectors_def Let_def build_vector_reg_def word_bytes_def byte_at_def upt_rec push_bit_eq_mult drop_bit_eq_div)

end
