(* ===== verification/Xdma_Probe.thy ===== *)
theory Xdma_Probe
  imports Xdma_Device
begin

text \<open>
  \<^verbatim>\<open>driver/xdma_driver.c\<close>, the PCI driver: \<open>probe\<close> with everything it calls, and \<open>remove\<close>.

  \<^item> What the kernel and the device answer is the record \<open>pci_env\<close>: the return codes of the kernel
    functions, the resources of the device and the contents of its registers.
  \<^item> The state is the instance and a log of the kernel calls made so far; \<open>held\<close> computes from the
    log which resources are held.
  \<^item> The labels at the end of \<open>probe\<close> are functions that fall through into each other.

  The lemmas show that \<open>map_bars\<close> finds the BARs the way the comment of \<open>identify_bars\<close> describes
  and maps nothing when it fails, that \<open>remove\<close> releases everything a successful \<open>probe\<close> has
  acquired, what exactly a failed \<open>probe\<close> leaves behind, and which engines it starts.
\<close>

section \<open>Environment\<close>

datatype pci_cap = PCI_CAP_ID_MSI | PCI_CAP_ID_MSIX

record pci_env =
  kzalloc_ok :: bool
  pci_enable_device :: int
  no_msi :: bool
  bus_no_msi :: "bool list"
  pci_find_capability :: "pci_cap \<Rightarrow> int"
  pci_enable_msix_exact :: int
  pci_enable_msi :: int
  pci_request_regions :: int
  pci_resource_len :: "nat \<Rightarrow> u64"
  pci_iomap :: "nat \<Rightarrow> u64 \<Rightarrow> u64"
  ioread32 :: "u64 \<Rightarrow> u32"
  dma_set_mask_and_coherent :: int
  misc_register :: int
  pdev_addr :: u64

text \<open>The device identifiers the driver serves, as vendor and device.\<close>

definition pci_ids :: "(u16 \<times> u16) list" where
  "pci_ids =
    map (Pair 0x10ee)
     [0x9011, 0x9012, 0x9014, 0x9018, 0x901F, 0x9021, 0x9022, 0x9024, 0x9028, 0x902F, 0x9031, 0x9032, 0x9034, 0x9038, 0x903F,
      0x8011, 0x8012, 0x8014, 0x8018, 0x8021, 0x8022, 0x8024, 0x8028, 0x8031, 0x8032, 0x8034, 0x8038,
      0x7011, 0x7012, 0x7014, 0x7018, 0x7021, 0x7022, 0x7024, 0x7028, 0x7031, 0x7032, 0x7034, 0x7038]"

section \<open>Steps of probe\<close>

definition alloc_dev_instance :: "pci_env \<Rightarrow> dev_inst option \<times> kcall list" where
  "alloc_dev_instance env =
     (if \<not> kzalloc_ok env then (None, [Kzalloc False])
      else (Some (new_dev_inst (pdev_addr env)), [Kzalloc True, Set_drvdata]))"

definition arch_msi_check_device :: int where "arch_msi_check_device = 0"

definition msi_msix_capable :: "pci_env \<Rightarrow> pci_cap \<Rightarrow> bool" where
  "msi_msix_capable env type =
     (if no_msi env then False
      else if list_ex id (bus_no_msi env) then False
      else if arch_msi_check_device \<noteq> 0 then False
      else pci_find_capability env type \<noteq> 0)"

definition probe_scan_for_msi :: "pci_env \<Rightarrow> dev_inst \<Rightarrow> kcall list \<Rightarrow> int \<times> dev_inst \<times> kcall list" where
  "probe_scan_for_msi env inst log =
     (let req_nvec = MAX_NUM_ENGINES + MAX_USER_IRQ in
      if msi_msix_capable env PCI_CAP_ID_MSIX then
        (pci_enable_msix_exact env,
         inst\<lparr>msix_entry := fold (\<lambda>i es. es[i := i]) [0..<req_nvec] (msix_entry inst), msix_enabled := True\<rparr>,
         log @ [Enable_msix req_nvec (pci_enable_msix_exact env)])
      else if msi_msix_capable env PCI_CAP_ID_MSI then
        (pci_enable_msi env, inst\<lparr>msi_enabled := True\<rparr>, log @ [Enable_msi (pci_enable_msi env)])
      else (0, inst, log))"

definition request_regions :: "pci_env \<Rightarrow> dev_inst \<Rightarrow> kcall list \<Rightarrow> int \<times> dev_inst \<times> kcall list" where
  "request_regions env inst log =
     (let rc = pci_request_regions env; log = log @ [Request_regions rc] in
      if rc \<noteq> 0 then (rc, inst\<lparr>regions_in_use := True\<rparr>, log) else (rc, inst\<lparr>got_regions := True\<rparr>, log))"

definition INT_MAX :: u64 where "INT_MAX = 0x7FFFFFFF"

definition map_single_bar :: "pci_env \<Rightarrow> nat \<Rightarrow> dev_inst \<Rightarrow> kcall list \<Rightarrow> int \<times> dev_inst \<times> kcall list" where
  "map_single_bar env idx inst log =
     (let bar_len = pci_resource_len env idx; inst = inst\<lparr>bar := (bar inst)[idx := 0]\<rparr> in
      if bar_len = 0 then (0, inst, log)
      else
        (let map_len = (if bar_len > INT_MAX then INT_MAX else bar_len);
             p = pci_iomap env idx map_len;
             inst = inst\<lparr>bar := (bar inst)[idx := p]\<rparr>;
             log = log @ [Iomap idx map_len p]
         in if p = 0 then (-1, inst, log) else (int (unat map_len), inst, log)))"

definition identify_bars :: "int list \<Rightarrow> nat \<Rightarrow> dev_inst \<Rightarrow> dev_inst" where
  "identify_bars bar_id_list config_bar_pos inst =
     (let num_bars = length bar_id_list in
      if num_bars = 1 then inst
      else if num_bars = 2 then
        (if config_bar_pos = 0 then inst\<lparr>bypass_bar_idx := bar_id_list ! 1\<rparr>
         else if config_bar_pos = 1 then inst\<lparr>user_bar_idx := bar_id_list ! 0\<rparr>
         else inst)
      else if num_bars = 3 then
        (if config_bar_pos = 1 then inst\<lparr>user_bar_idx := bar_id_list ! 0, bypass_bar_idx := bar_id_list ! 2\<rparr>
         else inst)
      else inst)"

fun unmap_loop :: "nat list \<Rightarrow> dev_inst \<Rightarrow> kcall list \<Rightarrow> dev_inst \<times> kcall list" where
  "unmap_loop [] inst log = (inst, log)"
| "unmap_loop (i # is) inst log =
     (if bar inst ! i \<noteq> 0 then unmap_loop is (inst\<lparr>bar := (bar inst)[i := 0]\<rparr>) (log @ [Iounmap (bar inst ! i)])
      else unmap_loop is inst log)"

definition unmap_bars :: "dev_inst \<Rightarrow> kcall list \<Rightarrow> dev_inst \<times> kcall list" where
  "unmap_bars = unmap_loop [0..<XDMA_BAR_NUM]"

definition is_config_bar :: "pci_env \<Rightarrow> dev_inst \<Rightarrow> nat \<Rightarrow> bool" where
  "is_config_bar env inst idx =
     (let msk = 0xffff0000;
          irq_id = ioread32 env (bar inst ! idx + XDMA_OFS_INT_CTRL + field_offset interrupt_regs ''identifier'');
          cfg_id = ioread32 env (bar inst ! idx + XDMA_OFS_CONFIG + field_offset config_regs ''identifier'')
      in irq_id AND msk = IRQ_BLOCK_ID \<and> cfg_id AND msk = CONFIG_BLOCK_ID)"

text \<open>The loop of \<open>map_bars\<close> over the BARs that are left; \<open>None\<close> is the jump to \<open>fail\<close>.\<close>

fun map_loop :: "pci_env \<Rightarrow> nat list \<Rightarrow> int list \<Rightarrow> nat \<Rightarrow> dev_inst \<Rightarrow> kcall list \<Rightarrow> (int list \<times> nat) option \<times> dev_inst \<times> kcall list" where
  "map_loop env [] bar_id_list config_bar_pos inst log = (Some (bar_id_list, config_bar_pos), inst, log)"
| "map_loop env (i # is) bar_id_list config_bar_pos inst log =
     (case map_single_bar env i inst log of (bar_len, inst, log) \<Rightarrow>
      if bar_len = 0 then map_loop env is bar_id_list config_bar_pos inst log
      else if bar_len < 0 then (None, inst, log)
      else if bar_len \<ge> int (unat XDMA_BAR_SIZE) \<and> config_bar_idx inst < 0 \<and> is_config_bar env inst i then
        map_loop env is (bar_id_list @ [int i]) (length bar_id_list) (inst\<lparr>config_bar_idx := int i\<rparr>) log
      else map_loop env is (bar_id_list @ [int i]) config_bar_pos inst log)"

definition map_bars :: "pci_env \<Rightarrow> dev_inst \<Rightarrow> kcall list \<Rightarrow> int \<times> dev_inst \<times> kcall list" where
  "map_bars env inst log =
     (case map_loop env [0..<XDMA_BAR_NUM] [] 0 inst log of
        (None, inst, log) \<Rightarrow> (-1, unmap_bars inst log)
      | (Some (bar_id_list, config_bar_pos), inst, log) \<Rightarrow>
          if config_bar_idx inst < 0 then (-1, unmap_bars inst log)
          else (0, identify_bars bar_id_list config_bar_pos inst, log))"

definition set_dma_mask :: "pci_env \<Rightarrow> kcall list \<Rightarrow> int \<times> kcall list" where
  "set_dma_mask env log = (dma_set_mask_and_coherent env, log @ [Set_dma_mask (dma_set_mask_and_coherent env)])"

section \<open>Engines\<close>

definition get_engine_channel_id :: "pci_env \<Rightarrow> u64 \<Rightarrow> u32" where
  "get_engine_channel_id env regs = drop_bit 8 (ioread32 env (regs + field_offset engine_regs ''identifier'') AND 0x00000f00)"

definition get_engine_id :: "pci_env \<Rightarrow> u64 \<Rightarrow> u32" where
  "get_engine_id env regs = drop_bit 16 (ioread32 env (regs + field_offset engine_regs ''identifier'') AND 0xffff0000)"

text \<open>The registers at which \<open>probe_for_engine\<close> looks for an engine.\<close>

definition engine_base :: "dev_inst \<Rightarrow> bool \<Rightarrow> nat \<Rightarrow> u64" where
  "engine_base inst dir_to_dev channel =
     config_base inst + ((if \<not> dir_to_dev then 1 else 0) * H2C_CHANNEL_OFFSET + of_nat channel * CHANNEL_SPACING)"

definition probe_for_engine :: "pci_env \<Rightarrow> bool \<Rightarrow> nat \<Rightarrow> dev_inst \<Rightarrow> int \<times> dev_inst" where
  "probe_for_engine env dir_to_dev channel inst =
     (let regs = engine_base inst dir_to_dev channel;
          engine_id_expected = (if dir_to_dev then XDMA_ID_H2C else XDMA_ID_C2H)
      in if get_engine_id env regs \<noteq> engine_id_expected then (0, inst)
         else if get_engine_channel_id env regs \<noteq> of_nat channel then (0, inst)
         else
           (let inst = (if dir_to_dev then inst\<lparr>h2c_count := h2c_count inst + 1\<rparr> else inst\<lparr>c2h_count := c2h_count inst + 1\<rparr>) in
            if \<not> dir_to_dev then (0, if c2h_engine inst = -1 then inst\<lparr>c2h_engine := int channel\<rparr> else inst)
            else (0, if h2c_engine inst = -1 then inst\<lparr>h2c_engine := int channel\<rparr> else inst)))"

fun probe_channels :: "pci_env \<Rightarrow> nat list \<Rightarrow> dev_inst \<Rightarrow> int \<times> dev_inst" where
  "probe_channels env [] inst = (0, inst)"
| "probe_channels env (channel # channels) inst =
     (case probe_for_engine env True channel inst of (rc, inst) \<Rightarrow>
      if rc \<noteq> 0 then (rc, inst)
      else (case probe_for_engine env False channel inst of (rc, inst) \<Rightarrow>
            if rc \<noteq> 0 then (rc, inst) else probe_channels env channels inst))"

definition ENODEV :: int where "ENODEV = 19"

definition probe_engines :: "pci_env \<Rightarrow> dev_inst \<Rightarrow> kcall list \<Rightarrow> int \<times> dev_inst \<times> kcall list" where
  "probe_engines env inst log =
     (case probe_channels env [0..<XDMA_CHANNEL_NUM_MAX] (inst\<lparr>h2c_count := 0, c2h_count := 0, h2c_engine := -1, c2h_engine := -1\<rparr>) of
      (rc, inst) \<Rightarrow>
        if rc \<noteq> 0 then (rc, inst, log)
        else if h2c_engine inst = -1 \<or> c2h_engine inst = -1 then (- ENODEV, inst, log)
        else
          (let h2c_offset = H2C_CHANNEL_OFFSET + of_int (h2c_engine inst) * CHANNEL_SPACING;
               c2h_offset = C2H_CHANNEL_OFFSET + of_int (c2h_engine inst) * CHANNEL_SPACING;
               inst = inst\<lparr>h2c_regs := config_base inst + h2c_offset, c2h_regs := config_base inst + c2h_offset\<rparr>;
               control = field_offset engine_regs ''control'';
               log = log @ [Iowrite32 (h2c_regs inst + control) 1, Iowrite32 (c2h_regs inst + control) 1]
           in (0, inst\<lparr>desc_bypass_enabled := True\<rparr>, log @ [Mmiowb])))"

section \<open>Probe and remove\<close>

definition irq_teardown :: "dev_inst \<Rightarrow> kcall list \<Rightarrow> kcall list" where
  "irq_teardown inst log = (if msix_enabled inst then log else if irq_line inst \<noteq> -1 then log @ [Free_irq (irq_line inst)] else log)"

text \<open>The labels, from the last to the first. A failed probe leaves no instance.\<close>

definition err_enable :: "int \<Rightarrow> dev_inst \<Rightarrow> kcall list \<Rightarrow> int \<times> dev_inst option \<times> kcall list" where
  "err_enable rc inst log = (rc, None, log @ [Kfree])"

definition err_scan_msi where
  "err_scan_msi rc inst log = err_enable rc inst (if \<not> regions_in_use inst then log @ [Disable_device] else log)"

definition err_regions where
  "err_regions rc inst log = err_scan_msi rc inst (if msi_enabled inst then log @ [Disable_msi] else log)"

definition err_map where
  "err_map rc inst log = err_regions rc inst (if got_regions inst then log @ [Release_regions] else log)"

definition err_mask where
  "err_mask rc inst log = (case unmap_bars inst log of (inst, log) \<Rightarrow> err_map rc inst log)"

definition err_engines where
  "err_engines rc inst log = err_mask rc inst (irq_teardown inst log)"

definition probe :: "pci_env \<Rightarrow> int \<times> dev_inst option \<times> kcall list" where
  "probe env =
     (case alloc_dev_instance env of
        (None, log) \<Rightarrow> (0, None, log)
      | (Some inst, log) \<Rightarrow>
         let rc = pci_enable_device env; log = log @ [Enable_device rc] in
         if rc \<noteq> 0 then err_enable rc inst log else
         (case probe_scan_for_msi env inst (log @ [Set_master]) of (rc, inst, log) \<Rightarrow>
         if rc < 0 then err_scan_msi rc inst log else
         (case request_regions env inst log of (rc, inst, log) \<Rightarrow>
         if rc \<noteq> 0 then err_regions rc inst log else
         (case map_bars env inst log of (rc, inst, log) \<Rightarrow>
         if rc \<noteq> 0 then err_map rc inst log else
         (case set_dma_mask env log of (rc, log) \<Rightarrow>
         if rc \<noteq> 0 then err_mask rc inst log else
         (case probe_engines env inst log of (rc, inst, log) \<Rightarrow>
         if rc \<noteq> 0 then err_engines rc inst log else
         let status = field_offset engine_regs ''status'';
             rc = misc_register env;
             log = log @ [Iowrite32 (h2c_regs inst + status) 0xFFFFFFFF, Iowrite32 (c2h_regs inst + status) 0xFFFFFFFF, Misc_register rc]
         in if rc < 0 then err_engines rc inst log
            else if rc = 0 then (rc, Some inst, log)
            else err_engines rc inst log))))))"

text \<open>\<open>remove\<close> on the driver data of the device; a different device in the instance is only reported.\<close>

definition remove_dev :: "dev_inst option \<Rightarrow> kcall list \<Rightarrow> kcall list" where
  "remove_dev drvdata log =
     (case drvdata of None \<Rightarrow> log
      | Some inst \<Rightarrow>
          let (inst, log) = unmap_bars inst (log @ [Misc_deregister]);
              log = (if got_regions inst then log @ [Release_regions] else log);
              log = (if msix_enabled inst then log @ [Disable_msix] else if msi_enabled inst then log @ [Disable_msi] else log);
              log = (if \<not> regions_in_use inst then log @ [Disable_device] else log)
          in log @ [Kfree])"

definition xdma_driver_init :: "int \<Rightarrow> kcall list \<Rightarrow> int \<times> kcall list" where
  "xdma_driver_init pci_register_driver log = (pci_register_driver, log @ [Register_driver pci_register_driver])"

definition xdma_driver_exit :: "kcall list \<Rightarrow> kcall list" where
  "xdma_driver_exit log = log @ [Unregister_driver]"

section \<open>Resources held\<close>

datatype resource = Instance | Device | Msix | Msi | Regions | Bar u64 | Node

fun effect :: "kcall \<Rightarrow> resource set \<Rightarrow> resource set" where
  "effect (Kzalloc ok) H = (if ok then insert Instance H else H)"
| "effect Kfree H = H - {Instance}"
| "effect (Enable_device rc) H = (if rc = 0 then insert Device H else H)"
| "effect Disable_device H = H - {Device}"
| "effect (Enable_msix n rc) H = (if rc \<ge> 0 then insert Msix H else H)"
| "effect Disable_msix H = H - {Msix}"
| "effect (Enable_msi rc) H = (if rc \<ge> 0 then insert Msi H else H)"
| "effect Disable_msi H = H - {Msi}"
| "effect (Request_regions rc) H = (if rc = 0 then insert Regions H else H)"
| "effect Release_regions H = H - {Regions}"
| "effect (Iomap i n p) H = (if p \<noteq> 0 then insert (Bar p) H else H)"
| "effect (Iounmap p) H = H - {Bar p}"
| "effect (Misc_register rc) H = (if rc = 0 then insert Node H else H)"
| "effect Misc_deregister H = H - {Node}"
| "effect c H = H"

definition held :: "kcall list \<Rightarrow> resource set" where
  "held log = fold effect log {}"

lemma held_append [simp]: "held (log @ kcs) = fold effect kcs (held log)"
  by (simp add: held_def)

text \<open>The BARs held beside the resources \<open>R\<close> are among those the instance has a pointer to.\<close>

definition bars :: "dev_inst \<Rightarrow> u64 set" where
  "bars inst = set (bar inst) - {0}"

definition tracks :: "resource set \<Rightarrow> dev_inst \<Rightarrow> kcall list \<Rightarrow> bool" where
  "tracks R inst log \<longleftrightarrow> length (bar inst) = XDMA_BAR_NUM \<and> R \<inter> range Bar = {} \<and> R \<subseteq> held log \<and> held log \<subseteq> R \<union> Bar ` bars inst"

text \<open>The part of the instance that decides what is released.\<close>

definition flags :: "dev_inst \<Rightarrow> bool \<times> bool \<times> int \<times> bool \<times> bool" where
  "flags inst = (regions_in_use inst, got_regions inst, irq_line inst, msi_enabled inst, msix_enabled inst)"

lemma flags_bar [simp]: "flags (inst\<lparr>bar := b\<rparr>) = flags inst" "flags (inst\<lparr>config_bar_idx := c\<rparr>) = flags inst"
  by (simp_all add: flags_def)

lemma set_list_update_keeps: "x \<in> set xs \<Longrightarrow> x \<noteq> xs ! i \<Longrightarrow> x \<in> set (xs[i := v])"
  by (metis in_set_conv_nth length_list_update nth_list_update_neq)

lemma bars_update: "bars inst - {bar inst ! i} \<subseteq> bars (inst\<lparr>bar := (bar inst)[i := v]\<rparr>)"
  using set_list_update_keeps [of _ "bar inst" i v] by (auto simp: bars_def)

lemma tracks_unmap:
  assumes "tracks R inst log"
  shows "tracks R (inst\<lparr>bar := (bar inst)[i := 0]\<rparr>) (log @ [Iounmap (bar inst ! i)])"
proof -
  have "bars inst - {bar inst ! i} \<subseteq> bars (inst\<lparr>bar := (bar inst)[i := 0]\<rparr>)" by (rule bars_update)
  with assms show ?thesis by (simp add: tracks_def) blast
qed

lemma unmap_loop_tracks:
  "unmap_loop is inst log = (inst', log') \<Longrightarrow> tracks R inst log \<Longrightarrow> set is \<subseteq> {..<XDMA_BAR_NUM} \<Longrightarrow>
   tracks R inst' log' \<and> inst' = inst\<lparr>bar := bar inst'\<rparr> \<and>
   (\<forall>i. bar inst' ! i = (if i \<in> set is then 0 else bar inst ! i))"
proof (induction "is" arbitrary: inst log)
  case Nil
  then show ?case by auto
next
  case (Cons i "is")
  have i: "i < length (bar inst)" using Cons(3,4) by (simp add: tracks_def)
  show ?case
  proof (cases "bar inst ! i = 0")
    case True
    with Cons have "tracks R inst' log' \<and> inst' = inst\<lparr>bar := bar inst'\<rparr> \<and> (\<forall>i. bar inst' ! i = (if i \<in> set is then 0 else bar inst ! i))"
      by auto
    with True show ?thesis by auto
  next
    case False
    let ?inst = "inst\<lparr>bar := (bar inst)[i := 0]\<rparr>"
    from False Cons(2) have "unmap_loop is ?inst (log @ [Iounmap (bar inst ! i)]) = (inst', log')" by simp
    from Cons(1) [OF this tracks_unmap [OF Cons(3)]] Cons(4)
    have "tracks R inst' log'" "inst' = ?inst\<lparr>bar := bar inst'\<rparr>" "\<forall>j. bar inst' ! j = (if j \<in> set is then 0 else bar ?inst ! j)"
      by auto
    with i show ?thesis by (auto simp: nth_list_update)
  qed
qed

lemma unmap_bars_releases:
  assumes "tracks R inst log" "unmap_bars inst log = (inst', log')"
  shows "held log' = R \<and> inst' = inst\<lparr>bar := replicate XDMA_BAR_NUM 0\<rparr>"
proof -
  from assms have *: "tracks R inst' log'" "inst' = inst\<lparr>bar := bar inst'\<rparr>"
    "\<forall>i. bar inst' ! i = (if i \<in> set [0..<XDMA_BAR_NUM] then 0 else bar inst ! i)"
    using unmap_loop_tracks [of "[0..<XDMA_BAR_NUM]" inst log inst' log' R] by (auto simp: unmap_bars_def atLeast0LessThan)
  then have "bar inst' = replicate XDMA_BAR_NUM 0" by (intro nth_equalityI) (auto simp: tracks_def)
  with * show ?thesis by (auto simp: tracks_def bars_def)
qed

lemma map_single_bar_tracks:
  assumes "map_single_bar env i inst log = (len, inst', log')" "tracks R inst log" "i < XDMA_BAR_NUM" "bar inst ! i = 0"
  shows "tracks R inst' log' \<and> (\<exists>p. inst' = inst\<lparr>bar := (bar inst)[i := p]\<rparr>)"
proof -
  have ex: "\<exists>p. inst' = inst\<lparr>bar := (bar inst)[i := p]\<rparr>"
    using assms(1) by (auto simp: map_single_bar_def Let_def split: if_splits)
  have grow: "tracks R (inst\<lparr>bar := (bar inst)[i := p]\<rparr>) (log @ [Iomap i n p])" for p n
  proof -
    have old: "bars inst \<subseteq> bars (inst\<lparr>bar := (bar inst)[i := p]\<rparr>)"
      using bars_update [of inst i p] assms(4) by (auto simp: bars_def)
    have new: "p \<noteq> 0 \<Longrightarrow> p \<in> bars (inst\<lparr>bar := (bar inst)[i := p]\<rparr>)"
      using assms(2,3) by (simp add: bars_def tracks_def set_update_memI)
    show ?thesis using assms(2) old new by (simp add: tracks_def) blast
  qed
  have "tracks R (inst\<lparr>bar := (bar inst)[i := 0]\<rparr>) log"
    using assms(2,4) by (metis list_update_id dev_inst.surjective dev_inst.update_convs(2))
  with assms(1) grow have "tracks R inst' log'"
    by (simp add: map_single_bar_def Let_def split: if_splits) (metis grow)+
  with ex show ?thesis by blast
qed

lemma map_loop_tracks:
  "map_loop env is ids pos inst log = (r, inst', log') \<Longrightarrow> tracks R inst log \<Longrightarrow> distinct is \<Longrightarrow> set is \<subseteq> {..<XDMA_BAR_NUM} \<Longrightarrow>
   \<forall>i \<in> set is. bar inst ! i = 0 \<Longrightarrow> tracks R inst' log' \<and> flags inst' = flags inst"
proof (induction "is" arbitrary: ids pos inst log)
  case Nil
  then show ?case by simp
next
  case (Cons i "is")
  obtain len inst1 log1 where 1: "map_single_bar env i inst log = (len, inst1, log1)" by (cases "map_single_bar env i inst log")
  with map_single_bar_tracks [OF 1 Cons(3)] Cons(5,6) obtain p where
    t: "tracks R inst1 log1" "inst1 = inst\<lparr>bar := (bar inst)[i := p]\<rparr>" by auto
  have z: "\<forall>j \<in> set is. bar inst1 ! j = 0" using t(2) Cons(4,6) by simp (metis nth_list_update_neq)
  have tc: "tracks R (inst1\<lparr>config_bar_idx := c\<rparr>) log1" for c using t(1) by (simp add: tracks_def bars_def)
  have f: "flags inst1 = flags inst" "flags (inst1\<lparr>config_bar_idx := c\<rparr>) = flags inst" for c using t(2) by simp_all
  show ?case
    using Cons(2) 1 t(1) tc z f Cons(4,5) Cons.IH [of _ _ inst1 log1] Cons.IH [of _ _ "inst1\<lparr>config_bar_idx := int i\<rparr>" log1]
    by (simp split: if_splits)
qed

lemma identify_bars_frame:
  "flags (identify_bars ids pos inst) = flags inst" "bar (identify_bars ids pos inst) = bar inst"
  "config_bar_idx (identify_bars ids pos inst) = config_bar_idx inst"
  "tracks R (identify_bars ids pos inst) log = tracks R inst log"
  by (simp_all add: identify_bars_def flags_def Let_def tracks_def bars_def)

lemma map_bars_tracks:
  assumes "map_bars env inst log = (rc, inst', log')" "tracks R inst log" "bar inst = replicate XDMA_BAR_NUM 0"
  shows "flags inst' = flags inst \<and> (if rc = 0 then tracks R inst' log' else held log' = R)"
proof -
  obtain r inst1 log1 where 1: "map_loop env [0..<XDMA_BAR_NUM] [] 0 inst log = (r, inst1, log1)"
    by (cases "map_loop env [0..<XDMA_BAR_NUM] [] 0 inst log")
  from map_loop_tracks [OF 1 assms(2)] assms(3) have t: "tracks R inst1 log1" "flags inst1 = flags inst" by (auto simp: atLeast0LessThan)
  obtain inst2 log2 where 2: "unmap_bars inst1 log1 = (inst2, log2)" by (cases "unmap_bars inst1 log1")
  from unmap_bars_releases [OF t(1) 2] have u: "held log2 = R" "flags inst2 = flags inst1" by auto
  show ?thesis using assms(1) 1 2 t u
    by (auto simp: map_bars_def identify_bars_frame split: option.splits if_splits)
qed

section \<open>Engines found\<close>

definition engine_found :: "pci_env \<Rightarrow> dev_inst \<Rightarrow> bool \<Rightarrow> nat \<Rightarrow> bool" where
  "engine_found env inst to_dev ch \<longleftrightarrow>
     get_engine_id env (engine_base inst to_dev ch) = (if to_dev then XDMA_ID_H2C else XDMA_ID_C2H) \<and>
     get_engine_channel_id env (engine_base inst to_dev ch) = of_nat ch"

definition first_engine :: "pci_env \<Rightarrow> dev_inst \<Rightarrow> bool \<Rightarrow> nat list \<Rightarrow> int" where
  "first_engine env inst to_dev chs = (case find (engine_found env inst to_dev) chs of None \<Rightarrow> -1 | Some ch \<Rightarrow> int ch)"

lemma probe_for_engine_eq:
  "probe_for_engine env to_dev ch inst = (0,
     if \<not> engine_found env inst to_dev ch then inst
     else if to_dev then inst\<lparr>h2c_count := h2c_count inst + 1, h2c_engine := (if h2c_engine inst = -1 then int ch else h2c_engine inst)\<rparr>
     else inst\<lparr>c2h_count := c2h_count inst + 1, c2h_engine := (if c2h_engine inst = -1 then int ch else c2h_engine inst)\<rparr>)"
  by (auto simp: probe_for_engine_def engine_found_def Let_def)

text \<open>The engines found depend on the mapping of the BARs only.\<close>

lemma engine_found_cong:
  "config_base inst' = config_base inst \<Longrightarrow> engine_found env inst' = engine_found env inst"
  by (intro ext) (simp add: engine_found_def engine_base_def)

lemma probe_channels_finds:
  "\<exists>hn cn. probe_channels env chs inst =
     (0, inst\<lparr>h2c_count := hn, c2h_count := cn,
       h2c_engine := (if h2c_engine inst = -1 then first_engine env inst True chs else h2c_engine inst),
       c2h_engine := (if c2h_engine inst = -1 then first_engine env inst False chs else c2h_engine inst)\<rparr>) \<and>
     hn = h2c_count inst + int (length (filter (engine_found env inst True) chs)) \<and>
     cn = c2h_count inst + int (length (filter (engine_found env inst False) chs))"
proof (induction chs arbitrary: inst)
  case Nil
  then show ?case by (simp add: first_engine_def)
next
  case (Cons ch chs)
  have cong: "engine_found env (inst\<lparr>h2c_count := a, h2c_engine := b\<rparr>) = engine_found env inst"
    "engine_found env (inst\<lparr>c2h_count := a, c2h_engine := b\<rparr>) = engine_found env inst"
    "engine_found env (inst\<lparr>h2c_count := a, h2c_engine := b, c2h_count := c, c2h_engine := e\<rparr>) = engine_found env inst" for a b c e
    by (rule engine_found_cong; simp add: config_base_def)+
  show ?case
    using Cons [of "snd (probe_for_engine env False ch (snd (probe_for_engine env True ch inst)))"]
    by (auto simp: probe_for_engine_eq cong first_engine_def)
qed

lemma probe_engines_cases:
  fixes env inst
  defines "h \<equiv> first_engine env inst True [0..<XDMA_CHANNEL_NUM_MAX]" and "c \<equiv> first_engine env inst False [0..<XDMA_CHANNEL_NUM_MAX]"
  assumes "probe_engines env inst log = (rc, inst', log')"
  shows "flags inst' = flags inst \<and> bar inst' = bar inst \<and> config_bar_idx inst' = config_bar_idx inst \<and>
    (if h = -1 \<or> c = -1 then rc = - ENODEV \<and> log' = log
     else rc = 0 \<and> h2c_engine inst' = h \<and> c2h_engine inst' = c \<and>
       h2c_regs inst' = config_base inst + 0x1000 + of_int h * 0x100 \<and> c2h_regs inst' = config_base inst + of_int c * 0x100 \<and>
       log' = log @ [Iowrite32 (h2c_regs inst' + 4) 1, Iowrite32 (c2h_regs inst' + 4) 1, Mmiowb])"
proof -
  let ?inst = "inst\<lparr>h2c_count := 0, c2h_count := 0, h2c_engine := -1, c2h_engine := -1\<rparr>"
  have cong: "engine_found env ?inst = engine_found env inst" by (rule engine_found_cong) (simp add: config_base_def)
  from probe_channels_finds [of env "[0..<XDMA_CHANNEL_NUM_MAX]" ?inst] obtain hn cn where
    "probe_channels env [0..<XDMA_CHANNEL_NUM_MAX] ?inst = (0, ?inst\<lparr>h2c_count := hn, c2h_count := cn, h2c_engine := h, c2h_engine := c\<rparr>)"
    unfolding h_def c_def first_engine_def cong by auto
  with assms(3) show ?thesis
    by (auto simp: probe_engines_def Let_def flags_def config_base_def xdma_constants algebra_simps split: if_splits)
qed

section \<open>What is released\<close>

lemma held_err:
  "err_enable rc inst log = (rc, None, log @ [Kfree])"
  "fst (err_scan_msi rc inst log) = rc" "fst (snd (err_scan_msi rc inst log)) = None"
  "held (snd (snd (err_scan_msi rc inst log))) = held log - (if regions_in_use inst then {} else {Device}) - {Instance}"
  "fst (err_regions rc inst log) = rc" "fst (snd (err_regions rc inst log)) = None"
  "held (snd (snd (err_regions rc inst log))) =
     held log - (if msi_enabled inst then {Msi} else {}) - (if regions_in_use inst then {} else {Device}) - {Instance}"
  "fst (err_map rc inst log) = rc" "fst (snd (err_map rc inst log)) = None"
  "held (snd (snd (err_map rc inst log))) =
     held log - (if got_regions inst then {Regions} else {}) - (if msi_enabled inst then {Msi} else {}) -
       (if regions_in_use inst then {} else {Device}) - {Instance}"
  by (auto simp: err_enable_def err_scan_msi_def err_regions_def err_map_def)

lemma held_err_mask:
  assumes "tracks R inst log"
  shows "fst (err_mask rc inst log) = rc \<and> fst (snd (err_mask rc inst log)) = None \<and>
    held (snd (snd (err_mask rc inst log))) =
     R - (if got_regions inst then {Regions} else {}) - (if msi_enabled inst then {Msi} else {}) -
       (if regions_in_use inst then {} else {Device}) - {Instance}"
proof -
  obtain inst' log' where u: "unmap_bars inst log = (inst', log')" by (cases "unmap_bars inst log")
  from unmap_bars_releases [OF assms u] show ?thesis by (simp add: err_mask_def u held_err)
qed

text \<open>The instance and the resources when \<open>probe\<close> starts to map BARs.\<close>

definition scanned :: "pci_env \<Rightarrow> dev_inst" where
  "scanned env = fst (snd (probe_scan_for_msi env (new_dev_inst (pdev_addr env)) []))"

definition scan_failed :: "pci_env \<Rightarrow> bool" where
  "scan_failed env \<longleftrightarrow> (if msi_msix_capable env PCI_CAP_ID_MSIX then pci_enable_msix_exact env < 0
     else msi_msix_capable env PCI_CAP_ID_MSI \<and> pci_enable_msi env < 0)"

text \<open>What a failed \<open>probe\<close> leaves behind: the vectors of MSI-X always, and the enabled device
  when its regions are in use.\<close>

definition leaked :: "pci_env \<Rightarrow> resource set" where
  "leaked env =
     (if pci_enable_device env \<noteq> 0 \<or> scan_failed env then {}
      else (if msi_msix_capable env PCI_CAP_ID_MSIX then {Msix} else {}) \<union> (if pci_request_regions env \<noteq> 0 then {Device} else {}))"

lemma remove_releases:
  assumes "tracks (insert Node R) inst log" "\<not> regions_in_use inst" "got_regions inst"
    and "R \<subseteq> {Instance, Device, Regions} \<union> (if msix_enabled inst then {Msix} else if msi_enabled inst then {Msi} else {})"
  shows "held (remove_dev (Some inst) log) = {}"
proof -
  from assms(4) have "Node \<notin> R" by (auto split: if_splits)
  with assms(1) have t: "tracks R inst (log @ [Misc_deregister])" by (auto simp: tracks_def)
  obtain inst' log' where u: "unmap_bars inst (log @ [Misc_deregister]) = (inst', log')" by (cases "unmap_bars inst (log @ [Misc_deregister])")
  from unmap_bars_releases [OF t u] assms(2-4) show ?thesis
    by (auto simp: remove_dev_def u split: if_splits)
qed

definition base_resources :: "dev_inst \<Rightarrow> resource set" where
  "base_resources inst = {Instance, Device, Regions} \<union> (if msix_enabled inst then {Msix} else if msi_enabled inst then {Msi} else {})"

text \<open>From the mapping of the BARs on.\<close>

lemma probe_late_stages:
  assumes "bar inst = replicate XDMA_BAR_NUM 0" "flags inst = (False, True, -1, msi, msix)" "\<not> (msi \<and> msix)"
    and "held log = base_resources inst"
    and "(case map_bars env inst log of (rc, inst, log) \<Rightarrow>
         if rc \<noteq> 0 then err_map rc inst log else
         (case set_dma_mask env log of (rc, log) \<Rightarrow>
         if rc \<noteq> 0 then err_mask rc inst log else
         (case probe_engines env inst log of (rc, inst, log) \<Rightarrow>
         if rc \<noteq> 0 then err_engines rc inst log else
         let status = field_offset engine_regs ''status'';
             rc = misc_register env;
             log = log @ [Iowrite32 (h2c_regs inst + status) 0xFFFFFFFF, Iowrite32 (c2h_regs inst + status) 0xFFFFFFFF, Misc_register rc]
         in if rc < 0 then err_engines rc inst log
            else if rc = 0 then (rc, Some inst, log)
            else err_engines rc inst log))) = (rc, r, log')"
  shows "(case r of None \<Rightarrow> rc \<noteq> 0 \<and> held log' = (if msix then {Msix} else {})
    | Some inst' \<Rightarrow> rc = 0 \<and> held (remove_dev (Some inst') log') = {})"
proof -
  let ?R = "base_resources inst"
  have fl: "base_resources i = ?R" if "flags i = flags inst" for i using that by (simp add: base_resources_def flags_def)
  obtain rc1 inst1 log1 where 1: "map_bars env inst log = (rc1, inst1, log1)" by (cases "map_bars env inst log")
  have "tracks ?R inst log" using assms(1,4) by (auto simp: tracks_def bars_def base_resources_def)
  from map_bars_tracks [OF 1 this assms(1)]
  have m: "flags inst1 = flags inst" "rc1 = 0 \<Longrightarrow> tracks ?R inst1 log1" "rc1 \<noteq> 0 \<Longrightarrow> held log1 = ?R" by (auto split: if_splits)
  obtain rc2 inst2 log2 where 2: "probe_engines env inst1 (log1 @ [Set_dma_mask (dma_set_mask_and_coherent env)]) = (rc2, inst2, log2)"
    by (cases "probe_engines env inst1 (log1 @ [Set_dma_mask (dma_set_mask_and_coherent env)])")
  from probe_engines_cases [OF 2] have e: "flags inst2 = flags inst" "bar inst2 = bar inst1" "held log2 = held log1"
    using m(1) by (auto split: if_splits)
  have bad: "fst (err_mask rc i l) = rc \<and> fst (snd (err_mask rc i l)) = None \<and> held (snd (snd (err_mask rc i l))) = (if msix then {Msix} else {})"
    if "tracks ?R i l" "flags i = flags inst" for rc i l
    using held_err_mask [OF that(1), of rc] that(2) assms(2,3) by (auto simp: base_resources_def flags_def)
  have tr: "tracks ?R inst2 log2" if "rc1 = 0" using m(2) [OF that] e by (simp add: tracks_def bars_def)
  have bad_engines: "fst (err_engines rc inst2 l) = rc \<and> fst (snd (err_engines rc inst2 l)) = None \<and>
      held (snd (snd (err_engines rc inst2 l))) = (if msix then {Msix} else {})" if "tracks ?R inst2 l" for rc l
    using bad [of inst2 l rc] that e(1) assms(2) by (simp add: err_engines_def irq_teardown_def flags_def)
  show ?thesis
  proof (cases "rc1 = 0")
    case False
    with 1 assms(5) have "(rc, r, log') = err_map rc1 inst1 log1" by simp
    with False m(1) m(3) [OF False] assms(2,3) held_err(8-10) [of rc1 inst1 log1] show ?thesis
      by (auto simp: base_resources_def flags_def prod_eq_iff)
  next
    case True
    note t = tr [OF True] m(2) [OF True]
    let ?l = "log2 @ [Iowrite32 (h2c_regs inst2 + 0x40) 0xFFFFFFFF, Iowrite32 (c2h_regs inst2 + 0x40) 0xFFFFFFFF, Misc_register (misc_register env)]"
    from 1 2 True assms(5) have res: "(rc, r, log') =
      (if dma_set_mask_and_coherent env \<noteq> 0
       then err_mask (dma_set_mask_and_coherent env) inst1 (log1 @ [Set_dma_mask (dma_set_mask_and_coherent env)])
       else if rc2 \<noteq> 0 then err_engines rc2 inst2 log2
       else if misc_register env = 0 then (0, Some inst2, ?l) else err_engines (misc_register env) inst2 ?l)"
      by (simp add: set_dma_mask_def Let_def split: if_splits)
    have t1: "tracks ?R inst1 (log1 @ [Set_dma_mask (dma_set_mask_and_coherent env)])" using t(2) by (simp add: tracks_def)
    have t2: "misc_register env \<noteq> 0 \<Longrightarrow> tracks ?R inst2 ?l" using t(1) by (simp add: tracks_def)
    have t3: "misc_register env = 0 \<Longrightarrow> tracks (insert Node ?R) inst2 ?l" using t(1) by (auto simp: tracks_def)
    from res show ?thesis
      using bad [OF t1 m(1)] bad_engines [OF t(1)] bad_engines [OF t2] remove_releases [OF t3] e(1) assms(2)
      by (auto simp: prod_eq_iff base_resources_def flags_def split: if_splits option.splits)
  qed
qed

lemma probe_outcome:
  assumes "probe env = (rc, r, log)"
  shows "(case r of
      None \<Rightarrow> (if kzalloc_ok env then rc \<noteq> 0 \<and> held log = leaked env else rc = 0 \<and> log = [Kzalloc False])
    | Some inst \<Rightarrow> rc = 0 \<and> kzalloc_ok env \<and> held (remove_dev (Some inst) log) = {})"
proof (cases "kzalloc_ok env \<and> pci_enable_device env = 0 \<and> \<not> scan_failed env \<and> pci_request_regions env = 0")
  case False
  then show ?thesis
    using assms held_err(2-7)
    by (auto simp: probe_def alloc_dev_instance_def Let_def held_err(1) leaked_def scan_failed_def probe_scan_for_msi_def request_regions_def
        new_dev_inst_def held_def err_scan_msi_def err_regions_def err_enable_def split: if_splits)
next
  case True
  let ?n = "new_dev_inst (pdev_addr env)" and ?l = "[Kzalloc True, Set_drvdata, Enable_device 0, Set_master]"
  obtain rc1 inst1 log1 where 1: "probe_scan_for_msi env ?n ?l = (rc1, inst1, log1)" by (cases "probe_scan_for_msi env ?n ?l")
  let ?i = "inst1\<lparr>got_regions := True\<rparr>" and ?msix = "msi_msix_capable env PCI_CAP_ID_MSIX"
  have i: "rc1 \<ge> 0" "bar ?i = replicate XDMA_BAR_NUM 0"
    "flags ?i = (False, True, -1, \<not> ?msix \<and> msi_msix_capable env PCI_CAP_ID_MSI, ?msix)"
    "held (log1 @ [Request_regions 0]) = base_resources ?i"
    using 1 True by (auto simp: probe_scan_for_msi_def Let_def new_dev_inst_def flags_def base_resources_def held_def scan_failed_def split: if_splits)
  have "leaked env = (if ?msix then {Msix} else {})" using True by (simp add: leaked_def)
  with probe_late_stages [OF i(2,3) _ i(4), of env rc r log] assms True 1 i(1) show ?thesis
    by (simp add: probe_def alloc_dev_instance_def request_regions_def Let_def split: option.splits)
qed

text \<open>C19. Whatever a successful \<open>probe\<close> has acquired, \<open>remove\<close> releases: no memory, device
  enable, interrupt vectors, regions, BAR mapping or device node is left.\<close>

theorem probe_remove_releases:
  assumes "probe env = (rc, Some inst, log)"
  shows "rc = 0 \<and> held (remove_dev (Some inst) log) = {}"
  using probe_outcome [OF assms] by simp

definition example_pci :: pci_env where
  "example_pci =
     \<lparr>kzalloc_ok = True, pci_enable_device = 0, no_msi = False, bus_no_msi = [False, False],
      pci_find_capability = (\<lambda>c. if c = PCI_CAP_ID_MSIX then 1 else 0), pci_enable_msix_exact = 0, pci_enable_msi = 0,
      pci_request_regions = 0, pci_resource_len = (\<lambda>i. if i = 0 then 0x8000 else if i = 2 then 0x10000 else 0),
      pci_iomap = (\<lambda>i n. if i = 0 then 0x1000000 else 0x3000000),
      ioread32 = (\<lambda>a. if a = 0x3002000 then 0x1fc20006 else if a = 0x3003000 then 0x1fc30006
        else if a = 0x3000000 then 0x1fc00006 else if a = 0x3001100 then 0x1fc10106 else 0),
      dma_set_mask_and_coherent = 0, misc_register = 0, pdev_addr = 0x1234\<rparr>"

lemma six_bars: "[0..<6] = [0, 1, 2, 3, 4, 5 :: nat]" "[0..<4] = [0, 1, 2, 3 :: nat]" "replicate 6 (0 :: u64) = [0, 0, 0, 0, 0, 0]"
  by (simp_all add: upt_rec numeral_eq_Suc)

lemmas probe_eval = probe_def alloc_dev_instance_def new_dev_inst_def probe_scan_for_msi_def msi_msix_capable_def
  arch_msi_check_device_def request_regions_def INT_MAX_def map_single_bar_def identify_bars_def unmap_bars_def is_config_bar_def
  map_bars_def set_dma_mask_def get_engine_channel_id_def get_engine_id_def engine_base_def config_base_def probe_for_engine_def
  probe_engines_def Let_def six_bars drop_bit_eq_div xdma_constants example_pci_def

theorem probe_remove_releases_witness:
  "\<exists>inst log. probe example_pci = (0, Some inst, log) \<and> log \<noteq> [] \<and> held (remove_dev (Some inst) log) = {}"
proof -
  have "\<exists>inst log. probe example_pci = (0, Some inst, log) \<and> log \<noteq> []" by (simp add: probe_eval)
  then obtain inst log where "probe example_pci = (0, Some inst, log)" "log \<noteq> []" by blast
  with probe_remove_releases [OF this(1)] show ?thesis by blast
qed

text \<open>C38. A \<open>probe\<close> that fails returns an error and holds nothing afterwards, except that MSI-X
  stays enabled and that the device stays enabled when its regions are in use. When the instance
  cannot be allocated nothing is held but \<open>probe\<close> reports success.\<close>

theorem probe_failure_leaks:
  assumes "probe env = (rc, None, log)"
  shows "if kzalloc_ok env then rc \<noteq> 0 \<and> held log = leaked env else rc = 0 \<and> held log = {}"
  using probe_outcome [OF assms] by (auto simp: held_def)

theorem probe_failure_leaks_witness:
  "\<exists>log. probe (example_pci\<lparr>dma_set_mask_and_coherent := -5\<rparr>) = (-5, None, log) \<and> held log = {Msix}"
proof -
  let ?e = "example_pci\<lparr>dma_set_mask_and_coherent := -5\<rparr>"
  have "\<exists>log. probe ?e = (-5, None, log)"
    by (simp add: probe_eval err_enable_def err_scan_msi_def err_regions_def err_map_def err_mask_def)
  then obtain log where p: "probe ?e = (-5, None, log)" by blast
  have "kzalloc_ok ?e" "leaked ?e = {Msix}"
    by (simp_all add: example_pci_def leaked_def scan_failed_def msi_msix_capable_def arch_msi_check_device_def)
  with probe_failure_leaks [OF p] p show ?thesis by auto
qed

section \<open>BARs and engines of a probed device\<close>

lemma map_loop_writes:
  "map_loop env is ids pos inst log = (r, inst', log') \<Longrightarrow> reg_writes log' = reg_writes log"
proof (induction "is" arbitrary: ids pos inst log)
  case Nil
  then show ?case by simp
next
  case (Cons i "is")
  obtain len inst1 log1 where 1: "map_single_bar env i inst log = (len, inst1, log1)" by (cases "map_single_bar env i inst log")
  then have "reg_writes log1 = reg_writes log" by (auto simp: map_single_bar_def Let_def split: if_splits)
  with Cons 1 show ?case by (auto split: if_splits)
qed

lemma probe_success_stages:
  assumes "probe env = (rc, Some inst, log)"
  obtains inst0 log0 inst1 log1 log2 where "reg_writes log0 = []" "map_bars env inst0 log0 = (0, inst1, log1)" "reg_writes log1 = []"
    and "probe_engines env inst1 (log1 @ [Set_dma_mask 0]) = (0, inst, log2)"
    and "log = log2 @ [Iowrite32 (h2c_regs inst + 0x40) 0xFFFFFFFF, Iowrite32 (c2h_regs inst + 0x40) 0xFFFFFFFF, Misc_register 0]"
    and "user_bar_idx inst0 = -1" "bypass_bar_idx inst0 = -1" "config_bar_idx inst0 = -1" "bar inst0 = replicate XDMA_BAR_NUM 0"
proof -
  obtain rc0 i0 l0 where 0: "probe_scan_for_msi env (new_dev_inst (pdev_addr env)) [Kzalloc True, Set_drvdata, Enable_device 0, Set_master] = (rc0, i0, l0)"
    by (cases "probe_scan_for_msi env (new_dev_inst (pdev_addr env)) [Kzalloc True, Set_drvdata, Enable_device 0, Set_master]")
  let ?i0 = "i0\<lparr>got_regions := True\<rparr>" and ?l0 = "l0 @ [Request_regions 0]"
  obtain rc1 i1 l1 where 1: "map_bars env ?i0 ?l0 = (rc1, i1, l1)" by (cases "map_bars env ?i0 ?l0")
  obtain rc2 i2 l2 where 2: "probe_engines env i1 (l1 @ [Set_dma_mask 0]) = (rc2, i2, l2)" by (cases "probe_engines env i1 (l1 @ [Set_dma_mask 0])")
  have none: "err_enable r i l \<noteq> (rc, Some inst, log)" "err_scan_msi r i l \<noteq> (rc, Some inst, log)" "err_regions r i l \<noteq> (rc, Some inst, log)"
    "err_map r i l \<noteq> (rc, Some inst, log)" "err_mask r i l \<noteq> (rc, Some inst, log)" "err_engines r i l \<noteq> (rc, Some inst, log)" for r i l
    by (auto simp: err_enable_def err_scan_msi_def err_regions_def err_map_def err_mask_def err_engines_def split: prod.splits)
  have w0: "reg_writes ?l0 = []" "user_bar_idx ?i0 = -1" "bypass_bar_idx ?i0 = -1" "config_bar_idx ?i0 = -1" "bar ?i0 = replicate XDMA_BAR_NUM 0"
    using 0 by (auto simp: probe_scan_for_msi_def new_dev_inst_def Let_def split: if_splits)
  from assms 0 1 2 have r: "rc1 = 0" "rc2 = 0" "i2 = inst"
    "log = l2 @ [Iowrite32 (h2c_regs inst + 0x40) 0xFFFFFFFF, Iowrite32 (c2h_regs inst + 0x40) 0xFFFFFFFF, Misc_register 0]"
    by (auto simp: probe_def alloc_dev_instance_def request_regions_def set_dma_mask_def Let_def none split: if_splits)
  obtain r' i' l' where "map_loop env [0..<XDMA_BAR_NUM] [] 0 ?i0 ?l0 = (r', i', l')" by (cases "map_loop env [0..<XDMA_BAR_NUM] [] 0 ?i0 ?l0")
  with 1 r(1) map_loop_writes [OF this] w0(1) have "reg_writes l1 = []" by (auto simp: map_bars_def split: option.splits if_splits)
  with that [of ?l0 ?i0 i1 l1 l2] w0 1 2 r show ?thesis by simp
qed

text \<open>A successful \<open>probe\<close> starts the descriptor bypass of two engines and clears their
  status. It looks for the first host-to-card engine \<open>h\<close> and the first card-to-host engine \<open>c\<close>,
  but starts the card-to-host engine of channel \<open>h\<close> and the host-to-card engine of channel \<open>c\<close>:
  the engines found are the ones started only if both have the same channel.\<close>

theorem probe_starts_swapped_engines:
  assumes "probe env = (rc, Some inst, log)"
  shows "\<exists>h c. find (engine_found env inst True) [0..<XDMA_CHANNEL_NUM_MAX] = Some h \<and>
    find (engine_found env inst False) [0..<XDMA_CHANNEL_NUM_MAX] = Some c \<and>
    reg_writes log =
      [(engine_base inst False h + 4, 1), (engine_base inst True c + 4, 1),
       (engine_base inst False h + 0x40, 0xFFFFFFFF), (engine_base inst True c + 0x40, 0xFFFFFFFF)]"
proof -
  from assms obtain inst0 log0 inst1 log1 log2 where m: "map_bars env inst0 log0 = (0, inst1, log1)" "reg_writes log1 = []"
    and e: "probe_engines env inst1 (log1 @ [Set_dma_mask 0]) = (0, inst, log2)"
    and l: "log = log2 @ [Iowrite32 (h2c_regs inst + 0x40) 0xFFFFFFFF, Iowrite32 (c2h_regs inst + 0x40) 0xFFFFFFFF, Misc_register 0]"
    by (rule probe_success_stages)
  note pe = probe_engines_cases [OF e]
  then have cb: "config_base inst = config_base inst1" by (simp add: config_base_def)
  from cb have eb: "engine_base inst = engine_base inst1" "engine_found env inst = engine_found env inst1"
    by (auto simp: engine_base_def fun_eq_iff engine_found_def)
  from pe obtain h c where hc: "find (engine_found env inst True) [0..<XDMA_CHANNEL_NUM_MAX] = Some h"
    "find (engine_found env inst False) [0..<XDMA_CHANNEL_NUM_MAX] = Some c"
    by (auto simp: first_engine_def eb ENODEV_def split: option.splits if_splits)
  with pe l m(2) show ?thesis
    by (simp add: first_engine_def eb engine_base_def xdma_constants algebra_simps)
qed

theorem probe_starts_swapped_engines_witness:
  "\<exists>inst log. probe example_pci = (0, Some inst, log) \<and> engine_found example_pci inst True 0 \<and> engine_found example_pci inst False 1 \<and>
    reg_writes log =
      [(engine_base inst False 0 + 4, 1), (engine_base inst True 1 + 4, 1),
       (engine_base inst False 0 + 0x40, 0xFFFFFFFF), (engine_base inst True 1 + 0x40, 0xFFFFFFFF)]"
proof -
  have "\<exists>inst log. probe example_pci = (0, Some inst, log) \<and> config_base inst = 0x3000000" by (simp add: probe_eval)
  then obtain inst log where p: "probe example_pci = (0, Some inst, log)" and b: "config_base inst = 0x3000000" by blast
  have f: "find (engine_found example_pci inst True) [0..<XDMA_CHANNEL_NUM_MAX] = Some 0"
    "find (engine_found example_pci inst False) [0..<XDMA_CHANNEL_NUM_MAX] = Some 1"
    "engine_found example_pci inst True 0" "engine_found example_pci inst False 1"
    using b by (simp_all add: engine_found_def engine_base_def get_engine_id_def get_engine_channel_id_def xdma_constants six_bars example_pci_def drop_bit_eq_div)
  from probe_starts_swapped_engines [OF p] f p show ?thesis by simp
qed

definition mapped_len :: "pci_env \<Rightarrow> nat \<Rightarrow> u64" where
  "mapped_len env i = (if pci_resource_len env i > INT_MAX then INT_MAX else pci_resource_len env i)"

definition bar_ptr :: "pci_env \<Rightarrow> nat \<Rightarrow> u64" where
  "bar_ptr env i = (if pci_resource_len env i = 0 then 0 else pci_iomap env i (mapped_len env i))"

definition present_bars :: "pci_env \<Rightarrow> nat list" where
  "present_bars env = filter (\<lambda>i. pci_resource_len env i \<noteq> 0) [0..<XDMA_BAR_NUM]"

definition config_bar :: "pci_env \<Rightarrow> nat \<Rightarrow> bool" where
  "config_bar env i \<longleftrightarrow> XDMA_BAR_SIZE \<le> mapped_len env i \<and>
     ioread32 env (bar_ptr env i + 0x2000) AND 0xffff0000 = IRQ_BLOCK_ID \<and>
     ioread32 env (bar_ptr env i + 0x3000) AND 0xffff0000 = CONFIG_BLOCK_ID"

text \<open>One round of the loop on a BAR that is absent or can be mapped.\<close>

lemma map_loop_round:
  fixes log :: "kcall list"
  assumes "i < length (bar inst)" "pci_resource_len env i \<noteq> 0 \<Longrightarrow> bar_ptr env i \<noteq> 0"
  defines "inst1 \<equiv> inst\<lparr>bar := (bar inst)[i := bar_ptr env i]\<rparr>"
    and "log1 \<equiv> log @ (if pci_resource_len env i = 0 then [] else [Iomap i (mapped_len env i) (bar_ptr env i)])"
  shows "map_loop env (i # is) ids pos inst log =
    (if pci_resource_len env i = 0 then map_loop env is ids pos inst1 log1
     else if config_bar_idx inst < 0 \<and> config_bar env i
       then map_loop env is (ids @ [int i]) (length ids) (inst1\<lparr>config_bar_idx := int i\<rparr>) log1
     else map_loop env is (ids @ [int i]) pos inst1 log1)"
proof -
  have len: "pci_resource_len env i \<noteq> 0 \<Longrightarrow> unat (mapped_len env i) > 0"
    by (auto simp: mapped_len_def INT_MAX_def word_less_nat_alt unat_gt_0)
  define n where "n = int (unat (mapped_len env i))"
  define m where "m = int (unat XDMA_BAR_SIZE)"
  have sz: "m \<le> n \<longleftrightarrow> XDMA_BAR_SIZE \<le> mapped_len env i" "pci_resource_len env i \<noteq> 0 \<Longrightarrow> n > 0"
    by (simp_all only: m_def n_def word_le_nat_alt of_nat_le_iff of_nat_0_less_iff len not_False_eq_True)
  have cfg: "config_bar env i \<longleftrightarrow> XDMA_BAR_SIZE \<le> mapped_len env i \<and> is_config_bar env inst1 i"
    using assms(1) by (auto simp: config_bar_def is_config_bar_def inst1_def xdma_constants Let_def)
  have single: "map_single_bar env i inst log =
      (if pci_resource_len env i = 0 then 0 else n, inst1, log1)"
    using assms(1,2) by (simp add: map_single_bar_def Let_def inst1_def log1_def bar_ptr_def mapped_len_def n_def)
  have "config_bar_idx inst1 = config_bar_idx inst" by (simp add: inst1_def)
  then show ?thesis
    using sz by (cases "pci_resource_len env i = 0") (simp_all add: single cfg m_def [symmetric] del: of_nat_unat)
qed

lemma map_loop_no_config:
  "set is \<subseteq> {..<length (bar inst)} \<Longrightarrow> \<forall>i \<in> set is. pci_resource_len env i \<noteq> 0 \<longrightarrow> bar_ptr env i \<noteq> 0 \<Longrightarrow>
   config_bar_idx inst \<ge> 0 \<or> (\<forall>i \<in> set is. pci_resource_len env i \<noteq> 0 \<longrightarrow> \<not> config_bar env i) \<Longrightarrow>
   \<exists>b log'. map_loop env (is @ js) ids pos inst log =
     map_loop env js (ids @ map int (filter (\<lambda>i. pci_resource_len env i \<noteq> 0) is)) pos (inst\<lparr>bar := b\<rparr>) log' \<and>
     length b = length (bar inst) \<and> (\<forall>j < length b. b ! j = (if j \<in> set is then bar_ptr env j else bar inst ! j))"
proof (induction "is" arbitrary: inst ids log)
  case Nil
  then show ?case by (intro exI [of _ "bar inst"] exI [of _ log]) simp
next
  case (Cons i "is")
  let ?inst = "inst\<lparr>bar := (bar inst)[i := bar_ptr env i]\<rparr>"
    and ?log = "log @ (if pci_resource_len env i = 0 then [] else [Iomap i (mapped_len env i) (bar_ptr env i)])"
    and ?ids = "if pci_resource_len env i = 0 then ids else ids @ [int i]"
  have "map_loop env ((i # is) @ js) ids pos inst log = map_loop env (is @ js) ?ids pos ?inst ?log"
    using Cons(2-4) map_loop_round [of i inst env "is @ js" ids pos log] by auto
  moreover have "set is \<subseteq> {..<length (bar ?inst)}" "\<forall>i \<in> set is. pci_resource_len env i \<noteq> 0 \<longrightarrow> bar_ptr env i \<noteq> 0"
    "config_bar_idx ?inst \<ge> 0 \<or> (\<forall>i \<in> set is. pci_resource_len env i \<noteq> 0 \<longrightarrow> \<not> config_bar env i)"
    using Cons(2-4) by auto
  from Cons(1) [OF this, of ?ids ?log] obtain b log' where
    "map_loop env (is @ js) ?ids pos ?inst ?log =
       map_loop env js (?ids @ map int (filter (\<lambda>i. pci_resource_len env i \<noteq> 0) is)) pos (?inst\<lparr>bar := b\<rparr>) log'"
    "length b = length (bar ?inst)" "\<forall>j < length b. b ! j = (if j \<in> set is then bar_ptr env j else bar ?inst ! j)"
    by blast
  ultimately show ?case by (intro exI [of _ b] exI [of _ log']) (auto simp: nth_list_update)
qed

lemma filter_eq_appendE:
  assumes "filter P zs = us @ vs"
  obtains xs ys where "zs = xs @ ys" "filter P xs = us" "filter P ys = vs"
proof -
  have "\<exists>xs ys. zs = xs @ ys \<and> filter P xs = us \<and> filter P ys = vs"
    using assms
  proof (induction us arbitrary: zs)
    case Nil
    then show ?case by (intro exI [of _ "[]"] exI [of _ zs]) auto
  next
    case (Cons u us)
    then obtain as bs where "zs = as @ u # bs" "\<forall>a \<in> set as. \<not> P a" "P u" "filter P bs = us @ vs" by (auto simp: filter_eq_Cons_iff)
    moreover from Cons(1) [OF this(4)] obtain xs ys where "bs = xs @ ys" "filter P xs = us" "filter P ys = vs" by blast
    ultimately show ?case by (intro exI [of _ "as @ u # xs"] exI [of _ ys]) auto
  qed
  with that show ?thesis by blast
qed

text \<open>The loop over the BARs, around one of those that are present.\<close>

lemma present_bars_split:
  assumes "present_bars env = us @ c # bs"
  shows "\<exists>xs ys. [0..<XDMA_BAR_NUM] = xs @ c # ys \<and> filter (\<lambda>i. pci_resource_len env i \<noteq> 0) xs = us \<and> pci_resource_len env c \<noteq> 0 \<and>
    filter (\<lambda>i. pci_resource_len env i \<noteq> 0) ys = bs \<and> (\<forall>i. i < XDMA_BAR_NUM \<longleftrightarrow> i \<in> set xs \<union> {c} \<union> set ys)"
proof -
  let ?present = "\<lambda>i. pci_resource_len env i \<noteq> 0"
  from assms obtain xs zs where split: "[0..<XDMA_BAR_NUM] = xs @ zs" "filter ?present xs = us" "filter ?present zs = c # bs"
    unfolding present_bars_def by (rule filter_eq_appendE)
  then obtain vs ys where zs: "zs = vs @ c # ys" "\<forall>v \<in> set vs. \<not> ?present v" "?present c" "filter ?present ys = bs"
    by (auto simp: filter_eq_Cons_iff)
  have all: "[0..<XDMA_BAR_NUM] = (xs @ vs) @ c # ys" using split zs by simp
  have "\<forall>i. i < XDMA_BAR_NUM \<longleftrightarrow> i \<in> set (xs @ vs) \<union> {c} \<union> set ys"
  proof
    fix i
    have "i < XDMA_BAR_NUM \<longleftrightarrow> i \<in> set [0..<XDMA_BAR_NUM]" by simp
    also have "\<dots> \<longleftrightarrow> i \<in> set (xs @ vs) \<union> {c} \<union> set ys" unfolding all by auto
    finally show "i < XDMA_BAR_NUM \<longleftrightarrow> i \<in> set (xs @ vs) \<union> {c} \<union> set ys" .
  qed
  moreover have "filter ?present (xs @ vs) = us" using split(2) zs(2) by simp
  ultimately show ?thesis using all zs(3,4) by blast
qed

text \<open>C33. When the device has at most one BAR before and one behind the XDMA configuration BAR, all
  of them can be mapped and the first does not look like a configuration BAR, \<open>map_bars\<close> maps
  exactly the BARs that are present and takes the one before for the user logic, the one behind
  for the bypass: the rule that the comment of \<open>identify_bars\<close> states.\<close>

theorem map_bars_identifies:
  assumes "present_bars env = us @ c # bs" "length us \<le> 1" "length bs \<le> 1"
    and "\<forall>i \<in> set (present_bars env). bar_ptr env i \<noteq> 0" "config_bar env c" "\<forall>u \<in> set us. \<not> config_bar env u"
    and "bar inst = replicate XDMA_BAR_NUM 0" "config_bar_idx inst = -1" "user_bar_idx inst = -1" "bypass_bar_idx inst = -1"
  shows "\<exists>inst' log'. map_bars env inst log = (0, inst', log') \<and> config_bar_idx inst' = int c \<and>
    user_bar_idx inst' = (case us of [] \<Rightarrow> -1 | u # _ \<Rightarrow> int u) \<and> bypass_bar_idx inst' = (case bs of [] \<Rightarrow> -1 | b # _ \<Rightarrow> int b) \<and>
    bar inst' = map (bar_ptr env) [0..<XDMA_BAR_NUM]"
proof -
  let ?present = "\<lambda>i. pci_resource_len env i \<noteq> 0"
  obtain xs ys where all: "[0..<XDMA_BAR_NUM] = xs @ c # ys" and us: "filter ?present xs = us" and c: "?present c" and bs: "filter ?present ys = bs"
    and mem: "\<And>i. i < XDMA_BAR_NUM \<longleftrightarrow> i \<in> set xs \<union> {c} \<union> set ys"
    using present_bars_split [OF assms(1)] by blast
  have ptr: "i < XDMA_BAR_NUM \<Longrightarrow> ?present i \<Longrightarrow> bar_ptr env i \<noteq> 0" for i using assms(4) by (simp add: present_bars_def)
  have not_cfg: "\<forall>i \<in> set xs. ?present i \<longrightarrow> \<not> config_bar env i" using assms(6) unfolding us [symmetric] by simp
  have lb: "length (bar inst) = XDMA_BAR_NUM" using assms(7) by simp
  have "set xs \<subseteq> {..<length (bar inst)}" "\<forall>i \<in> set xs. ?present i \<longrightarrow> bar_ptr env i \<noteq> 0"
    "config_bar_idx inst \<ge> 0 \<or> (\<forall>i \<in> set xs. ?present i \<longrightarrow> \<not> config_bar env i)"
    using mem ptr not_cfg unfolding lb by blast+
  from map_loop_no_config [OF this, of "c # ys" "[]" 0 log] obtain b1 log1 where
    1: "map_loop env [0..<XDMA_BAR_NUM] [] 0 inst log = map_loop env (c # ys) (map int us) 0 (inst\<lparr>bar := b1\<rparr>) log1"
    "length b1 = XDMA_BAR_NUM" "\<forall>j < length b1. b1 ! j = (if j \<in> set xs then bar_ptr env j else bar inst ! j)"
    unfolding us lb append_Nil all [symmetric] by blast
  let ?i2 = "inst\<lparr>bar := b1[c := bar_ptr env c], config_bar_idx := int c\<rparr>"
  obtain log2 where 2: "map_loop env (c # ys) (map int us) 0 (inst\<lparr>bar := b1\<rparr>) log1 =
      map_loop env ys (map int us @ [int c]) (length us) ?i2 log2"
    using map_loop_round [of c "inst\<lparr>bar := b1\<rparr>" env ys "map int us" 0 log1] mem [of c] 1(2) ptr [of c] c assms(5,8) by auto
  have l2: "length (bar ?i2) = XDMA_BAR_NUM" using 1(2) by simp
  have "set ys \<subseteq> {..<length (bar ?i2)}" "\<forall>i \<in> set ys. ?present i \<longrightarrow> bar_ptr env i \<noteq> 0" "config_bar_idx ?i2 \<ge> 0 \<or> P" for P
    using mem ptr l2 by auto
  from map_loop_no_config [OF this, of "[]" "map int us @ [int c]" "length us" log2] obtain b3 log3 where
    3: "map_loop env ys (map int us @ [int c]) (length us) ?i2 log2 =
      (Some (map int us @ [int c] @ map int bs, length us), ?i2\<lparr>bar := b3\<rparr>, log3)"
    "length b3 = XDMA_BAR_NUM" "\<forall>j < length b3. b3 ! j = (if j \<in> set ys then bar_ptr env j else bar ?i2 ! j)"
    unfolding bs append_Nil2 map_loop.simps(1) append_assoc l2 by blast
  have "b3 = map (bar_ptr env) [0..<XDMA_BAR_NUM]"
  proof (rule nth_equalityI)
    fix j assume "j < length b3"
    with 3(2) mem have j: "j < XDMA_BAR_NUM" "j \<in> set xs \<or> j = c \<or> j \<in> set ys" by auto
    then show "b3 ! j = map (bar_ptr env) [0..<XDMA_BAR_NUM] ! j"
      using 1(2,3) 3(2,3) by (cases "j \<in> set ys"; cases "j = c") auto
  qed (simp add: 3(2))
  moreover have "map_bars env inst log = (0, identify_bars (map int us @ [int c] @ map int bs) (length us) (?i2\<lparr>bar := b3\<rparr>), log3)"
    unfolding map_bars_def 1(1) 2 3(1) by simp
  ultimately show ?thesis using assms(2,3,9,10) by (cases us; cases bs) (simp_all add: identify_bars_def Let_def)
qed

theorem map_bars_identifies_witness:
  "\<exists>inst' log'. map_bars example_pci (new_dev_inst 0) [] = (0, inst', log') \<and> config_bar_idx inst' = 2 \<and>
    user_bar_idx inst' = 0 \<and> bypass_bar_idx inst' = -1 \<and> bar inst' = [0x1000000, 0, 0x3000000, 0, 0, 0]"
proof -
  note defs = present_bars_def bar_ptr_def mapped_len_def config_bar_def INT_MAX_def example_pci_def xdma_constants six_bars
  have "\<exists>inst' log'. map_bars example_pci (new_dev_inst 0) [] = (0, inst', log') \<and> config_bar_idx inst' = int 2 \<and>
    user_bar_idx inst' = (case [0] of [] \<Rightarrow> -1 | u # _ \<Rightarrow> int u) \<and> bypass_bar_idx inst' = (case [] of [] \<Rightarrow> -1 | b # _ \<Rightarrow> int b) \<and>
    bar inst' = map (bar_ptr example_pci) [0..<XDMA_BAR_NUM]"
    by (rule map_bars_identifies) (simp_all add: defs new_dev_inst_def)
  then show ?thesis by (simp add: defs)
qed

end
