(* ===== verification/Xdma_Memory.thy ===== *)
theory Xdma_Memory
  imports Xdma_Device
begin

text \<open>
  \<^verbatim>\<open>driver/xdma_driver.c\<close> and \<^verbatim>\<open>xdma_ioctl.h\<close>, the character device: the three \<open>ioctl\<close> commands that
  pin the user's buffer and report the bus addresses of its 2 MB pages, and \<open>mmap\<close> of the registers.

  \<^item> A page of the kernel is its address; \<open>page_state\<close> holds the flags and the reference count of
    every page. What the kernel answers to one call is the record \<open>sys_env\<close>.
  \<^item> Reading an entry of the page array that does not exist or has not been filled is an error of
    the type \<open>kernel_fault\<close>: the kernel would follow a wild pointer there.
  \<^item> A bus address is what \<open>page_to_phys\<close> returns, a parameter.
  \<^item> The counters \<open>i\<close> and \<open>j\<close> are natural numbers; they stay below the number of pages.

  The lemmas show which addresses a program gets for a buffer it has set, that release gives every
  reference back, that an error of \<open>get_user_pages\<close> is taken for a number of pages, and that \<open>mmap\<close>
  never maps anything outside the user BAR.
\<close>

section \<open>Pages and kernel calls\<close>

record page_state =
  page_reserved :: "u64 \<Rightarrow> bool"
  page_dirty :: "u64 \<Rightarrow> bool"
  page_refs :: "u64 \<Rightarrow> int"

record sys_env =
  copy_from_user :: int
  vmalloc_ok :: bool
  get_user_pages :: "u64 \<Rightarrow> u64 \<Rightarrow> int \<times> u64 list"
  page_to_phys :: "u64 \<Rightarrow> u64"
  kmalloc_ok :: bool
  copy_to_user_map :: int
  copy_to_user_addr :: int

datatype kernel_fault = Null_Pointer | Uninitialised nat | Out_Of_Bounds nat | Use_After_Free

record xdma_huge =
  huge_addr :: u64
  huge_len :: u64

definition EFAULT :: int where "EFAULT = 14"
definition EACCES :: int where "EACCES = 13"
definition EINVAL :: int where "EINVAL = 22"
definition EAGAIN :: int where "EAGAIN = 11"

definition KPAGE_SIZE :: u64 where "KPAGE_SIZE = 4096"

fun read_page :: "page_array \<Rightarrow> nat \<Rightarrow> kernel_fault + u64" where
  "read_page No_Pages i = Inl Null_Pointer"
| "read_page Freed_Pages i = Inl Use_After_Free"
| "read_page (Pages ps) i =
     (if i \<ge> length ps then Inl (Out_Of_Bounds i) else case ps ! i of None \<Rightarrow> Inl (Uninitialised i) | Some p \<Rightarrow> Inr p)"

section \<open>Setting the buffer\<close>

text \<open>The loop marks the pages as reserved and counts the 2 MB pages in \<open>j\<close>.\<close>

function reserve_loop :: "page_array \<Rightarrow> nat \<Rightarrow> nat \<Rightarrow> nat \<Rightarrow> page_state \<Rightarrow> kernel_fault + nat \<times> page_state" where
  "reserve_loop arr npages i j ps =
     (if i < npages then
        (case read_page arr i of Inl e \<Rightarrow> Inl e
         | Inr p \<Rightarrow> reserve_loop arr npages (Suc i) (if i mod 512 = 0 then Suc j else j) (ps\<lparr>page_reserved := (page_reserved ps)(p := True)\<rparr>))
      else Inr (j, ps))"
  by pat_completeness auto

termination by (relation "measure (\<lambda>(arr, npages, i, j, ps). npages - i)") auto

declare reserve_loop.simps [simp del]

text \<open>\<open>get_user_pages\<close> stores the pages it has pinned into the array it is given.\<close>

definition pin_pages :: "u64 list \<Rightarrow> page_array \<Rightarrow> page_state \<Rightarrow> page_array \<times> page_state" where
  "pin_pages got arr ps =
     (case arr of
        Pages xs \<Rightarrow> (Pages (map Some got @ drop (length got) xs),
          ps\<lparr>page_refs := fold (\<lambda>p r. r(p := r p + 1)) got (page_refs ps)\<rparr>)
      | _ \<Rightarrow> (arr, ps))"

definition ioctl_do_buffer_set ::
  "sys_env \<Rightarrow> xdma_huge \<Rightarrow> 'a dev_memory_scheme \<Rightarrow> page_state \<Rightarrow> kernel_fault + int \<times> 'a dev_memory_scheme \<times> page_state" where
  "ioctl_do_buffer_set env huge inst ps =
     (if copy_from_user env \<noteq> 0 then Inr (copy_from_user env, inst, ps)
      else
        (let npages = 1 + (huge_len huge - 1) div KPAGE_SIZE;
             arr = (if vmalloc_ok env then Pages (replicate (unat npages) None) else No_Pages);
             (rc, got) = get_user_pages env (huge_addr huge) npages;
             (arr, ps) = pin_pages got arr ps;
             inst = inst\<lparr>huge_pages := arr\<rparr>
         in if rc = 0 then Inr (-1, inst, ps)
            else
              (let npages = of_int rc :: u64 in
               case reserve_loop arr (unat npages) 0 0 ps of Inl e \<Rightarrow> Inl e
               | Inr (j, ps) \<Rightarrow>
                   Inr (0, inst\<lparr>huge_user_addr := huge_addr huge, huge_size := npages * 4096, huge_npages := npages, huge_hnpages := of_nat j\<rparr>, ps))))"

section \<open>Reporting the mapping\<close>

text \<open>An \<open>unsigned long\<close> assigned to an \<open>int\<close>.\<close>

definition to_int :: "u64 \<Rightarrow> int" where
  "to_int w = sint (ucast w :: u32)"

text \<open>The loop fills \<open>dma_addr\<close>, which has \<open>room\<close> entries; the list holds the entries filled.\<close>

function gather_loop :: "(u64 \<Rightarrow> u64) \<Rightarrow> page_array \<Rightarrow> bool \<Rightarrow> nat \<Rightarrow> nat \<Rightarrow> nat \<Rightarrow> u64 list \<Rightarrow> kernel_fault + u64 list" where
  "gather_loop phys arr ok room npages i dma_addr =
     (if i < npages then
        (if i mod 512 = 0 then
           (case read_page arr i of Inl e \<Rightarrow> Inl e
            | Inr p \<Rightarrow> if \<not> ok then Inl Null_Pointer
                else if length dma_addr \<ge> room then Inl (Out_Of_Bounds (length dma_addr))
                else gather_loop phys arr ok room npages (Suc i) (dma_addr @ [phys p]))
         else gather_loop phys arr ok room npages (Suc i) dma_addr)
      else Inr dma_addr)"
  by pat_completeness auto

termination by (relation "measure (\<lambda>(phys, arr, ok, room, npages, i, d). npages - i)") auto

declare gather_loop.simps [simp del]

text \<open>The result is the return code, the \<open>npages\<close> and the addresses written to the program.\<close>

definition ioctl_do_mapping_get ::
  "sys_env \<Rightarrow> u64 \<Rightarrow> 'a dev_memory_scheme \<Rightarrow> kernel_fault + int \<times> u64 option \<times> u64 list" where
  "ioctl_do_mapping_get env map_npages inst =
     (if copy_from_user env \<noteq> 0 then Inr (copy_from_user env, None, [])
      else if map_npages < huge_hnpages inst then Inr (- EFAULT, None, [])
      else
        (let map_npages = huge_hnpages inst; npages = to_int (huge_npages inst) in
         case gather_loop (page_to_phys env) (huge_pages inst) (kmalloc_ok env) (unat map_npages) (nat npages) 0 [] of Inl e \<Rightarrow> Inl e
         | Inr dma_addr \<Rightarrow>
             if copy_to_user_map env \<noteq> 0 then Inr (- EACCES, None, [])
             else if copy_to_user_addr env \<noteq> 0 then Inr (- EACCES, Some map_npages, [])
             else Inr (0, Some map_npages, dma_addr)))"

section \<open>Releasing the buffer\<close>

function release_loop :: "page_array \<Rightarrow> nat \<Rightarrow> nat \<Rightarrow> page_state \<Rightarrow> kernel_fault + page_state" where
  "release_loop arr npages i ps =
     (if i < npages then
        (case read_page arr i of Inl e \<Rightarrow> Inl e
         | Inr pg \<Rightarrow>
             (let ps = (if \<not> page_reserved ps pg then ps\<lparr>page_dirty := (page_dirty ps)(pg := True)\<rparr> else ps);
                  ps = ps\<lparr>page_refs := (page_refs ps)(pg := page_refs ps pg - 1)\<rparr>
              in release_loop arr npages (Suc i) ps))
      else Inr ps)"
  by pat_completeness auto

termination by (relation "measure (\<lambda>(arr, npages, i, ps). npages - i)") auto

declare release_loop.simps [simp del]

definition ioctl_release_mapping :: "'a dev_memory_scheme \<Rightarrow> page_state \<Rightarrow> kernel_fault + int \<times> 'a dev_memory_scheme \<times> page_state" where
  "ioctl_release_mapping inst ps =
     (let npages = to_int (huge_npages inst) in
      case release_loop (huge_pages inst) (nat npages) 0 ps of Inl e \<Rightarrow> Inl e
      | Inr ps \<Rightarrow> (case huge_pages inst of
            Freed_Pages \<Rightarrow> Inl Use_After_Free
          | No_Pages \<Rightarrow> Inr (0, inst, ps)
          | Pages _ \<Rightarrow> Inr (0, inst\<lparr>huge_pages := Freed_Pages\<rparr>, ps)))"

datatype xdma_cmd = IOCTL_XDMA_BUFFER_SET xdma_huge | IOCTL_XDMA_MAPPING_GET u64 | IOCTL_XDMA_RELEASE | Invalid_Cmd

definition char_xdma_ioctl ::
  "sys_env \<Rightarrow> xdma_cmd \<Rightarrow> 'a dev_memory_scheme \<Rightarrow> page_state \<Rightarrow>
   kernel_fault + int \<times> (u64 option \<times> u64 list) \<times> 'a dev_memory_scheme \<times> page_state" where
  "char_xdma_ioctl env cmd inst ps =
     (case cmd of
        IOCTL_XDMA_BUFFER_SET huge \<Rightarrow>
          (case ioctl_do_buffer_set env huge inst ps of Inl e \<Rightarrow> Inl e | Inr (rc, inst, ps) \<Rightarrow> Inr (rc, (None, []), inst, ps))
      | IOCTL_XDMA_MAPPING_GET n \<Rightarrow>
          (case ioctl_do_mapping_get env n inst of Inl e \<Rightarrow> Inl e | Inr (rc, out) \<Rightarrow> Inr (rc, out, inst, ps))
      | IOCTL_XDMA_RELEASE \<Rightarrow>
          (case ioctl_release_mapping inst ps of Inl e \<Rightarrow> Inl e | Inr (rc, inst, ps) \<Rightarrow> Inr (rc, (None, []), inst, ps))
      | Invalid_Cmd \<Rightarrow> Inr (0, (None, []), inst, ps))"

section \<open>Opening and mapping the device\<close>

text \<open>\<open>container_of\<close> subtracts the offset of \<open>cdev\<close> in \<open>dev_inst\<close> from the pointer in the inode.\<close>

definition xdma_open :: "u64 \<Rightarrow> u64 \<Rightarrow> int \<times> u64" where
  "xdma_open cdev_offset i_cdev = (0, i_cdev - cdev_offset)"

definition xdma_release :: int where "xdma_release = 0"

record vm_area =
  vm_start :: u64
  vm_end :: u64
  vm_pgoff :: u64
  vm_noncached :: bool
  vm_io :: bool

record remap =
  remap_virt :: u64
  remap_pfn :: u64
  remap_size :: u64

datatype mmap_error = No_Driver_Data | No_User_Bar

text \<open>The resource of the user BAR is a parameter. The result is the return code, the area, and the
  mapping requested from \<open>io_remap_pfn_range\<close> with return code \<open>remap_rc\<close>.\<close>

definition xdma_mmap ::
  "(int \<Rightarrow> u64) \<Rightarrow> (int \<Rightarrow> u64) \<Rightarrow> int \<Rightarrow> dev_inst option \<Rightarrow> vm_area \<Rightarrow> mmap_error + int \<times> vm_area \<times> remap option" where
  "xdma_mmap resource_start resource_len remap_rc drvdata vma =
     (case drvdata of None \<Rightarrow> Inl No_Driver_Data
      | Some inst \<Rightarrow>
         if user_bar_idx inst < 0 then Inl No_User_Bar
         else
           (let vsize = vm_end vma - vm_start vma;
                phys = resource_start (user_bar_idx inst);
                psize = resource_len (user_bar_idx inst)
            in if vsize > psize then Inr (- EINVAL, vma, None)
               else
                 (let vma = vma\<lparr>vm_noncached := True, vm_io := True\<rparr>;
                      m = \<lparr>remap_virt = vm_start vma, remap_pfn = drop_bit 12 phys, remap_size = vsize\<rparr>
                  in if remap_rc \<noteq> 0 then Inr (- EAGAIN, vma, Some m) else Inr (0, vma, Some m))))"

section \<open>The loops on a pinned buffer\<close>

text \<open>The number of 2 MB pages that \<open>n\<close> pages of 4 KB begin.\<close>

definition huge_count :: "nat \<Rightarrow> nat" where
  "huge_count n = (n + 511) div 512"

lemma huge_count_div: "huge_count i = i div 512 + (if i mod 512 = 0 then 0 else 1)"
proof -
  define r where "r = i mod 512"
  have "r < 512" by (simp add: r_def)
  then have "(r + 511) div 512 = (if r = 0 then 0 else 1)" by (auto intro: div_nat_eqI)
  then show ?thesis by (simp add: huge_count_def div_add1_eq [of i] flip: r_def)
qed

lemma huge_count_Suc: "huge_count (Suc i) = (if i mod 512 = 0 then Suc (huge_count i) else huge_count i)"
proof -
  have "huge_count (Suc i) = Suc (i div 512)" by (simp add: huge_count_def)
  then show ?thesis by (simp add: huge_count_div)
qed

lemma huge_count_mult: "i mod 512 = 0 \<Longrightarrow> 512 * huge_count i = i"
  by (auto simp: huge_count_div)

lemma huge_count_mono: "i \<le> n \<Longrightarrow> huge_count i \<le> huge_count n"
  by (simp add: huge_count_def div_le_mono)

lemma huge_count_0 [simp]: "huge_count 0 = 0"
  by (simp add: huge_count_def)

lemma read_pinned: "i < length got \<Longrightarrow> read_page (Pages (map Some got @ rest)) i = Inr (got ! i)"
  by (simp add: nth_append)

lemmas pinned_simps = read_pinned Cons_nth_drop_Suc [symmetric]

lemma reserve_loop_pinned:
  "i \<le> length got \<Longrightarrow> reserve_loop (Pages (map Some got @ rest)) (length got) i (huge_count i) ps =
   Inr (huge_count (length got), ps\<lparr>page_reserved := (\<lambda>p. page_reserved ps p \<or> p \<in> set (drop i got))\<rparr>)"
proof (induction "length got - i" arbitrary: i ps)
  case 0
  then show ?case by (subst reserve_loop.simps) simp
next
  case (Suc k)
  then have i: "i < length got" "k = length got - Suc i" "Suc i \<le> length got" by auto
  have "(\<lambda>p. ((page_reserved ps)(got ! i := True)) p \<or> p \<in> set (drop (Suc i) got)) = (\<lambda>p. page_reserved ps p \<or> p \<in> set (drop i got))"
    using i(1) by (auto simp: Cons_nth_drop_Suc [symmetric])
  with Suc(1) [OF i(2,3), of "ps\<lparr>page_reserved := (page_reserved ps)(got ! i := True)\<rparr>"] i(1) show ?case
    by (subst reserve_loop.simps) (simp add: read_pinned huge_count_Suc del: read_page.simps)
qed

lemma gather_loop_pinned:
  "i \<le> length got \<Longrightarrow> huge_count (length got) \<le> room \<Longrightarrow>
   gather_loop phys (Pages (map Some got @ rest)) True room (length got) i (map (\<lambda>k. phys (got ! (512 * k))) [0..<huge_count i]) =
   Inr (map (\<lambda>k. phys (got ! (512 * k))) [0..<huge_count (length got)])"
proof (induction "length got - i" arbitrary: i)
  case 0
  then show ?case by (subst gather_loop.simps) simp
next
  case (Suc k)
  then have i: "i < length got" "k = length got - Suc i" "Suc i \<le> length got" by auto
  have "i mod 512 = 0 \<Longrightarrow> huge_count i < room"
    using huge_count_mono [OF i(3)] Suc(4) by (simp add: huge_count_Suc)
  with Suc(1) [OF i(2,3) Suc(4)] i(1) show ?case
    by (subst gather_loop.simps) (simp add: read_pinned huge_count_Suc huge_count_mult del: read_page.simps split: if_splits)
qed

lemma fold_refs: "fold (\<lambda>p r. r(p := r p + c)) got r = (\<lambda>p. r p + c * int (count_list got p))"
  by (induction got arbitrary: r) (auto simp: fun_eq_iff algebra_simps)

lemma release_loop_pinned:
  "i \<le> length got \<Longrightarrow> \<forall>p \<in> set got. page_reserved ps p \<Longrightarrow>
   release_loop (Pages (map Some got @ rest)) (length got) i ps =
   Inr (ps\<lparr>page_refs := fold (\<lambda>p r. r(p := r p + -1)) (drop i got) (page_refs ps)\<rparr>)"
proof (induction "length got - i" arbitrary: i ps)
  case 0
  then show ?case by (subst release_loop.simps) simp
next
  case (Suc k)
  then have i: "i < length got" "k = length got - Suc i" "Suc i \<le> length got" by auto
  from Suc(1) [OF i(2,3), of "ps\<lparr>page_refs := (page_refs ps)(got ! i := page_refs ps (got ! i) - 1)\<rparr>"] i(1) Suc(4) show ?case
    by (subst release_loop.simps) (simp add: pinned_simps del: read_page.simps)
qed

section \<open>Commands on a pinned buffer\<close>

text \<open>The kernel has pinned the pages \<open>got\<close>, at least one and not more than were asked for.\<close>

definition pins :: "sys_env \<Rightarrow> xdma_huge \<Rightarrow> u64 list \<Rightarrow> bool" where
  "pins env huge got \<longleftrightarrow> copy_from_user env = 0 \<and> vmalloc_ok env \<and>
     get_user_pages env (huge_addr huge) (1 + (huge_len huge - 1) div KPAGE_SIZE) = (int (length got), got) \<and>
     got \<noteq> [] \<and> length got \<le> unat (1 + (huge_len huge - 1) div KPAGE_SIZE) \<and> length got < 2 ^ 31"

definition reports :: "sys_env \<Rightarrow> bool" where
  "reports env \<longleftrightarrow> copy_from_user env = 0 \<and> kmalloc_ok env \<and> copy_to_user_map env = 0 \<and> copy_to_user_addr env = 0"

definition set_buffer :: "xdma_huge \<Rightarrow> u64 list \<Rightarrow> u64 option list \<Rightarrow> 'a dev_memory_scheme \<Rightarrow> 'a dev_memory_scheme" where
  "set_buffer huge got rest inst =
     inst\<lparr>huge_pages := Pages (map Some got @ rest), huge_user_addr := huge_addr huge, huge_size := of_nat (length got) * 4096,
       huge_npages := of_nat (length got), huge_hnpages := of_nat (huge_count (length got))\<rparr>"

lemma small_lengths:
  assumes "length got < 2 ^ 31"
  shows "unat (of_nat (length got) :: u64) = length got" "to_int (of_nat (length got)) = int (length got)"
    "unat (of_nat (huge_count (length got)) :: u64) = huge_count (length got)"
proof -
  show n: "unat (of_nat (length got) :: u64) = length got" using assms by (simp add: unat_of_nat)
  have "huge_count (length got) \<le> length got + 511" by (simp add: huge_count_def)
  then show "unat (of_nat (huge_count (length got)) :: u64) = huge_count (length got)" using assms by (simp add: unat_of_nat)
  have "sint (of_nat (length got) :: u32) = int (length got)"
    using assms by (simp add: sint_uint uint_nat unat_of_nat signed_take_bit_int_eq_self del: of_nat_unat)
  moreover have "(ucast (of_nat (length got) :: u64) :: u32) = of_nat (length got)"
    using assms by (simp add: word_unat_eq_iff unat_ucast_mod unat_of_nat)
  ultimately show "to_int (of_nat (length got)) = int (length got)" by (simp only: to_int_def)
qed

lemma buffer_set_pins:
  assumes "pins env huge got"
  shows "\<exists>rest. ioctl_do_buffer_set env huge inst ps =
    Inr (0, set_buffer huge got rest inst,
      ps\<lparr>page_refs := (\<lambda>p. page_refs ps p + int (count_list got p)), page_reserved := (\<lambda>p. page_reserved ps p \<or> p \<in> set got)\<rparr>)"
proof -
  from assms have len: "length got < 2 ^ 31" "got \<noteq> []" by (simp_all add: pins_def)
  have "unat (of_int (int (length got)) :: u64) = length got" using small_lengths(1) [OF len(1)] by simp
  with assms len reserve_loop_pinned [of 0 got "drop (length got) (replicate (unat (1 + (huge_len huge - 1) div KPAGE_SIZE)) None)"
      "ps\<lparr>page_refs := (\<lambda>p. page_refs ps p + int (count_list got p))\<rparr>"]
  show ?thesis
    by (intro exI [of _ "drop (length got) (replicate (unat (1 + (huge_len huge - 1) div KPAGE_SIZE)) None)"])
       (simp add: ioctl_do_buffer_set_def pins_def pin_pages_def fold_refs [where c = 1, simplified] set_buffer_def Let_def del: drop_replicate)
qed

lemma mapping_of_pinned:
  assumes "pins env huge got" "reports env'" "huge_count (length got) \<le> unat n"
  shows "\<exists>inst' ps'. char_xdma_ioctl env (IOCTL_XDMA_BUFFER_SET huge) inst ps = Inr (0, (None, []), inst', ps') \<and>
    char_xdma_ioctl env' (IOCTL_XDMA_MAPPING_GET n) inst' ps' =
      Inr (0, (Some (of_nat (huge_count (length got))), map (\<lambda>k. page_to_phys env' (got ! (512 * k))) [0..<huge_count (length got)]), inst', ps')"
proof -
  from assms(1) have len: "length got < 2 ^ 31" by (simp add: pins_def)
  from buffer_set_pins [OF assms(1), of inst ps] obtain rest ps' where
    set: "ioctl_do_buffer_set env huge inst ps = Inr (0, set_buffer huge got rest inst, ps')" by blast
  have le: "\<not> n < of_nat (huge_count (length got))" using assms(3) small_lengths(3) [OF len] by (simp add: word_less_nat_alt not_less)
  have "ioctl_do_mapping_get env' n (set_buffer huge got rest inst) =
      Inr (0, Some (of_nat (huge_count (length got))), map (\<lambda>k. page_to_phys env' (got ! (512 * k))) [0..<huge_count (length got)])"
    using assms(2) le gather_loop_pinned [of 0 got "huge_count (length got)" "page_to_phys env'" rest]
    by (simp add: ioctl_do_mapping_get_def reports_def set_buffer_def Let_def small_lengths [OF len])
  with set show ?thesis by (auto simp: char_xdma_ioctl_def)
qed

text \<open>C20. A program that sets a buffer and then asks for its mapping gets the bus addresses of the
  first 4 KB page of every 2 MB page of the buffer, in order, and their number.\<close>

theorem mapping_of_buffer:
  assumes "pins env huge got" "reports env'" "huge_count (length got) \<le> unat n"
  shows "\<exists>inst' ps'. char_xdma_ioctl env (IOCTL_XDMA_BUFFER_SET huge) inst ps = Inr (0, (None, []), inst', ps') \<and>
    char_xdma_ioctl env' (IOCTL_XDMA_MAPPING_GET n) inst' ps' =
      Inr (0, (Some (of_nat (huge_count (length got))), map (\<lambda>k. page_to_phys env' (got ! (512 * k))) [0..<huge_count (length got)]), inst', ps')"
  using assms by (rule mapping_of_pinned)

definition example_sys :: sys_env where
  "example_sys = \<lparr>copy_from_user = 0, vmalloc_ok = True, get_user_pages = (\<lambda>a n. (2, [0x77, 0x88])), page_to_phys = (\<lambda>p. p * 0x1000),
     kmalloc_ok = True, copy_to_user_map = 0, copy_to_user_addr = 0\<rparr>"

definition example_inst :: dev_memory where
  "example_inst = \<lparr>huge_user_addr = 0, huge_size = 0, huge_npages = 0, huge_hnpages = 0, huge_pages = No_Pages\<rparr>"

definition example_pages :: page_state where
  "example_pages = \<lparr>page_reserved = (\<lambda>_. False), page_dirty = (\<lambda>_. False), page_refs = (\<lambda>_. 1)\<rparr>"

lemma example_pins: "pins example_sys \<lparr>huge_addr = 0x200000, huge_len = 0x2000\<rparr> [0x77, 0x88]"
  by (simp add: pins_def example_sys_def KPAGE_SIZE_def)

theorem mapping_of_buffer_witness:
  "\<exists>inst' ps'. char_xdma_ioctl example_sys (IOCTL_XDMA_BUFFER_SET \<lparr>huge_addr = 0x200000, huge_len = 0x2000\<rparr>) example_inst example_pages =
      Inr (0, (None, []), inst', ps') \<and>
    char_xdma_ioctl example_sys (IOCTL_XDMA_MAPPING_GET 1024) inst' ps' = Inr (0, (Some 1, [0x77000]), inst', ps')"
  using mapping_of_buffer [OF example_pins, of example_sys 1024 example_inst example_pages]
  by (simp add: reports_def huge_count_def) (simp add: example_sys_def)

text \<open>C40. Releasing a buffer gives back every reference taken when it was set and frees the array of
  pages. The pages stay reserved and, because they are, none is marked dirty, although the device
  may have written to all of them. A second release uses the freed array.\<close>

theorem release_after_set:
  assumes "pins env huge got"
  shows "\<exists>inst' ps' inst'' ps''. char_xdma_ioctl env (IOCTL_XDMA_BUFFER_SET huge) inst ps = Inr (0, (None, []), inst', ps') \<and>
    char_xdma_ioctl env' IOCTL_XDMA_RELEASE inst' ps' = Inr (0, (None, []), inst'', ps'') \<and>
    page_refs ps'' = page_refs ps \<and> page_dirty ps'' = page_dirty ps \<and>
    page_reserved ps'' = (\<lambda>p. page_reserved ps p \<or> p \<in> set got) \<and> huge_pages inst'' = Freed_Pages \<and>
    char_xdma_ioctl env' IOCTL_XDMA_RELEASE inst'' ps'' = Inl Use_After_Free"
proof -
  from assms have len: "length got < 2 ^ 31" "got \<noteq> []" by (simp_all add: pins_def)
  let ?ps = "ps\<lparr>page_refs := (\<lambda>p. page_refs ps p + int (count_list got p)), page_reserved := (\<lambda>p. page_reserved ps p \<or> p \<in> set got)\<rparr>"
  from buffer_set_pins [OF assms, of inst ps] obtain rest where
    set: "ioctl_do_buffer_set env huge inst ps = Inr (0, set_buffer huge got rest inst, ?ps)" by blast
  let ?inst = "set_buffer huge got rest inst"
  have "ioctl_release_mapping ?inst ?ps = Inr (0, ?inst\<lparr>huge_pages := Freed_Pages\<rparr>, ?ps\<lparr>page_refs := page_refs ps\<rparr>)"
    using release_loop_pinned [of 0 got ?ps rest]
    by (simp add: ioctl_release_mapping_def set_buffer_def Let_def small_lengths [OF len(1)] fold_refs [where c = "-1", simplified])
  moreover have "ioctl_release_mapping (?inst\<lparr>huge_pages := Freed_Pages\<rparr>) ps' = Inl Use_After_Free" for ps'
    using len(2) by (simp add: ioctl_release_mapping_def set_buffer_def Let_def small_lengths [OF len(1)] release_loop.simps)
  ultimately show ?thesis using set by (simp add: char_xdma_ioctl_def)
qed

theorem release_after_set_witness:
  "\<exists>inst' ps' inst'' ps''. char_xdma_ioctl example_sys (IOCTL_XDMA_BUFFER_SET \<lparr>huge_addr = 0x200000, huge_len = 0x2000\<rparr>) example_inst example_pages =
      Inr (0, (None, []), inst', ps') \<and>
    char_xdma_ioctl example_sys IOCTL_XDMA_RELEASE inst' ps' = Inr (0, (None, []), inst'', ps'') \<and>
    page_refs ps'' 0x77 = 1 \<and> \<not> page_dirty ps'' 0x77 \<and> page_reserved ps'' 0x77"
  using release_after_set [OF example_pins, of example_inst example_pages example_sys]
  by (fastforce simp: example_pages_def)

text \<open>When \<open>get_user_pages\<close> fails with an error code, which is negative, the code is taken for a
  huge number of pages and the loop follows the first entry of an array nobody has filled.\<close>

theorem buffer_set_ignores_errors:
  assumes "copy_from_user env = 0" "vmalloc_ok env" "get_user_pages env (huge_addr huge) (1 + (huge_len huge - 1) div KPAGE_SIZE) = (rc, [])"
    and "- (2 ^ 31) \<le> rc" "rc < 0" "1 + (huge_len huge - 1) div KPAGE_SIZE \<noteq> 0"
  shows "ioctl_do_buffer_set env huge inst ps = Inl (Uninitialised 0)"
proof -
  have "(of_int rc :: u64) \<noteq> 0"
  proof
    assume "(of_int rc :: u64) = 0"
    then have "2 ^ 64 dvd rc" by (simp add: word_of_int_eq_0_iff)
    with assms(4,5) dvd_imp_le_int [of rc "2 ^ 64"] show False by simp
  qed
  then have "0 < unat (of_int rc :: u64)" by (simp add: unat_gt_0)
  moreover have "0 < unat (1 + (huge_len huge - 1) div KPAGE_SIZE)" using assms(6) by (simp add: unat_gt_0)
  ultimately show ?thesis using assms
    by (simp add: ioctl_do_buffer_set_def pin_pages_def Let_def reserve_loop.simps)
qed

theorem buffer_set_ignores_errors_witness:
  "ioctl_do_buffer_set (example_sys\<lparr>get_user_pages := (\<lambda>a n. (-14, []))\<rparr>) \<lparr>huge_addr = 0x200000, huge_len = 0x2000\<rparr> example_inst example_pages =
     Inl (Uninitialised 0)"
  by (rule buffer_set_ignores_errors [where rc = "-14"]) (simp_all add: example_sys_def KPAGE_SIZE_def)

text \<open>\<open>mmap\<close> of the control device, with a BAR that starts on a page boundary as BARs do, maps the
  area from its start to the start of the user BAR, uncached, never more than the BAR, and refuses
  a larger area. The page offset that the program passes makes no difference.\<close>

theorem mmap_within_user_bar:
  assumes "xdma_mmap start len rc (Some inst) vma = Inr (r, vma', Some m)" "take_bit 12 (start (user_bar_idx inst)) = 0"
  shows "remap_virt m = vm_start vma \<and> push_bit 12 (remap_pfn m) = start (user_bar_idx inst) \<and> remap_size m = vm_end vma - vm_start vma \<and>
    remap_size m \<le> len (user_bar_idx inst) \<and> vm_noncached vma' \<and> (r = 0 \<longleftrightarrow> rc = 0) \<and>
    xdma_mmap start len rc (Some inst) (vma\<lparr>vm_pgoff := off\<rparr>) = Inr (r, vma'\<lparr>vm_pgoff := off\<rparr>, Some m)"
proof -
  have "push_bit 12 (drop_bit 12 p) = p" if "take_bit 12 p = 0" for p :: u64
    using that bits_ident [of 12 p] by simp
  with assms show ?thesis by (auto simp: xdma_mmap_def Let_def EAGAIN_def EINVAL_def split: if_splits)
qed

theorem mmap_within_user_bar_witness:
  "\<exists>vma' m. xdma_mmap (\<lambda>_. 0xF0000000) (\<lambda>_. 0x10000) 0 (Some (new_dev_inst 0\<lparr>user_bar_idx := 0\<rparr>))
      \<lparr>vm_start = 0x7000, vm_end = 0xF000, vm_pgoff = 0, vm_noncached = False, vm_io = False\<rparr> = Inr (0, vma', Some m) \<and>
    remap_virt m = 0x7000 \<and> push_bit 12 (remap_pfn m) = 0xF0000000 \<and> remap_size m = 0x8000 \<and>
    xdma_mmap (\<lambda>_. 0xF0000000) (\<lambda>_. 0x10000) 0 (Some (new_dev_inst 0\<lparr>user_bar_idx := 0\<rparr>))
      \<lparr>vm_start = 0x7000, vm_end = 0xF000, vm_pgoff = 4, vm_noncached = False, vm_io = False\<rparr> = Inr (0, vma'\<lparr>vm_pgoff := 4\<rparr>, Some m)"
proof -
  let ?vma = "\<lparr>vm_start = 0x7000, vm_end = 0xF000, vm_pgoff = 0, vm_noncached = False, vm_io = False\<rparr>"
    and ?inst = "new_dev_inst 0\<lparr>user_bar_idx := 0\<rparr>"
  have "\<exists>vma' m. xdma_mmap (\<lambda>_. 0xF0000000) (\<lambda>_. 0x10000) 0 (Some ?inst) ?vma = Inr (0, vma', Some m)"
    by (simp add: xdma_mmap_def)
  then obtain vma' m where m: "xdma_mmap (\<lambda>_. 0xF0000000) (\<lambda>_. 0x10000) 0 (Some ?inst) ?vma = Inr (0, vma', Some m)" by blast
  from mmap_within_user_bar [OF m, of 4] m show ?thesis by (auto simp: take_bit_eq_mod)
qed

end
