(* ===== verification/Fpga.thy ===== *)
theory Fpga
  imports Fpga_Controller Memory_Manager Xdma_Memory
begin

text \<open>
  \<^verbatim>\<open>sw/src/fpga/Fpga.h\<close>, \<^verbatim>\<open>Fpga.cpp\<close> and \<^verbatim>\<open>Configuration.h\<close>, the set-up of the host program, and the two
  programs \<^verbatim>\<open>sw/src/main.cpp\<close> and \<^verbatim>\<open>sw/src/debug.cpp\<close>.

  \<^item> The static members of \<open>Fpga\<close> are the record \<open>fpga_static\<close>. A pointer is null, points to an object,
    or dangles because the object has been deleted.
  \<^item> The operating system is a parameter, the record \<open>os_env\<close> of what it answers, with a state
    that the two \<open>ioctl\<close> commands change; \<open>ioctl\<close> returns -1 for every error.
  \<^item> \<open>exit(1)\<close>, a call through a null or dangling pointer, a double delete, an access through a failed
    mapping and an index outside an array are errors of the type \<open>host_error\<close>.
  \<^item> A function that does not return what it should yields the argument \<open>garbage\<close> to its caller.
  \<^item> Console output other than the registers, and the floating-point throughput, are left out. Boost's
    options are a record of the values given.

  The lemmas show what the set-up leaves in the static members and sends to the device on every
  path, that a second life after \<open>clear\<close> uses a deleted controller, that the eight-way choice of the
  benchmark program is one call, and that its option for the clock period always throws.
\<close>

section \<open>Configuration\<close>

definition HUGE_PAGE_SIZE :: u64 where "HUGE_PAGE_SIZE = 2*1024*1024"
definition NUM_HUGE_PAGES :: u64 where "NUM_HUGE_PAGES = 1024"
definition DMA_SIZE :: u64 where "DMA_SIZE = NUM_HUGE_PAGES * HUGE_PAGE_SIZE"

lemmas configuration = HUGE_PAGE_SIZE_def NUM_HUGE_PAGES_def DMA_SIZE_def

section \<open>Static members and environment\<close>

datatype 'a pointer = Null | Live 'a | Dangling

record fpga_static =
  controller :: "u64 pointer"
  mm_ptr :: "memoryManager pointer"
  nodeId :: int
  fd :: int
  hfd :: int
  huge_base :: u64

definition fpga_static_init :: fpga_static where
  "fpga_static_init = \<lparr>controller = Null, mm_ptr = Null, nodeId = 0, fd = 0, hfd = 0, huge_base = 0\<rparr>"

record 'o os_env =
  os_open_huge :: int
  os_mmap_huge :: u64
  os_open_dev :: int
  os_mmap_ctrl :: u64
  os_ioctl_set :: "xdma_huge \<Rightarrow> 'o \<Rightarrow> int \<times> 'o"
  os_calloc_ok :: bool
  os_ioctl_get :: "u64 \<Rightarrow> 'o \<Rightarrow> (int \<times> u64 option \<times> u64 list) \<times> 'o"

datatype host_error = Exit int | Null_Access | Deleted_Access | Double_Delete | Failed_Mapping | Array_Index u64 | Bad_Any_Cast
  | Controller_Error ctrl_error

definition MAP_FAILED :: u64 where "MAP_FAILED = -1"

definition setNodeId :: "int \<Rightarrow> fpga_static \<Rightarrow> fpga_static" where
  "setNodeId n st = st\<lparr>nodeId := n\<rparr>"

definition getController :: "fpga_static \<Rightarrow> u64 pointer" where
  "getController st = controller st"

text \<open>The constructor keeps the result of \<open>mmap\<close> without a check; a member function works on the
  mapped device.\<close>

definition new_controller :: "'o os_env \<Rightarrow> u64 pointer" where
  "new_controller os = Live (os_mmap_ctrl os)"

definition with_controller :: "u64 pointer \<Rightarrow> 'r \<Rightarrow> host_error + 'r" where
  "with_controller p r =
     (case p of Null \<Rightarrow> Inl Null_Access | Dangling \<Rightarrow> Inl Deleted_Access
      | Live m_base \<Rightarrow> if m_base = MAP_FAILED then Inl Failed_Mapping else Inr r)"

section \<open>Set-up and clean-up\<close>

text \<open>The array from \<open>calloc\<close> with what the driver has copied into it.\<close>

definition dma_addresses :: "u64 \<Rightarrow> u64 list \<Rightarrow> u64 list" where
  "dma_addresses npages written = written @ drop (length written) (replicate (unat npages) 0)"

text \<open>The loop over the pages.\<close>

definition write_mappings :: "'d device \<Rightarrow> u64 pointer \<Rightarrow> u64 \<Rightarrow> u64 \<Rightarrow> u64 list \<Rightarrow> 'd \<Rightarrow> host_error + 'd" where
  "write_mappings dev p vaddr npages addrs d =
     (if npages = 0 then Inr d
      else if unat npages > length addrs then Inl (Array_Index npages)
      else with_controller p (writeTlb_pages dev vaddr True (take (unat npages) addrs) d))"

definition initializeMemory ::
  "'o os_env \<Rightarrow> 'd device \<Rightarrow> fpga_static \<Rightarrow> memory \<Rightarrow> 'o \<Rightarrow> 'd \<Rightarrow> host_error + fpga_static \<times> memory \<times> 'o \<times> 'd" where
  "initializeMemory os dev st mem q d =
     (let st = st\<lparr>hfd := os_open_huge os\<rparr> in
      if hfd st = -1 then Inl (Exit 1) else
      let st = st\<lparr>huge_base := os_mmap_huge os\<rparr> in
      if huge_base st = -1 then Inl (Exit 1) else
      let st = st\<lparr>fd := os_open_dev os\<rparr> in
      if fd st = -1 then Inl (Exit 1) else
      let st = (if controller st = Null then st\<lparr>controller := new_controller os\<rparr> else st);
          huge = \<lparr>huge_addr = huge_base st, huge_len = DMA_SIZE\<rparr>;
          (rc, q) = os_ioctl_set os huge q;
          npages = huge_len huge div (2 * 1024 * 1024);
          ((rc, npages', written), q) = os_ioctl_get os npages q;
          addrs = (if os_calloc_ok os then dma_addresses npages written else []);
          npages = (case npages' of None \<Rightarrow> npages | Some n \<Rightarrow> n)
      in case write_mappings dev (controller st) (huge_base st) npages addrs d of
           Inl e \<Rightarrow> Inl e
         | Inr d \<Rightarrow> (case mm_construct (huge_addr huge) (huge_len huge) mem of (m, mem) \<Rightarrow> Inr (st\<lparr>mm_ptr := Live m\<rparr>, mem, q, d)))"

fun delete :: "'a pointer \<Rightarrow> host_error + 'a pointer" where
  "delete Null = Inr Null"
| "delete (Live x) = Inr Dangling"
| "delete Dangling = Inl Double_Delete"

definition clear :: "fpga_static \<Rightarrow> host_error + fpga_static" where
  "clear st =
     (case delete (controller st) of Inl e \<Rightarrow> Inl e
      | Inr c \<Rightarrow> (case delete (mm_ptr st) of Inl e \<Rightarrow> Inl e | Inr m \<Rightarrow> Inr (st\<lparr>controller := c, mm_ptr := m\<rparr>)))"

definition fpga_allocate :: "u64 \<Rightarrow> (nat \<Rightarrow> bool) \<Rightarrow> u64 \<Rightarrow> fpga_static \<Rightarrow> host_error + u64 \<times> fpga_static" where
  "fpga_allocate garbage spurious sz st =
     (case mm_ptr st of Null \<Rightarrow> Inl Null_Access | Dangling \<Rightarrow> Inl Deleted_Access
      | Live m \<Rightarrow> Inr (garbage, st\<lparr>mm_ptr := Live (fst (allocate spurious sz m))\<rparr>))"

definition fpga_free :: "u64 \<Rightarrow> fpga_static \<Rightarrow> memory \<Rightarrow> host_error + fpga_static \<times> memory" where
  "fpga_free ptr st mem =
     (case mm_ptr st of Null \<Rightarrow> Inl Null_Access | Dangling \<Rightarrow> Inl Deleted_Access
      | Live m \<Rightarrow> (case mm_free ptr m mem of (m, mem) \<Rightarrow> Inr (st\<lparr>mm_ptr := Live m\<rparr>, mem)))"

section \<open>The programs\<close>

record options =
  opt_memorySize :: "u64 option"
  opt_accesses :: "u32 option"
  opt_chunkLength :: "u32 option"
  opt_strideLength :: "u32 option"
  opt_isWrite :: "bool option"
  opt_testDDR :: "bool option"
  opt_ddrChannel :: "u32 option"
  opt_clockPeriod :: "u32 option"

record settings =
  set_memorySize :: u64
  set_accesses :: u32
  set_chunkLength :: u32
  set_strideLength :: u32
  set_isWrite :: bool
  set_useDDR :: bool
  set_ddrChannel :: u8

definition given :: "'a \<Rightarrow> 'a option \<Rightarrow> 'a" where
  "given dflt x = (case x of None \<Rightarrow> dflt | Some v \<Rightarrow> v)"

text \<open>The clock period is declared as an unsigned integer and read as a double: the cast throws.\<close>

definition main_settings :: "options \<Rightarrow> host_error + settings" where
  "main_settings opts =
     (if opt_clockPeriod opts \<noteq> None then Inl Bad_Any_Cast
      else Inr \<lparr>set_memorySize = given 4096 (opt_memorySize opts), set_accesses = given 10 (opt_accesses opts),
        set_chunkLength = given 64 (opt_chunkLength opts), set_strideLength = given 0 (opt_strideLength opts),
        set_isWrite = given True (opt_isWrite opts), set_useDDR = given False (opt_testDDR opts),
        set_ddrChannel = ucast (given 0 (opt_ddrChannel opts))\<rparr>)"

definition main_benchmark :: "'d device \<Rightarrow> settings \<Rightarrow> u64 \<Rightarrow> 'd \<Rightarrow> ((ctrl_error + u64) \<times> 'd) option" where
  "main_benchmark dev s baseAddr d =
     (let memSize = set_memorySize s; nAcc = set_accesses s; chunk = set_chunkLength s; stride = set_strideLength s;
          channel = set_ddrChannel s; isRandom = (stride \<noteq> 0)
      in if \<not> set_useDDR s then
           (if \<not> isRandom then
              (if set_isWrite s then runDmaSeqWriteBenchmark dev baseAddr memSize nAcc chunk d
               else runDmaSeqReadBenchmark dev baseAddr memSize nAcc chunk d)
            else
              (if set_isWrite s then runDmaRandomWriteBenchmark dev baseAddr memSize nAcc chunk stride d
               else runDmaRandomReadBenchmark dev baseAddr memSize nAcc chunk stride d))
         else
           (if \<not> isRandom then
              (if set_isWrite s then runDramSeqWriteBenchmark dev baseAddr memSize nAcc chunk channel d
               else runDramSeqReadBenchmark dev baseAddr memSize nAcc chunk channel d)
            else
              (if set_isWrite s then runDramRandomWriteBenchmark dev baseAddr memSize nAcc chunk stride channel d
               else runDramRandomReadBenchmark dev baseAddr memSize nAcc chunk stride channel d)))"

definition transferSize :: "settings \<Rightarrow> u64" where
  "transferSize s = ucast (set_accesses s) * ucast (set_chunkLength s)"

text \<open>The four print calls at the end of both programs.\<close>

definition print_registers :: "'d device \<Rightarrow> u64 pointer \<Rightarrow> 'd \<Rightarrow> host_error + (string \<times> u32) list \<times> 'd" where
  "print_registers dev p d =
     (case with_controller p () of Inl e \<Rightarrow> Inl e
      | Inr _ \<Rightarrow>
     (let (l1, d) = printDebugRegs dev d; (l2, d) = printDmaStatsRegs dev d in
      case printDdrStatsRegs dev 0 d of Inl e \<Rightarrow> Inl (Controller_Error e)
      | Inr (l3, d) \<Rightarrow>
          (case printDdrStatsRegs dev 1 d of Inl e \<Rightarrow> Inl (Controller_Error e)
           | Inr (l4, d) \<Rightarrow> Inr (l1 @ l2 @ l3 @ l4, d))))"

definition main_prog ::
  "u64 \<Rightarrow> (nat \<Rightarrow> bool) \<Rightarrow> 'o os_env \<Rightarrow> 'd device \<Rightarrow> options \<Rightarrow> fpga_static \<Rightarrow> memory \<Rightarrow> 'o \<Rightarrow> 'd \<Rightarrow>
   (host_error + (string \<times> u32) list \<times> fpga_static \<times> memory \<times> 'o \<times> 'd) option" where
  "main_prog garbage spurious os dev opts st mem q d =
     (case initializeMemory os dev (setNodeId 0 st) mem q d of Inl e \<Rightarrow> Some (Inl e)
      | Inr (st, mem, q, d) \<Rightarrow>
     (let ctl = getController st in
      case main_settings opts of Inl e \<Rightarrow> Some (Inl e)
      | Inr s \<Rightarrow>
     (case fpga_allocate garbage spurious (set_memorySize s) st of Inl e \<Rightarrow> Some (Inl e)
      | Inr (baseAddr, st) \<Rightarrow>
     (case with_controller ctl (main_benchmark dev s baseAddr d) of Inl e \<Rightarrow> Some (Inl e)
      | Inr None \<Rightarrow> None
      | Inr (Some (_, d)) \<Rightarrow>
     (case print_registers dev (getController st) d of Inl e \<Rightarrow> Some (Inl e)
      | Inr (lines, d) \<Rightarrow>
     (case fpga_free baseAddr st mem of Inl e \<Rightarrow> Some (Inl e)
      | Inr (st, mem) \<Rightarrow>
     (case clear st of Inl e \<Rightarrow> Some (Inl e) | Inr st \<Rightarrow> Some (Inr (lines, st, mem, q, d)))))))))"

definition debug_prog ::
  "'o os_env \<Rightarrow> 'd device \<Rightarrow> fpga_static \<Rightarrow> memory \<Rightarrow> 'o \<Rightarrow> 'd \<Rightarrow>
   host_error + (string \<times> u32) list \<times> fpga_static \<times> memory \<times> 'o \<times> 'd" where
  "debug_prog os dev st mem q d =
     (case initializeMemory os dev (setNodeId 0 st) mem q d of Inl e \<Rightarrow> Inl e
      | Inr (st, mem, q, d) \<Rightarrow>
     (case print_registers dev (getController st) d of Inl e \<Rightarrow> Inl e
      | Inr (lines, d) \<Rightarrow>
     (case clear st of Inl e \<Rightarrow> Inl e | Inr st \<Rightarrow> Inr (lines, st, mem, q, d))))"

section \<open>Set-up on every path\<close>

text \<open>The operating system opens and maps everything that is asked for.\<close>

definition os_ready :: "'o os_env \<Rightarrow> bool" where
  "os_ready os \<longleftrightarrow> os_open_huge os \<noteq> -1 \<and> os_mmap_huge os \<noteq> -1 \<and> os_open_dev os \<noteq> -1 \<and> os_mmap_ctrl os \<noteq> MAP_FAILED \<and> os_calloc_ok os"

definition set_up :: "'o os_env \<Rightarrow> u64 pointer \<Rightarrow> fpga_static \<Rightarrow> fpga_static" where
  "set_up os c st = st\<lparr>hfd := os_open_huge os, huge_base := os_mmap_huge os, fd := os_open_dev os, controller := c,
     mm_ptr := Live (fst (mm_construct (os_mmap_huge os) DMA_SIZE (\<lambda>_. 0)))\<rparr>"

lemma mm_construct_parts:
  "mm_construct base sz mem = (fst (mm_construct base sz (\<lambda>_. 0)), memset base 0 sz mem)"
  by (simp add: mm_construct_def)

lemma initializeMemory_ready:
  assumes "os_ready os" "os_ioctl_set os \<lparr>huge_addr = os_mmap_huge os, huge_len = DMA_SIZE\<rparr> q = (rc, q1)"
    and "os_ioctl_get os 1024 q1 = ((rc', npages, written), q2)" "length written \<le> 1024"
    and "unat (given 1024 npages) \<le> 1024" "given 1024 npages \<noteq> 0"
  shows "initializeMemory os dev st mem q d =
    (case controller st of Dangling \<Rightarrow> Inl Deleted_Access
     | Live b \<Rightarrow> if b = MAP_FAILED then Inl Failed_Mapping
         else Inr (set_up os (Live b) st, memset (os_mmap_huge os) 0 DMA_SIZE mem, q2,
           writeTlb_pages dev (os_mmap_huge os) True (take (unat (given 1024 npages)) (dma_addresses 1024 written)) d)
     | Null \<Rightarrow> Inr (set_up os (new_controller os) st, memset (os_mmap_huge os) 0 DMA_SIZE mem, q2,
           writeTlb_pages dev (os_mmap_huge os) True (take (unat (given 1024 npages)) (dma_addresses 1024 written)) d))"
proof -
  have sz: "DMA_SIZE div 2097152 = 1024" by (simp add: configuration)
  have len: "length (dma_addresses 1024 written) = 1024" using assms(4) by (simp add: dma_addresses_def)
  show ?thesis
    using assms unfolding initializeMemory_def Let_def
    by (cases npages; cases "controller st")
       (simp_all add: os_ready_def sz given_def len write_mappings_def with_controller_def new_controller_def set_up_def mm_construct_parts [of _ _ mem])
qed

section \<open>What the set-up relies on\<close>

text \<open>The contract of the driver: once a buffer has been set whose pages are \<open>ps\<close>, a request with enough
  room returns their number and their addresses. \<open>'e\<close> is what the kernel answers.\<close>

locale buffer_driver =
  fixes set_buf :: "'e \<Rightarrow> xdma_huge \<Rightarrow> 'q \<Rightarrow> int \<times> 'q" and get_map :: "'e \<Rightarrow> u64 \<Rightarrow> 'q \<Rightarrow> (int \<times> u64 option \<times> u64 list) \<times> 'q"
    and pinned :: "'e \<Rightarrow> xdma_huge \<Rightarrow> u64 list \<Rightarrow> bool"
  assumes reports_pages: "pinned e huge ps \<Longrightarrow> set_buf e huge q = (rc, q1) \<Longrightarrow> length ps \<le> unat n \<Longrightarrow>
    get_map e n q1 = ((0, Some (of_nat (length ps)), ps), q1)"

text \<open>Together with a device that takes mappings, the set-up delivers the pages of the buffer.\<close>

locale host_set_up = mapping_device dev idle mappings + buffer_driver set_buf get_map pinned
  for dev :: "'d device" and idle mappings
    and set_buf :: "'e \<Rightarrow> xdma_huge \<Rightarrow> 'q \<Rightarrow> int \<times> 'q" and get_map pinned
begin

lemma set_up_delivers:
  assumes "os_ready os" "os_ioctl_set os = set_buf e" "os_ioctl_get os = get_map e" "controller st = Null" "idle d"
    and "pinned e \<lparr>huge_addr = os_mmap_huge os, huge_len = DMA_SIZE\<rparr> ps" "ps \<noteq> []" "length ps \<le> 1024"
  shows "\<exists>q' d'. initializeMemory os dev st mem q d =
      Inr (set_up os (new_controller os) st, memset (os_mmap_huge os) 0 DMA_SIZE mem, q', d') \<and>
    idle d' \<and> mappings d' = mappings d @ region_mappings (os_mmap_huge os) ps"
proof -
  let ?huge = "\<lparr>huge_addr = os_mmap_huge os, huge_len = DMA_SIZE\<rparr>"
  obtain rc q1 where set: "os_ioctl_set os ?huge q = (rc, q1)" by (cases "os_ioctl_set os ?huge q")
  have get: "os_ioctl_get os 1024 q1 = ((0, Some (of_nat (length ps)), ps), q1)"
    using reports_pages [OF assms(6), of q rc q1 1024] set assms(2,3,8) by simp
  have n: "unat (of_nat (length ps) :: u64) = length ps" using assms(8) by (simp add: unat_of_nat)
  have nz: "(of_nat (length ps) :: u64) \<noteq> 0" using n assms(7) by auto
  have "take (length ps) (dma_addresses 1024 ps) = ps" by (simp add: dma_addresses_def)
  then have "initializeMemory os dev st mem q d =
      Inr (set_up os (new_controller os) st, memset (os_mmap_huge os) 0 DMA_SIZE mem, q1, writeTlb_pages dev (os_mmap_huge os) True ps d)"
    using initializeMemory_ready [OF assms(1) set get assms(8), of dev st mem d] assms(4,8) n nz by (simp add: given_def)
  with writeTlb_pages_region [OF assms(5), of "os_mmap_huge os" ps] show ?thesis by blast
qed

end

section \<open>Properties\<close>

text \<open>C39. When the driver cannot report the mapping, the set-up goes on all the same: the TLB gets 1024
  mappings of the buffer to physical address 0 and the program a memory manager.\<close>

theorem set_up_with_failed_mapping:
  assumes "os_ready os" "controller st = Null" "os_ioctl_set os \<lparr>huge_addr = os_mmap_huge os, huge_len = DMA_SIZE\<rparr> q = (rc, q1)"
    and "os_ioctl_get os 1024 q1 = ((-1, None, []), q2)" "tlb_idle d"
  shows "\<exists>d'. initializeMemory os (fpga_device ddr tick) st mem q d =
      Inr (set_up os (new_controller os) st, memset (os_mmap_huge os) 0 DMA_SIZE mem, q2, d') \<and>
    dc_tlb_out (fr_dma d') = dc_tlb_out (fr_dma d) @ region_mappings (os_mmap_huge os) (replicate 1024 0)"
proof -
  have g: "given 1024 None = (1024 :: u64)" "unat (1024 :: u64) = 1024" by (simp_all add: given_def)
  have a: "take 1024 (dma_addresses 1024 []) = replicate 1024 0" by (simp add: dma_addresses_def)
  have "initializeMemory os (fpga_device ddr tick) st mem q d =
      Inr (set_up os (new_controller os) st, memset (os_mmap_huge os) 0 DMA_SIZE mem, q2,
        writeTlb_pages (fpga_device ddr tick) (os_mmap_huge os) True (replicate 1024 0) d)"
    using initializeMemory_ready [OF assms(1,3,4), of "fpga_device ddr tick" st mem d] assms(2) by (simp only: g a) simp
  moreover from fpm_dev.writeTlb_pages_region [OF assms(5), where ps = "replicate 1024 0" and base = "os_mmap_huge os"]
  have "dc_tlb_out (fr_dma (writeTlb_pages (fpga_device ddr tick) (os_mmap_huge os) True (replicate 1024 0) d)) =
      dc_tlb_out (fr_dma d) @ region_mappings (os_mmap_huge os) (replicate 1024 0)" by blast
  ultimately show ?thesis by blast
qed

definition example_os :: "unit os_env" where
  "example_os = \<lparr>os_open_huge = 3, os_mmap_huge = 0x40000000, os_open_dev = 4, os_mmap_ctrl = 0x7000, os_ioctl_set = (\<lambda>h q. (0, q)),
     os_calloc_ok = True, os_ioctl_get = (\<lambda>n q. ((-1, None, []), q))\<rparr>"

theorem set_up_with_failed_mapping_witness:
  "\<exists>d'. initializeMemory example_os (fpga_device (\<lambda>_. 0) id) fpga_static_init (\<lambda>_. 7) () example_fpga =
      Inr (set_up example_os (new_controller example_os) fpga_static_init, memset 0x40000000 0 DMA_SIZE (\<lambda>_. 7), (), d') \<and>
    dc_tlb_out (fr_dma d') = region_mappings 0x40000000 (replicate 1024 0)"
  using set_up_with_failed_mapping [of example_os fpga_static_init "()" 0 "()" "()" example_fpga "\<lambda>_. 0" id "\<lambda>_. 7"]
  by (simp add: example_os_def os_ready_def MAP_FAILED_def fpga_static_init_def tlb_idle_def example_fpga_def dma_ctrl_reset_def)

text \<open>\<open>clear\<close> deletes the controller and the memory manager but keeps the pointers: a new set-up
  that has pages to map calls the deleted controller, an allocation uses the deleted manager, and a
  second \<open>clear\<close> deletes both again.\<close>

theorem set_up_after_clear:
  assumes "controller st = Live b" "mm_ptr st = Live m" "os_ready os"
    and "os_ioctl_set os \<lparr>huge_addr = os_mmap_huge os, huge_len = DMA_SIZE\<rparr> q = (rc, q1)"
    and "os_ioctl_get os 1024 q1 = ((rc', npages, written), q2)" "length written \<le> 1024"
    and "unat (given 1024 npages) \<le> 1024" "given 1024 npages \<noteq> 0"
  shows "\<exists>st'. clear st = Inr st' \<and> initializeMemory os dev st' mem q d = Inl Deleted_Access \<and>
    fpga_allocate garbage spurious n st' = Inl Deleted_Access \<and> clear st' = Inl Double_Delete"
  using initializeMemory_ready [OF assms(3-8), of dev "st\<lparr>controller := Dangling, mm_ptr := Dangling\<rparr>" mem d] assms(1,2)
  by (intro exI [of _ "st\<lparr>controller := Dangling, mm_ptr := Dangling\<rparr>"]) (simp add: clear_def fpga_allocate_def)

theorem set_up_after_clear_witness:
  "\<exists>st'. clear (set_up example_os (new_controller example_os) fpga_static_init) = Inr st' \<and>
    initializeMemory example_os (fpga_device (\<lambda>_. 0) id) st' (\<lambda>_. 0) () example_fpga = Inl Deleted_Access \<and> clear st' = Inl Double_Delete"
proof -
  let ?st = "set_up example_os (new_controller example_os) fpga_static_init"
  obtain m where m: "controller ?st = Live 0x7000" "mm_ptr ?st = Live m" by (simp add: set_up_def new_controller_def example_os_def)
  have "os_ready example_os" by (simp add: example_os_def os_ready_def MAP_FAILED_def)
  moreover have "os_ioctl_set example_os h () = (0, ())" "os_ioctl_get example_os 1024 () = ((-1, None, []), ())" for h
    by (simp_all add: example_os_def)
  ultimately show ?thesis
    using set_up_after_clear [where garbage = 0 and spurious = "\<lambda>_. False" and n = 0, OF m, of example_os "()" 0 "()" "-1" None "[]" "()"
        "fpga_device (\<lambda>_. 0) id" "\<lambda>_. 0" example_fpga] by (auto simp: given_def)
qed

text \<open>The eight-way choice of the benchmark program is one call with the stride and the operation
  that the options give: a stride of 0 is sequential access.\<close>

theorem main_benchmark_is_one_call:
  "main_benchmark dev s baseAddr d =
     without_return
       (if set_useDDR s
        then runDramBenchmark dev baseAddr (set_memorySize s) (set_accesses s) (set_chunkLength s) (set_strideLength s)
               (if set_isWrite s then WRITE else READ) (set_ddrChannel s) d
        else runDmaBenchmark dev baseAddr (set_memorySize s) (set_accesses s) (set_chunkLength s) (set_strideLength s)
               (if set_isWrite s then WRITE else READ) d)"
  by (simp add: main_benchmark_def Let_def runDmaSeqWriteBenchmark_def runDmaSeqReadBenchmark_def runDmaRandomWriteBenchmark_def
      runDmaRandomReadBenchmark_def runDramSeqWriteBenchmark_def runDramSeqReadBenchmark_def runDramRandomWriteBenchmark_def
      runDramRandomReadBenchmark_def)

text \<open>The product of two 32-bit numbers fits.\<close>

lemma transferSize_exact: "unat (transferSize s) = unat (set_accesses s) * unat (set_chunkLength s)"
proof -
  have "unat (set_accesses s) * unat (set_chunkLength s) < 2 ^ 32 * 2 ^ 32"
    using unsigned_less [of "set_accesses s", where 'a = nat] unsigned_less [of "set_chunkLength s", where 'a = nat]
    by (intro mult_strict_mono) auto
  moreover have "unat (ucast w :: u64) = unat w" for w :: u32
    using unsigned_less [of w, where 'a = nat] by (simp add: unat_ucast_mod)
  ultimately show ?thesis by (simp add: transferSize_def unat_word_ariths)
qed

text \<open>A program started with a clock period sets the device up and then ends with an exception.\<close>

lemma clock_period_throws:
  assumes "opt_clockPeriod opts = Some p" "initializeMemory os dev (setNodeId 0 st) mem q d = Inr r"
  shows "main_prog garbage spurious os dev opts st mem q d = Some (Inl Bad_Any_Cast)"
  using assms by (cases r) (simp add: main_prog_def main_settings_def)

end
