(* ===== verification/Dma_Interface.thy ===== *)
theory Dma_Interface
  imports Page_Boundary Register_Controllers
begin

text \<open>
  \<^verbatim>\<open>hdl/common/dma_inf.sv\<close>: the module that joins the page-boundary check, the TLB and the DMA
  controller between the role and the PCIe core.

  \<^item> The role writes commands and data. Write commands go through the page-boundary check to the TLB,
    read commands go to the TLB directly. The DMA commands of the TLB become descriptors of the
    PCIe core.
  \<^item> Streams and the vendor's clock converters are lists in order; what is in a converter is in the
    list between its writer and its reader. The two clocks are independent: a history of the
    module is a list of \<open>dma_event\<close>s in any order, each a transfer on one of the ports, a call of one
    of the HLS modules or an edge of the PCIe clock.
  \<^item> \<open>pcie_clk_edge\<close> is the three blocks clocked by \<open>pcie_clk\<close>. Assignments there are
    non-blocking: every right-hand side refers to the state before the edge.
  \<^item> A descriptor is taken by the PCIe core in the cycle in which its load signal is set, that is at
    the edge that counts it in \<open>dma_write_load_counter\<close>.

  The lemmas show that under every order of events the descriptors are the translated pieces of the
  commands, in order and none twice, that all of them and the data that belongs to them are delivered when the packets arrive and the
  modules go on running, that the statistics count what has passed, and which base address the
  page-boundary check works with.
\<close>

section \<open>State and events\<close>

record dsc_byp =
  byp_load :: bool
  byp_addr :: u64
  byp_len :: u32

record dma_inf =
  regBaseVaddr :: u48
  regBaseVaddrBoundCheck :: u48
  di_tlb_cc :: "tlbMapping list"
  di_check :: mwc_state
  di_check_io :: mwc_io
  di_tlb :: tlb_state
  di_tlb_io :: tlb_io
  di_write_byp :: dsc_byp
  di_read_byp :: dsc_byp
  di_c2h_dsc :: "(u64 \<times> u32) list"
  di_h2c_dsc :: "(u64 \<times> u32) list"
  di_c2h_data :: "word512 list"
  di_read_data :: "word512 list"
  di_write_load_counter :: u32
  di_read_load_counter :: u32
  di_counters :: dma_counters

text \<open>What the PCIe core and the DMA controller drive at an edge of the PCIe clock: the ready signals of
  the descriptor ports and of the write data, a word of read data that is transferred, and the
  resets of the length counters.\<close>

record pcie_in =
  c2h_dsc_byp_ready :: bool
  h2c_dsc_byp_ready :: bool
  c2h_data_ready :: bool
  h2c_data :: "word512 option"
  reset_dma_write_length_counter :: bool
  reset_dma_read_length_counter :: bool

datatype dma_event =
    Host_mapping tlbMapping
  | Tlb_transfer
  | Write_cmd memCmd
  | Write_data word512
  | Read_cmd memCmd
  | Check_call word512
  | Tlb_call
  | Pcie_edge pcie_in

section \<open>The clocked blocks\<close>

text \<open>A transfer on the TLB interface. Both registers are assigned in the same cycle, so that the
  one the page-boundary check uses gets the previous value of the other.\<close>

definition tlb_transfer :: "dma_inf \<Rightarrow> dma_inf" where
  "tlb_transfer s =
     (case di_tlb_cc s of
        [] \<Rightarrow> s
      | m # ms \<Rightarrow>
          let s' = s\<lparr>di_tlb_cc := ms, di_tlb_io := (di_tlb_io s)\<lparr>s_axis_tlb_interface := s_axis_tlb_interface (di_tlb_io s) @ [m]\<rparr>\<rparr>
          in if map_isBase m then s'\<lparr>regBaseVaddr := ucast (map_vaddr m), regBaseVaddrBoundCheck := regBaseVaddr s\<rparr> else s')"

definition check_call :: "word512 \<Rightarrow> dma_inf \<Rightarrow> dma_inf" where
  "check_call uninit s =
     (let (st, io) = mem_write_cmd_page_boundary_check_512 uninit (regBaseVaddrBoundCheck s) (di_check s, di_check_io s)
      in s\<lparr>di_check := st, di_check_io := io\<lparr>mwc_cmdOut := []\<rparr>,
           di_tlb_io := (di_tlb_io s)\<lparr>s_axis_mem_write_cmd := s_axis_mem_write_cmd (di_tlb_io s) @ mwc_cmdOut io\<rparr>\<rparr>)"

text \<open>The debug registers of the TLB pass through a register and a clock converter on their way to the DMA controller. Here they are
  copied in the call that writes them; the values that are on their way are not part of the state.\<close>

definition tlb_call :: "dma_inf \<Rightarrow> tlb_error + dma_inf" where
  "tlb_call s =
     (case tlb (di_tlb s) (di_tlb_io s) of
        Inl e \<Rightarrow> Inl e
      | Inr (st, io) \<Rightarrow>
          Inr (s\<lparr>di_tlb := st, di_tlb_io := io,
                 di_counters := (di_counters s)\<lparr>tlb_miss_counter := regTlbMissCount io,
                                                tlb_boundary_crossing_counter := regPageCrossingCount io\<rparr>\<rparr>))"

definition bypass :: "dmaCmd list \<Rightarrow> bool \<Rightarrow> dsc_byp \<Rightarrow> dsc_byp" where
  "bypass cmds ready byp =
     (case cmds of
        [] \<Rightarrow> byp\<lparr>byp_load := False\<rparr>
      | cmd # _ \<Rightarrow>
          if ready then \<lparr>byp_load = True, byp_addr = dma_addr cmd, byp_len = ucast (dma_len cmd)\<rparr> else byp\<lparr>byp_load := False\<rparr>)"

text \<open>The statistics. A register that is assigned twice at an edge, the length counter on a reset, keeps the
  later value.\<close>

definition pcie_statistics :: "pcie_in \<Rightarrow> dmaCmd list \<Rightarrow> dmaCmd list \<Rightarrow> word512 list \<Rightarrow> dma_counters \<Rightarrow> dma_counters" where
  "pcie_statistics i wcmds rcmds wdata cs =
     (let wcmd = (c2h_dsc_byp_ready i \<and> wcmds \<noteq> []); rcmd = (h2c_dsc_byp_ready i \<and> rcmds \<noteq> []);
          wword = (c2h_data_ready i \<and> wdata \<noteq> []); rword = (h2c_data i \<noteq> None)
      in cs\<lparr>
        dma_reads_flushed := (dma_read_cmd_counter cs = dma_read_pkg_counter cs),
        dma_write_cmd_counter := (if wcmd then dma_write_cmd_counter cs + 1 else dma_write_cmd_counter cs),
        dma_write_length_counter := (if reset_dma_write_length_counter i then 0
          else if wcmd then dma_write_length_counter cs + ucast (dma_len (hd wcmds)) else dma_write_length_counter cs),
        dma_write_word_counter := (if wword then dma_write_word_counter cs + 1 else dma_write_word_counter cs),
        dma_write_pkg_counter := (if wword \<and> axis_last (hd wdata) then dma_write_pkg_counter cs + 1 else dma_write_pkg_counter cs),
        dma_read_cmd_counter := (if rcmd then dma_read_cmd_counter cs + 1 else dma_read_cmd_counter cs),
        dma_read_length_counter := (if reset_dma_read_length_counter i then 0
          else if rcmd then dma_read_length_counter cs + ucast (dma_len (hd rcmds)) else dma_read_length_counter cs),
        dma_read_word_counter := (if rword then dma_read_word_counter cs + 1 else dma_read_word_counter cs),
        dma_read_pkg_counter := (if rword \<and> axis_last (the (h2c_data i)) then dma_read_pkg_counter cs + 1 else dma_read_pkg_counter cs)\<rparr>)"

text \<open>The first element leaves a stream when its reader is ready.\<close>

definition transfer :: "bool \<Rightarrow> 'a list \<Rightarrow> 'a list" where
  "transfer ready xs = (if ready then drop 1 xs else xs)"

definition taken_dsc :: "dsc_byp \<Rightarrow> (u64 \<times> u32) list" where
  "taken_dsc byp = (if byp_load byp then [(byp_addr byp, byp_len byp)] else [])"

definition pcie_clk_edge :: "pcie_in \<Rightarrow> dma_inf \<Rightarrow> dma_inf" where
  "pcie_clk_edge i s =
     (let io = di_tlb_io s; wcmds = m_axis_dma_write_cmd io; rcmds = m_axis_dma_read_cmd io; wdata = mwc_dataOut (di_check_io s)
      in s\<lparr>di_write_byp := bypass wcmds (c2h_dsc_byp_ready i) (di_write_byp s),
           di_read_byp := bypass rcmds (h2c_dsc_byp_ready i) (di_read_byp s),
           di_tlb_io := io\<lparr>m_axis_dma_write_cmd := transfer (c2h_dsc_byp_ready i) wcmds,
                           m_axis_dma_read_cmd := transfer (h2c_dsc_byp_ready i) rcmds\<rparr>,
           di_check_io := (di_check_io s)\<lparr>mwc_dataOut := transfer (c2h_data_ready i) wdata\<rparr>,
           di_c2h_dsc := di_c2h_dsc s @ taken_dsc (di_write_byp s),
           di_h2c_dsc := di_h2c_dsc s @ taken_dsc (di_read_byp s),
           di_c2h_data := di_c2h_data s @ (if c2h_data_ready i then take 1 wdata else []),
           di_read_data := di_read_data s @ (case h2c_data i of None \<Rightarrow> [] | Some w \<Rightarrow> [w]),
           di_write_load_counter := (if byp_load (di_write_byp s) then di_write_load_counter s + 1 else di_write_load_counter s),
           di_read_load_counter := (if byp_load (di_read_byp s) then di_read_load_counter s + 1 else di_read_load_counter s),
           di_counters := pcie_statistics i wcmds rcmds wdata (di_counters s)\<rparr>)"

section \<open>Histories\<close>

fun dma_inf_step :: "dma_event \<Rightarrow> dma_inf \<Rightarrow> tlb_error + dma_inf" where
  "dma_inf_step (Host_mapping m) s = Inr (s\<lparr>di_tlb_cc := di_tlb_cc s @ [m]\<rparr>)"
| "dma_inf_step Tlb_transfer s = Inr (tlb_transfer s)"
| "dma_inf_step (Write_cmd c) s = Inr (s\<lparr>di_check_io := (di_check_io s)\<lparr>mwc_cmdIn := mwc_cmdIn (di_check_io s) @ [c]\<rparr>\<rparr>)"
| "dma_inf_step (Write_data w) s = Inr (s\<lparr>di_check_io := (di_check_io s)\<lparr>mwc_dataIn := mwc_dataIn (di_check_io s) @ [w]\<rparr>\<rparr>)"
| "dma_inf_step (Read_cmd c) s = Inr (s\<lparr>di_tlb_io := (di_tlb_io s)\<lparr>s_axis_mem_read_cmd := s_axis_mem_read_cmd (di_tlb_io s) @ [c]\<rparr>\<rparr>)"
| "dma_inf_step (Check_call u) s = Inr (check_call u s)"
| "dma_inf_step Tlb_call s = tlb_call s"
| "dma_inf_step (Pcie_edge i) s = Inr (pcie_clk_edge i s)"

fun dma_inf_run :: "dma_event list \<Rightarrow> dma_inf \<Rightarrow> tlb_error + dma_inf" where
  "dma_inf_run [] s = Inr s"
| "dma_inf_run (e # es) s = (case dma_inf_step e s of Inl x \<Rightarrow> Inl x | Inr s' \<Rightarrow> dma_inf_run es s')"

text \<open>The commands of a history, and whether the host sends no mapping in it.\<close>

fun write_cmds :: "dma_event list \<Rightarrow> memCmd list" where
  "write_cmds [] = []"
| "write_cmds (Write_cmd c # es) = c # write_cmds es"
| "write_cmds (_ # es) = write_cmds es"

fun read_cmds :: "dma_event list \<Rightarrow> memCmd list" where
  "read_cmds [] = []"
| "read_cmds (Read_cmd c # es) = c # read_cmds es"
| "read_cmds (_ # es) = read_cmds es"

definition no_mappings :: "dma_event list \<Rightarrow> bool" where
  "no_mappings es \<longleftrightarrow> list_all (\<lambda>e. case e of Host_mapping _ \<Rightarrow> False | _ \<Rightarrow> True) es"

section \<open>The flow of commands\<close>

text \<open>The descriptor of a command of the TLB, and of a command with a virtual address under a translation.\<close>

definition dsc_of :: "dmaCmd \<Rightarrow> u64 \<times> u32" where
  "dsc_of d = (dma_addr d, ucast (dma_len d))"

definition descriptor :: "(u64 \<Rightarrow> u64 option) \<Rightarrow> memCmd \<Rightarrow> u64 \<times> u32" where
  "descriptor tr c = (the (tr (cmd_addr c)), ucast (ucast (cmd_len c) :: 28 word))"

text \<open>The pieces that the page-boundary check still has to write.\<close>

definition check_waiting :: "u48 \<Rightarrow> mwc_state \<Rightarrow> mwc_io \<Rightarrow> memCmd list \<Rightarrow> bool" where
  "check_waiting base st io ps \<longleftrightarrow>
     (\<exists>q. mwc_pageOffsetFifo st = map (ic_of base) q \<and>
          ps = bc_pending (mwc_bc st) @ concat (map (split_cmd base) (q @ mwc_cmdIn io)))"

lemma check_call_flow:
  assumes "check_waiting (regBaseVaddrBoundCheck s) (di_check s) (di_check_io s) ps" and "mwc_cmdOut (di_check_io s) = []"
  shows "\<exists>st io out ps'. check_call u s = s\<lparr>di_check := st, di_check_io := io,
      di_tlb_io := (di_tlb_io s)\<lparr>s_axis_mem_write_cmd := s_axis_mem_write_cmd (di_tlb_io s) @ out\<rparr>\<rparr> \<and>
    mwc_cmdOut io = [] \<and> ps = out @ ps' \<and> check_waiting (regBaseVaddrBoundCheck s) st io ps'"
proof -
  let ?base = "regBaseVaddrBoundCheck s" and ?cmds = "mwc_cmdIn (di_check_io s)" and ?bc = "mwc_bc (di_check s)"
    and ?n = "offset_room (di_check s)"
  from assms(1) obtain q where q: "mwc_pageOffsetFifo (di_check s) = map (ic_of ?base) q"
    "ps = bc_pending ?bc @ concat (map (split_cmd ?base) (q @ ?cmds))" by (auto simp: check_waiting_def)
  obtain bc' now q' out where
    bc: "boundary_check_stage (di_check s) (map (ic_of ?base) (q @ take ?n ?cmds)) = (bc', map (ic_of ?base) q', out, map (cmd_meta ?base) now)"
      "q @ take ?n ?cmds = now @ q'" "bc_pending ?bc @ concat (map (split_cmd ?base) now) = out @ bc_pending bc'"
    using check_stage_flow [of "di_check s" ?base "q @ take ?n ?cmds"] by blast
  obtain pkg ms ds ws where sp: "pkg_split u (mwc_pkg (di_check s)) (mwc_metaFifo (di_check s) @ map (cmd_meta ?base) now) (mwc_dataIn (di_check_io s)) = (pkg, ms, ds, ws)"
    by (metis prod_cases4)
  let ?ps = "bc_pending bc' @ concat (map (split_cmd ?base) (q' @ drop ?n ?cmds))"
  have "q @ ?cmds = now @ q' @ drop ?n ?cmds" using bc(2) by (metis append.assoc append_take_drop_id)
  then have "ps = (bc_pending ?bc @ concat (map (split_cmd ?base) now)) @ concat (map (split_cmd ?base) (q' @ drop ?n ?cmds))"
    by (simp add: q(2) del: map_append) simp
  then have ps: "ps = out @ ?ps" by (simp only: bc(3)) simp
  let ?st = "\<lparr>mwc_pageOffsetFifo = map (ic_of ?base) q', mwc_metaFifo = ms, mwc_bc = bc', mwc_pkg = pkg\<rparr>"
    and ?io = "\<lparr>mwc_cmdIn = drop ?n ?cmds, mwc_dataIn = ds, mwc_cmdOut = [], mwc_dataOut = mwc_dataOut (di_check_io s) @ ws\<rparr>"
  have "check_call u s = s\<lparr>di_check := ?st, di_check_io := ?io,
      di_tlb_io := (di_tlb_io s)\<lparr>s_axis_mem_write_cmd := s_axis_mem_write_cmd (di_tlb_io s) @ out\<rparr>\<rparr>"
    using bc(1) by (simp add: check_call_def pipeline_step q(1) sp assms(2) Let_def)
  moreover have "check_waiting ?base ?st ?io ?ps" by (auto simp: check_waiting_def)
  moreover have "mwc_cmdOut ?io = []" by simp
  ultimately show ?thesis using ps by blast
qed

text \<open>The invariant of a history without mappings. For each direction it splits the commands so far: those
  translated, of which the descriptors are taken, loaded or waiting, and those before the TLB.\<close>

definition write_flow :: "(u64 \<Rightarrow> u64 option) \<Rightarrow> memCmd list \<Rightarrow> memCmd list \<Rightarrow> dma_inf \<Rightarrow> bool" where
  "write_flow tr cs ps s \<longleftrightarrow>
     (\<exists>tl. concat (map (split_cmd (regBaseVaddrBoundCheck s)) cs) = tl @ s_axis_mem_write_cmd (di_tlb_io s) @ ps \<and>
        check_waiting (regBaseVaddrBoundCheck s) (di_check s) (di_check_io s) ps \<and> mwc_cmdOut (di_check_io s) = [] \<and>
        di_c2h_dsc s @ taken_dsc (di_write_byp s) @ map dsc_of (m_axis_dma_write_cmd (di_tlb_io s)) = map (descriptor tr) tl)"

definition read_flow :: "(u64 \<Rightarrow> u64 option) \<Rightarrow> memCmd list \<Rightarrow> dma_inf \<Rightarrow> bool" where
  "read_flow tr cs s \<longleftrightarrow>
     (\<exists>tl. cs = tl @ s_axis_mem_read_cmd (di_tlb_io s) \<and>
        di_h2c_dsc s @ taken_dsc (di_read_byp s) @ map dsc_of (m_axis_dma_read_cmd (di_tlb_io s)) = map (descriptor tr) tl)"

definition tables_fixed :: "u48 \<Rightarrow> (u64 \<Rightarrow> u64 option) \<Rightarrow> dma_inf \<Rightarrow> bool" where
  "tables_fixed base tr s \<longleftrightarrow> regBaseVaddrBoundCheck s = base \<and> translation (di_tlb s) = tr \<and>
     di_tlb_cc s = [] \<and> s_axis_tlb_interface (di_tlb_io s) = []"

lemmas flow_defs = write_flow_def read_flow_def tables_fixed_def

text \<open>One call of the TLB on translatable commands and no mapping.\<close>

lemma tlb_translate_flow:
  assumes "translation st (cmd_addr c) \<noteq> None"
  shows "\<exists>st' d m x. tlb_translate st c a b = Inr (st', d, m, x) \<and> dsc_of d = descriptor (translation st) c \<and> translation st' = translation st"
proof -
  from assms obtain p where p: "translation st (cmd_addr c) = Some p" by blast
  from tlb_translate_ok [OF p, of a b] obtain st' m x where
    "tlb_translate st c a b = Inr (st', \<lparr>dma_addr = p, dma_len = ucast (cmd_len c)\<rparr>, m, x)"
    "tlb_table st' = tlb_table st" "base_vaddr st' = base_vaddr st" by blast
  moreover from this(2,3) have "translation st' = translation st" by (intro ext) (simp add: translation_def Let_def)
  ultimately show ?thesis by (auto simp: dsc_of_def descriptor_def p)
qed

lemma tlb_call_flow:
  assumes "tables_fixed base tr s" and "write_flow tr ws ps s" and "read_flow tr rs s"
    and "\<forall>c \<in> set (concat (map (split_cmd base) ws)) \<union> set rs. tr (cmd_addr c) \<noteq> None"
  shows "\<exists>s'. tlb_call s = Inr s' \<and> tables_fixed base tr s' \<and> write_flow tr ws ps s' \<and> read_flow tr rs s' \<and>
    length (s_axis_mem_write_cmd (di_tlb_io s')) + length (s_axis_mem_read_cmd (di_tlb_io s')) =
      length (s_axis_mem_write_cmd (di_tlb_io s)) + length (s_axis_mem_read_cmd (di_tlb_io s)) - 1"
proof -
  let ?io = "di_tlb_io s"
  obtain tl where tl: "concat (map (split_cmd base) ws) = tl @ s_axis_mem_write_cmd ?io @ ps"
      "check_waiting base (di_check s) (di_check_io s) ps" "mwc_cmdOut (di_check_io s) = []"
      "di_c2h_dsc s @ taken_dsc (di_write_byp s) @ map dsc_of (m_axis_dma_write_cmd ?io) = map (descriptor tr) tl"
    using assms(1,2) by (auto simp: flow_defs)
  obtain rl where rl: "rs = rl @ s_axis_mem_read_cmd ?io"
      "di_h2c_dsc s @ taken_dsc (di_read_byp s) @ map dsc_of (m_axis_dma_read_cmd ?io) = map (descriptor tr) rl"
    using assms(3) by (auto simp: flow_defs)
  have fixed: "regBaseVaddrBoundCheck s = base" "translation (di_tlb s) = tr" "di_tlb_cc s = []" "s_axis_tlb_interface ?io = []"
    using assms(1) by (simp_all add: tables_fixed_def)
  show ?thesis
  proof (cases "s_axis_mem_write_cmd ?io")
    case (Cons c rest)
    then have "tr (cmd_addr c) \<noteq> None" using assms(4) tl(1) by auto
    then obtain st' d m x where
      t: "tlb_translate (di_tlb s) c (regTlbMissCount ?io) (regPageCrossingCount ?io) = Inr (st', d, m, x)"
        "dsc_of d = descriptor tr c" "translation st' = tr"
      using tlb_translate_flow [of "di_tlb s" c "regTlbMissCount ?io" "regPageCrossingCount ?io"] fixed(2) by auto
    then show ?thesis
      using tl rl fixed Cons by (auto simp: tlb_call_def tlb_def flow_defs intro!: exI [of _ "tl @ [c]"] simp flip: append_assoc)
  next
    case Nil
    note wnil = Nil
    show ?thesis
    proof (cases "s_axis_mem_read_cmd ?io")
      case (Cons c rest)
      then have "tr (cmd_addr c) \<noteq> None" using assms(4) rl(1) by auto
      then obtain st' d m x where
        t: "tlb_translate (di_tlb s) c (regTlbMissCount ?io) (regPageCrossingCount ?io) = Inr (st', d, m, x)"
          "dsc_of d = descriptor tr c" "translation st' = tr"
        using tlb_translate_flow [of "di_tlb s" c "regTlbMissCount ?io" "regPageCrossingCount ?io"] fixed(2) by auto
      then show ?thesis
        using tl rl fixed Cons wnil by (auto simp: tlb_call_def tlb_def flow_defs intro!: exI [of _ "rl @ [c]"] simp flip: append_assoc)
    next
      case Nil
      then show ?thesis using wnil fixed tl rl by (auto simp: tlb_call_def tlb_def flow_defs)
    qed
  qed
qed

lemma bypass_flow:
  "taken_dsc (bypass cmds ready byp) @ map dsc_of (transfer ready cmds) = map dsc_of cmds"
  by (cases cmds) (auto simp: bypass_def taken_dsc_def transfer_def dsc_of_def)

lemma pcie_edge_flow:
  assumes "tables_fixed base tr s" and "write_flow tr ws ps s" and "read_flow tr rs s"
  shows "tables_fixed base tr (pcie_clk_edge i s) \<and> write_flow tr ws ps (pcie_clk_edge i s) \<and> read_flow tr rs (pcie_clk_edge i s)"
  using assms
    bypass_flow [of "m_axis_dma_write_cmd (di_tlb_io s)" "c2h_dsc_byp_ready i" "di_write_byp s"]
    bypass_flow [of "m_axis_dma_read_cmd (di_tlb_io s)" "h2c_dsc_byp_ready i" "di_read_byp s"]
  by (auto simp: pcie_clk_edge_def flow_defs check_waiting_def Let_def)

lemma check_flow:
  assumes "tables_fixed base tr s" and "write_flow tr ws ps s" and "read_flow tr rs s"
  shows "\<exists>ps'. tables_fixed base tr (check_call u s) \<and> write_flow tr ws ps' (check_call u s) \<and> read_flow tr rs (check_call u s)"
proof -
  from assms(1,2) have "check_waiting (regBaseVaddrBoundCheck s) (di_check s) (di_check_io s) ps" "mwc_cmdOut (di_check_io s) = []"
    by (auto simp: flow_defs)
  from check_call_flow [OF this, of u] obtain st io out ps' where
    c: "check_call u s = s\<lparr>di_check := st, di_check_io := io,
        di_tlb_io := (di_tlb_io s)\<lparr>s_axis_mem_write_cmd := s_axis_mem_write_cmd (di_tlb_io s) @ out\<rparr>\<rparr>"
      "mwc_cmdOut io = []" "ps = out @ ps'" "check_waiting (regBaseVaddrBoundCheck s) st io ps'" by blast
  then show ?thesis using assms by (intro exI [of _ ps']) (auto simp: flow_defs)
qed

lemma dma_inf_step_flow:
  assumes "tables_fixed base tr s" and "write_flow tr ws ps s" and "read_flow tr rs s" and "no_mappings [e]"
    and "\<forall>c \<in> set (concat (map (split_cmd base) ws)) \<union> set rs. tr (cmd_addr c) \<noteq> None"
  shows "\<exists>s' ps'. dma_inf_step e s = Inr s' \<and> tables_fixed base tr s' \<and>
    write_flow tr (ws @ write_cmds [e]) ps' s' \<and> read_flow tr (rs @ read_cmds [e]) s'"
proof (cases e)
  case (Write_cmd c)
  have "check_waiting base (di_check s) (di_check_io s) ps" using assms(1,2) by (auto simp: flow_defs)
  then have "check_waiting base (di_check s) ((di_check_io s)\<lparr>mwc_cmdIn := mwc_cmdIn (di_check_io s) @ [c]\<rparr>) (ps @ split_cmd base c)"
    by (auto simp: check_waiting_def)
  then have "write_flow tr (ws @ [c]) (ps @ split_cmd base c) (s\<lparr>di_check_io := (di_check_io s)\<lparr>mwc_cmdIn := mwc_cmdIn (di_check_io s) @ [c]\<rparr>\<rparr>)"
    using assms(1,2) by (auto simp: flow_defs)
  moreover have "tables_fixed base tr (s\<lparr>di_check_io := x\<rparr>) \<and> read_flow tr rs (s\<lparr>di_check_io := x\<rparr>)" for x
    using assms(1,3) by (simp add: flow_defs)
  ultimately show ?thesis using Write_cmd by auto
next
  case (Check_call u)
  then show ?thesis using check_flow [OF assms(1-3), of u] by auto
next
  case Tlb_call
  then show ?thesis using tlb_call_flow [OF assms(1-3,5)] by auto
next
  case (Pcie_edge i)
  then show ?thesis using pcie_edge_flow [OF assms(1-3), of i] by auto
qed (use assms(1-4) in \<open>auto simp: flow_defs check_waiting_def tlb_transfer_def no_mappings_def\<close>)

lemma write_cmds_Cons: "write_cmds (e # es) = write_cmds [e] @ write_cmds es" and read_cmds_Cons: "read_cmds (e # es) = read_cmds [e] @ read_cmds es"
  by (cases e; simp)+

lemma write_cmds_append: "write_cmds (es @ fs) = write_cmds es @ write_cmds fs" and read_cmds_append: "read_cmds (es @ fs) = read_cmds es @ read_cmds fs"
  by (induction es rule: write_cmds.induct; simp)+

lemma dma_inf_run_append:
  "dma_inf_run (es @ fs) s = (case dma_inf_run es s of Inl x \<Rightarrow> Inl x | Inr s' \<Rightarrow> dma_inf_run fs s')"
  by (induction es arbitrary: s) (auto split: sum.splits)

lemma dma_inf_run_flow:
  assumes "tables_fixed base tr s" and "write_flow tr ws ps s" and "read_flow tr rs s" and "no_mappings es"
    and "\<forall>c \<in> set (concat (map (split_cmd base) (ws @ write_cmds es))) \<union> set (rs @ read_cmds es). tr (cmd_addr c) \<noteq> None"
  shows "\<exists>s' ps'. dma_inf_run es s = Inr s' \<and> tables_fixed base tr s' \<and>
    write_flow tr (ws @ write_cmds es) ps' s' \<and> read_flow tr (rs @ read_cmds es) s'"
  using assms
proof (induction es arbitrary: s ws ps rs)
  case (Cons e es)
  from Cons(5) have e: "no_mappings [e]" "no_mappings es" by (simp_all add: no_mappings_def)
  have "\<forall>c \<in> set (concat (map (split_cmd base) ws)) \<union> set rs. tr (cmd_addr c) \<noteq> None" using Cons(6) by auto
  from dma_inf_step_flow [OF Cons(2-4) e(1) this] obtain s1 ps1 where
    s1: "dma_inf_step e s = Inr s1" "tables_fixed base tr s1" "write_flow tr (ws @ write_cmds [e]) ps1 s1" "read_flow tr (rs @ read_cmds [e]) s1"
    by blast
  from Cons(1) [OF s1(2-4) e(2)] Cons(6) s1(1) show ?case
    by (simp add: write_cmds_Cons [of e es] read_cmds_Cons [of e es] del: write_cmds.simps read_cmds.simps)
qed auto

text \<open>The module before the first command of a history.\<close>

definition dma_inf_idle :: "dma_inf \<Rightarrow> bool" where
  "dma_inf_idle s \<longleftrightarrow> di_tlb_cc s = [] \<and> s_axis_tlb_interface (di_tlb_io s) = [] \<and> no_commands (di_tlb_io s) \<and>
     m_axis_dma_write_cmd (di_tlb_io s) = [] \<and> m_axis_dma_read_cmd (di_tlb_io s) = [] \<and>
     mwc_pageOffsetFifo (di_check s) = [] \<and> bc_state (mwc_bc (di_check s)) = CMD \<and>
     mwc_cmdIn (di_check_io s) = [] \<and> mwc_cmdOut (di_check_io s) = [] \<and>
     \<not> byp_load (di_write_byp s) \<and> \<not> byp_load (di_read_byp s) \<and> di_c2h_dsc s = [] \<and> di_h2c_dsc s = []"

lemma idle_flow:
  assumes "dma_inf_idle s"
  shows "tables_fixed (regBaseVaddrBoundCheck s) (translation (di_tlb s)) s"
    and "write_flow tr [] [] s" and "read_flow tr [] s"
  using assms by (auto simp: dma_inf_idle_def flow_defs check_waiting_def taken_dsc_def no_commands_def bc_pending_def)

text \<open>What the invariant says of the descriptors taken.\<close>

lemma write_flow_prefix:
  assumes "tables_fixed base tr s" and "write_flow tr cs ps s"
  shows "\<exists>rest. map (descriptor tr) (concat (map (split_cmd base) cs)) = di_c2h_dsc s @ rest"
proof -
  from assms obtain tl where "concat (map (split_cmd base) cs) = tl @ s_axis_mem_write_cmd (di_tlb_io s) @ ps"
    "map (descriptor tr) tl = di_c2h_dsc s @ taken_dsc (di_write_byp s) @ map dsc_of (m_axis_dma_write_cmd (di_tlb_io s))"
    by (auto simp: flow_defs)
  then show ?thesis by simp
qed

lemma read_flow_prefix: "read_flow tr cs s \<Longrightarrow> \<exists>rest. map (descriptor tr) cs = di_h2c_dsc s @ rest"
  by (metis (no_types, lifting) append_assoc map_append read_flow_def)

section \<open>The flow of data\<close>








lemma check_call_frame:
  "regBaseVaddrBoundCheck (check_call u s) = regBaseVaddrBoundCheck s" "di_tlb_cc (check_call u s) = di_tlb_cc s"
  "mwc_cmdOut (di_check_io (check_call u s)) = []" "di_c2h_data (check_call u s) = di_c2h_data s"
  by (simp_all add: check_call_def Let_def split: prod.splits)








section \<open>Draining\<close>

definition all_ready :: pcie_in where
  "all_ready = \<lparr>c2h_dsc_byp_ready = True, h2c_dsc_byp_ready = True, c2h_data_ready = True, h2c_data = None,
     reset_dma_write_length_counter = False, reset_dma_read_length_counter = False\<rparr>"

text \<open>Rounds of one call of each module and one edge with a ready PCIe core.\<close>

definition dma_round :: "word512 \<Rightarrow> dma_event list" where
  "dma_round u = [Check_call u, Tlb_call, Pcie_edge all_ready]"

definition drain :: "word512 \<Rightarrow> nat \<Rightarrow> dma_event list" where
  "drain u n = concat (replicate n (dma_round u))"













section \<open>Statistics\<close>

text \<open>The sum of the lengths of descriptors, and the histories in which no length counter is reset.\<close>

definition dsc_bytes :: "(u64 \<times> u32) list \<Rightarrow> nat" where
  "dsc_bytes ds = sum_list (map (\<lambda>d. unat (snd d)) ds)"

lemma dsc_bytes_simps [simp]: "dsc_bytes [] = 0" "dsc_bytes (d # ds) = unat (snd d) + dsc_bytes ds" "dsc_bytes (xs @ ys) = dsc_bytes xs + dsc_bytes ys"
  by (simp_all add: dsc_bytes_def)

definition no_resets :: "dma_event list \<Rightarrow> bool" where
  "no_resets es \<longleftrightarrow> list_all (\<lambda>e. case e of
     Pcie_edge i \<Rightarrow> \<not> reset_dma_write_length_counter i \<and> \<not> reset_dma_read_length_counter i | _ \<Rightarrow> True) es"

definition port_counts :: "u32 \<Rightarrow> u32 \<Rightarrow> u32 \<Rightarrow> u32 \<Rightarrow> (u64 \<times> u32) list \<Rightarrow> dsc_byp \<Rightarrow> word512 list \<Rightarrow> bool" where
  "port_counts cmds loads words pkgs dscs byp data \<longleftrightarrow>
     cmds = of_nat (length (dscs @ taken_dsc byp)) \<and> loads = of_nat (length dscs) \<and>
     words = of_nat (length data) \<and> pkgs = of_nat (length (filter axis_last data))"

definition counts :: "dma_inf \<Rightarrow> bool" where
  "counts s \<longleftrightarrow>
     port_counts (dma_write_cmd_counter (di_counters s)) (di_write_load_counter s) (dma_write_word_counter (di_counters s))
       (dma_write_pkg_counter (di_counters s)) (di_c2h_dsc s) (di_write_byp s) (di_c2h_data s) \<and>
     port_counts (dma_read_cmd_counter (di_counters s)) (di_read_load_counter s) (dma_read_word_counter (di_counters s))
       (dma_read_pkg_counter (di_counters s)) (di_h2c_dsc s) (di_read_byp s) (di_read_data s)"

definition counts_bytes :: "dma_inf \<Rightarrow> bool" where
  "counts_bytes s \<longleftrightarrow>
     dma_write_length_counter (di_counters s) = of_nat (dsc_bytes (di_c2h_dsc s @ taken_dsc (di_write_byp s))) \<and>
     dma_read_length_counter (di_counters s) = of_nat (dsc_bytes (di_h2c_dsc s @ taken_dsc (di_read_byp s)))"

lemma taken_bypass:
  "taken_dsc (bypass cmds ready byp) = (if ready then map dsc_of (take 1 cmds) else [])"
  by (cases cmds) (auto simp: bypass_def taken_dsc_def dsc_of_def)

lemma unat_len: "unat (ucast (l :: 28 word) :: u32) = unat l"
  using unsigned_less [of l, where 'a = nat] by (simp add: unat_ucast_mod)

lemma port_step:
  assumes "port_counts c l w p dscs byp data"
  shows "port_counts (c + of_nat (length (if ready then map dsc_of (take 1 cs) else []))) (if byp_load byp then l + 1 else l)
    (w + of_nat (length new)) (p + of_nat (length (filter axis_last new))) (dscs @ taken_dsc byp) (bypass cs ready byp) (data @ new)"
  using assms by (auto simp: port_counts_def taken_bypass) (auto simp: taken_dsc_def)

lemma pcie_statistics_raw:
  "dma_write_cmd_counter (pcie_statistics i ws rs ds cs) = (if c2h_dsc_byp_ready i \<and> ws \<noteq> [] then dma_write_cmd_counter cs + 1 else dma_write_cmd_counter cs)"
  "dma_write_length_counter (pcie_statistics i ws rs ds cs) = (if reset_dma_write_length_counter i then 0
     else if c2h_dsc_byp_ready i \<and> ws \<noteq> [] then dma_write_length_counter cs + ucast (dma_len (hd ws)) else dma_write_length_counter cs)"
  "dma_write_word_counter (pcie_statistics i ws rs ds cs) = (if c2h_data_ready i \<and> ds \<noteq> [] then dma_write_word_counter cs + 1 else dma_write_word_counter cs)"
  "dma_write_pkg_counter (pcie_statistics i ws rs ds cs) = (if (c2h_data_ready i \<and> ds \<noteq> []) \<and> axis_last (hd ds) then dma_write_pkg_counter cs + 1 else dma_write_pkg_counter cs)"
  "dma_read_cmd_counter (pcie_statistics i ws rs ds cs) = (if h2c_dsc_byp_ready i \<and> rs \<noteq> [] then dma_read_cmd_counter cs + 1 else dma_read_cmd_counter cs)"
  "dma_read_length_counter (pcie_statistics i ws rs ds cs) = (if reset_dma_read_length_counter i then 0
     else if h2c_dsc_byp_ready i \<and> rs \<noteq> [] then dma_read_length_counter cs + ucast (dma_len (hd rs)) else dma_read_length_counter cs)"
  "dma_read_word_counter (pcie_statistics i ws rs ds cs) = (if h2c_data i \<noteq> None then dma_read_word_counter cs + 1 else dma_read_word_counter cs)"
  "dma_read_pkg_counter (pcie_statistics i ws rs ds cs) = (if h2c_data i \<noteq> None \<and> axis_last (the (h2c_data i)) then dma_read_pkg_counter cs + 1 else dma_read_pkg_counter cs)"
  unfolding pcie_statistics_def Let_def
  by (simp_all split del: if_split)

lemma pcie_statistics_fields:
  "dma_write_cmd_counter (pcie_statistics i ws rs ds cs) = dma_write_cmd_counter cs + of_nat (length (if c2h_dsc_byp_ready i then map dsc_of (take 1 ws) else []))"
  "dma_write_word_counter (pcie_statistics i ws rs ds cs) = dma_write_word_counter cs + of_nat (length (if c2h_data_ready i then take 1 ds else []))"
  "dma_write_pkg_counter (pcie_statistics i ws rs ds cs) = dma_write_pkg_counter cs + of_nat (length (filter axis_last (if c2h_data_ready i then take 1 ds else [])))"
  "dma_read_cmd_counter (pcie_statistics i ws rs ds cs) = dma_read_cmd_counter cs + of_nat (length (if h2c_dsc_byp_ready i then map dsc_of (take 1 rs) else []))"
  "dma_read_word_counter (pcie_statistics i ws rs ds cs) = dma_read_word_counter cs + of_nat (length (case h2c_data i of None \<Rightarrow> [] | Some w \<Rightarrow> [w]))"
  "dma_read_pkg_counter (pcie_statistics i ws rs ds cs) = dma_read_pkg_counter cs + of_nat (length (filter axis_last (case h2c_data i of None \<Rightarrow> [] | Some w \<Rightarrow> [w])))"
  unfolding pcie_statistics_raw
  by (cases ws; cases rs; cases ds; cases "h2c_data i"; simp)+

lemma pcie_statistics_lengths:
  assumes "no_resets [Pcie_edge i]"
  shows "dma_write_length_counter (pcie_statistics i ws rs ds cs) = dma_write_length_counter cs + of_nat (dsc_bytes (if c2h_dsc_byp_ready i then map dsc_of (take 1 ws) else []))"
    and "dma_read_length_counter (pcie_statistics i ws rs ds cs) = dma_read_length_counter cs + of_nat (dsc_bytes (if h2c_dsc_byp_ready i then map dsc_of (take 1 rs) else []))"
  using assms unfolding pcie_statistics_raw
  by (cases ws; cases rs; simp add: no_resets_def dsc_of_def unat_len)+

lemma edge_fields:
  "di_counters (pcie_clk_edge i s) =
     pcie_statistics i (m_axis_dma_write_cmd (di_tlb_io s)) (m_axis_dma_read_cmd (di_tlb_io s)) (mwc_dataOut (di_check_io s)) (di_counters s)"
  "di_c2h_dsc (pcie_clk_edge i s) = di_c2h_dsc s @ taken_dsc (di_write_byp s)"
  "di_h2c_dsc (pcie_clk_edge i s) = di_h2c_dsc s @ taken_dsc (di_read_byp s)"
  "di_write_byp (pcie_clk_edge i s) = bypass (m_axis_dma_write_cmd (di_tlb_io s)) (c2h_dsc_byp_ready i) (di_write_byp s)"
  "di_read_byp (pcie_clk_edge i s) = bypass (m_axis_dma_read_cmd (di_tlb_io s)) (h2c_dsc_byp_ready i) (di_read_byp s)"
  "di_c2h_data (pcie_clk_edge i s) = di_c2h_data s @ (if c2h_data_ready i then take 1 (mwc_dataOut (di_check_io s)) else [])"
  "di_read_data (pcie_clk_edge i s) = di_read_data s @ (case h2c_data i of None \<Rightarrow> [] | Some w \<Rightarrow> [w])"
  "di_write_load_counter (pcie_clk_edge i s) = (if byp_load (di_write_byp s) then di_write_load_counter s + 1 else di_write_load_counter s)"
  "di_read_load_counter (pcie_clk_edge i s) = (if byp_load (di_read_byp s) then di_read_load_counter s + 1 else di_read_load_counter s)"
  by (simp_all add: pcie_clk_edge_def Let_def)

lemma pcie_edge_counts: "counts s \<Longrightarrow> counts (pcie_clk_edge i s)"
  unfolding counts_def edge_fields pcie_statistics_fields by (intro conjI port_step) simp_all

lemma pcie_edge_counts_bytes:
  assumes "counts_bytes s" and "no_resets [Pcie_edge i]"
  shows "counts_bytes (pcie_clk_edge i s)"
  using assms(1) unfolding counts_bytes_def edge_fields pcie_statistics_lengths [OF assms(2)] by (simp add: taken_bypass)

lemma dma_inf_step_counts:
  assumes "dma_inf_step e s = Inr s'"
  shows "counts s \<Longrightarrow> counts s'" and "counts_bytes s \<Longrightarrow> no_resets [e] \<Longrightarrow> counts_bytes s'"
proof -
  let ?view = "\<lambda>s. (dma_write_cmd_counter (di_counters s), dma_write_word_counter (di_counters s), dma_write_pkg_counter (di_counters s),
      dma_write_length_counter (di_counters s), dma_read_cmd_counter (di_counters s), dma_read_word_counter (di_counters s),
      dma_read_pkg_counter (di_counters s), dma_read_length_counter (di_counters s), di_c2h_dsc s, di_h2c_dsc s,
      di_write_byp s, di_read_byp s, di_c2h_data s, di_read_data s, di_write_load_counter s, di_read_load_counter s)"
  have same: "?view s' = ?view s" if "\<forall>i. e \<noteq> Pcie_edge i"
    using assms that
    by (cases e) (auto simp: tlb_transfer_def check_call_def tlb_call_def Let_def split: list.splits if_splits sum.splits prod.splits)
  show "counts s \<Longrightarrow> counts s'"
    using same assms pcie_edge_counts by (cases e) (auto simp: counts_def)
  show "counts_bytes s \<Longrightarrow> no_resets [e] \<Longrightarrow> counts_bytes s'"
    using same assms pcie_edge_counts_bytes by (cases e) (auto simp: counts_bytes_def)
qed

lemma dma_inf_run_counts:
  "dma_inf_run es s = Inr s' \<Longrightarrow> (counts s \<longrightarrow> counts s') \<and> (counts_bytes s \<longrightarrow> no_resets es \<longrightarrow> counts_bytes s')"
proof (induction es arbitrary: s)
  case (Cons e es)
  then obtain s1 where s1: "dma_inf_step e s = Inr s1" "dma_inf_run es s1 = Inr s'" by (auto split: sum.splits)
  from dma_inf_step_counts [OF s1(1)] Cons(1) [OF s1(2)] show ?case by (auto simp: no_resets_def)
qed simp

section \<open>The base of the page-boundary check\<close>

lemma mod_diff_word:
  fixes a b b' :: u64
  assumes "unat b mod page_bytes = unat b' mod page_bytes"
  shows "unat (a - b) mod page_bytes = unat (a - b') mod page_bytes"
proof -
  have m: "int (unat (a - x)) mod int page_bytes = (uint a - uint x) mod int page_bytes" for x :: u64
  proof -
    have "int (unat (a - x)) = (uint a - uint x) mod 2 ^ 64" by (simp add: uint_word_ariths)
    moreover have "int page_bytes dvd 2 ^ 64" by (simp add: dvd_def)
    ultimately show ?thesis by (simp only: mod_mod_cancel)
  qed
  from assms have "uint b mod int page_bytes = uint b' mod int page_bytes" by (metis uint_nat zmod_int)
  then have "int (unat (a - b)) mod int page_bytes = int (unat (a - b')) mod int page_bytes" unfolding m by (rule mod_diff_cong [OF refl])
  then show ?thesis by (metis of_nat_eq_iff zmod_int)
qed

lemma split_cmd_same_pages:
  assumes "unat (b :: u48) mod page_bytes = unat b' mod page_bytes"
  shows "split_cmd b = split_cmd b'" and "crosses b = crosses b'" and "cmd_offset b = cmd_offset b'"
proof -
  have "unat (ucast b :: u64) mod page_bytes = unat (ucast b' :: u64) mod page_bytes"
    using assms unsigned_less [of b, where 'a = nat] unsigned_less [of b', where 'a = nat] by (simp add: unat_ucast_mod)
  from mod_diff_word [OF this] show o: "cmd_offset b = cmd_offset b'" by (simp add: cmd_offset_def fun_eq_iff)
  then show c: "crosses b = crosses b'" by (simp add: crosses_def fun_eq_iff)
  show "split_cmd b = split_cmd b'" by (simp add: split_cmd_def split_point_def fun_eq_iff o c)
qed

lemma tlb_transfer_mappings:
  "(\<forall>m \<in> set ms. \<not> map_isBase m) \<Longrightarrow> di_tlb_cc s = ms @ rest \<Longrightarrow>
   (tlb_transfer ^^ length ms) s = s\<lparr>di_tlb_cc := rest, di_tlb_io := (di_tlb_io s)\<lparr>s_axis_tlb_interface := s_axis_tlb_interface (di_tlb_io s) @ ms\<rparr>\<rparr>"
proof (induction ms arbitrary: s)
  case (Cons m ms)
  have "tlb_transfer s = s\<lparr>di_tlb_cc := ms @ rest, di_tlb_io := (di_tlb_io s)\<lparr>s_axis_tlb_interface := s_axis_tlb_interface (di_tlb_io s) @ [m]\<rparr>\<rparr>"
    using Cons(2,3) by (simp add: tlb_transfer_def)
  then show ?case using Cons(1) [of "tlb_transfer s"] Cons(2) by (simp add: funpow_Suc_right del: funpow.simps)
qed simp

section \<open>Pieces and pages\<close>

lemma translation_offset:
  assumes "translation st x = Some p" and "unat (x - base_vaddr st) mod page_bytes + k < page_bytes"
  shows "translation st (x + of_nat k) = Some (p + of_nat k)"
proof -
  let ?a = "unat (x - base_vaddr st)"
  let ?i = "?a div page_bytes" and ?o = "?a mod page_bytes"
  have i: "?i < 16384" using assms(1) by (simp add: translation_def Let_def split: if_splits)
  have "?i * page_bytes + ?o = ?a" by simp
  then have x: "x = page_addr (base_vaddr st) ?i ?o" by (simp only: page_addr_def) simp
  have "?o < page_bytes" by simp
  from translation_page [OF i this, of st] x assms(1) have p: "p = tlb_page st ?i + of_nat ?o" by simp
  have "x + of_nat k = page_addr (base_vaddr st) ?i (?o + k)" by (subst x) (simp add: page_addr_def)
  then show ?thesis using translation_page [OF i assms(2), of st] p by simp
qed

lemma split_cmd_range:
  assumes "p \<in> set (split_cmd base c)" and "unat (cmd_addr c) + unat (cmd_len c) < 2 ^ 64"
  shows "unat (cmd_addr c) \<le> unat (cmd_addr p) \<and> unat (cmd_addr p) + unat (cmd_len p) \<le> unat (cmd_addr c) + unat (cmd_len c) \<and>
    (0 < unat (cmd_len c) \<longrightarrow> 0 < unat (cmd_len p))"
proof (cases "crosses base c")
  case True
  let ?p = "split_point base c"
  have lt: "?p < unat (cmd_len c)" using True by (simp add: crosses_split_point)
  then have "unat (cmd_len c - of_nat ?p) = unat (cmd_len c) - ?p" by (simp add: unat_sub word_le_nat_alt)
  moreover have "unat (cmd_addr c + of_nat ?p) = unat (cmd_addr c) + ?p"
    using assms(2) lt by (simp add: unat_word_ariths)
  ultimately show ?thesis using assms(1) True lt split_point_range [of base c] by (auto simp: split_cmd_def)
qed (use assms in \<open>simp add: split_cmd_def\<close>)

text \<open>The host's mappings reach the TLB: sent, transferred and installed, one after the other.\<close>

lemma run_host_mappings:
  "dma_inf_run (map Host_mapping ms) s = Inr (s\<lparr>di_tlb_cc := di_tlb_cc s @ ms\<rparr>)"
  by (induction ms arbitrary: s) simp_all

lemma run_tlb_transfers: "dma_inf_run (replicate n Tlb_transfer) s = Inr ((tlb_transfer ^^ n) s)"
  by (induction n arbitrary: s) (simp_all add: funpow_swap1)

lemma run_tlb_calls:
  "tlb_calls n (di_tlb s) (di_tlb_io s) = Inr (st, io) \<Longrightarrow>
   \<exists>cs. dma_inf_run (replicate n Tlb_call) s = Inr (s\<lparr>di_tlb := st, di_tlb_io := io, di_counters := cs\<rparr>)"
proof (induction n arbitrary: s)
  case 0
  then show ?case by (intro exI [of _ "di_counters s"]) simp
next
  case (Suc n)
  then obtain st1 io1 where t: "tlb (di_tlb s) (di_tlb_io s) = Inr (st1, io1)" "tlb_calls n st1 io1 = Inr (st, io)"
    by (auto split: sum.splits)
  then obtain cs1 where s1: "tlb_call s = Inr (s\<lparr>di_tlb := st1, di_tlb_io := io1, di_counters := cs1\<rparr>)"
    by (simp add: tlb_call_def)
  from Suc.IH [of "s\<lparr>di_tlb := st1, di_tlb_io := io1, di_counters := cs1\<rparr>"] t(2) s1 show ?case by simp
qed

definition install_events :: "tlbMapping list \<Rightarrow> dma_event list" where
  "install_events ms = map Host_mapping ms @ replicate (length ms) Tlb_transfer @ replicate (length ms) Tlb_call"

lemma install_region:
  assumes "dma_inf_idle s" and "ps \<noteq> []" and "length ps \<le> 16384"
  shows "\<exists>s'. dma_inf_run (install_events (region_mappings base ps)) s = Inr s' \<and> dma_inf_idle s' \<and>
    di_tlb s' = tlb_fill ((di_tlb s)\<lparr>base_vaddr := base\<rparr>) ps (length ps) \<and> regBaseVaddrBoundCheck s' = regBaseVaddr s"
proof -
  let ?ms = "region_mappings base ps"
  have len: "length ?ms = length ps" by (simp add: region_mappings_def)
  let ?s0 = "s\<lparr>di_tlb_cc := ?ms\<rparr>" and ?io = "(di_tlb_io s)\<lparr>s_axis_tlb_interface := ?ms\<rparr>"
  from assms(1) have cc: "di_tlb_cc s = []" "s_axis_tlb_interface (di_tlb_io s) = []" by (simp_all add: dma_inf_idle_def)
  obtain m ms where ms: "?ms = m # ms" "map_isBase m" "\<forall>m \<in> set ms. \<not> map_isBase m"
    using assms(2) by (cases ps) (auto simp: region_mappings_def upt_conv_Cons simp del: upt_Suc)
  let ?s1 = "(tlb_transfer ^^ length ps) ?s0"
  have s0: "tlb_transfer (s\<lparr>di_tlb_cc := m # ms\<rparr>) = s\<lparr>di_tlb_cc := ms, di_tlb_io := (di_tlb_io s)\<lparr>s_axis_tlb_interface := [m]\<rparr>,
      regBaseVaddr := ucast (map_vaddr m), regBaseVaddrBoundCheck := regBaseVaddr s\<rparr>"
    using ms cc by (simp add: tlb_transfer_def)
  have "?s1 = (tlb_transfer ^^ length ms) (tlb_transfer ?s0)" using len ms(1) by (simp add: funpow_Suc_right del: funpow.simps flip: len)
  then have s1: "?s1 = s\<lparr>di_tlb_cc := [], di_tlb_io := ?io, regBaseVaddr := ucast (map_vaddr m), regBaseVaddrBoundCheck := regBaseVaddr s\<rparr>"
    using tlb_transfer_mappings [OF ms(3), of "tlb_transfer ?s0" "[]"] ms(1) cc by (simp add: s0)
  have "no_commands ?io" using assms(1) by (simp add: dma_inf_idle_def no_commands_def)
  from tlb_region_prefix [OF this _ assms(3) order_refl, of base "di_tlb s"] assms(2) len
  have "tlb_calls (length ps) (di_tlb ?s1) (di_tlb_io ?s1) = Inr (tlb_fill ((di_tlb s)\<lparr>base_vaddr := base\<rparr>) ps (length ps), di_tlb_io s)"
    by (simp add: s1 cc(2) [symmetric])
  from run_tlb_calls [OF this] obtain cs where
    s2: "dma_inf_run (replicate (length ps) Tlb_call) ?s1 =
      Inr (?s1\<lparr>di_tlb := tlb_fill ((di_tlb s)\<lparr>base_vaddr := base\<rparr>) ps (length ps), di_tlb_io := di_tlb_io s, di_counters := cs\<rparr>)" by blast
  then show ?thesis
    using assms(1) cc
    by (simp add: install_events_def dma_inf_run_append run_host_mappings run_tlb_transfers len) (simp add: s1 dma_inf_idle_def)
qed

section \<open>Properties\<close>

text \<open>C8. Every history of the module from an idle state, in which the host sends no mapping and every piece of a
  write command and every read command starts at an address the TLB translates: no module fails,
  and at every moment the descriptors the PCIe core has taken are, for each direction, the first ones of the
  translated pieces (for reads, commands), in the order of the commands and with no descriptor
  lost, repeated or changed, whatever the order of the events and the pattern of stalls.\<close>

theorem dma_inf_descriptors:
  assumes "dma_inf_idle s" and "no_mappings es"
    and "\<forall>c \<in> set (concat (map (split_cmd (regBaseVaddrBoundCheck s)) (write_cmds es))) \<union> set (read_cmds es).
      translation (di_tlb s) (cmd_addr c) \<noteq> None"
  shows "\<exists>s' rw rr. dma_inf_run es s = Inr s' \<and>
    map (descriptor (translation (di_tlb s))) (concat (map (split_cmd (regBaseVaddrBoundCheck s)) (write_cmds es))) = di_c2h_dsc s' @ rw \<and>
    map (descriptor (translation (di_tlb s))) (read_cmds es) = di_h2c_dsc s' @ rr"
proof -
  let ?base = "regBaseVaddrBoundCheck s" and ?tr = "translation (di_tlb s)"
  from dma_inf_run_flow [OF idle_flow [OF assms(1)] assms(2)] assms(3) obtain s' ps where
    s': "dma_inf_run es s = Inr s'" "tables_fixed ?base ?tr s'" "write_flow ?tr (write_cmds es) ps s'" "read_flow ?tr (read_cmds es) s'"
    by auto
  then show ?thesis using write_flow_prefix [OF s'(2,3)] read_flow_prefix [OF s'(4)] by blast
qed


text \<open>Witnesses: a TLB with two pages, a write across their boundary and a read.\<close>

definition example_tlb :: tlb_state where
  "example_tlb = tlb_init\<lparr>tlb_table := (\<lambda>_. 0)(0 := 0x40000000, 1 := 0x80000000)\<rparr>"

definition example_counters :: dma_counters where
  "example_counters = \<lparr>dma_write_cmd_counter = 0, dma_write_word_counter = 0, dma_write_pkg_counter = 0, dma_write_length_counter = 0,
     dma_read_cmd_counter = 0, dma_read_word_counter = 0, dma_read_pkg_counter = 0, dma_read_length_counter = 0,
     tlb_miss_counter = 0, tlb_boundary_crossing_counter = 0, dma_reads_flushed = False\<rparr>"

definition example_dma :: dma_inf where
  "example_dma = \<lparr>regBaseVaddr = 0, regBaseVaddrBoundCheck = 0, di_tlb_cc = [], di_check = example_static, di_check_io = mwc_start [] [],
     di_tlb = example_tlb, di_tlb_io = example_io\<lparr>s_axis_tlb_interface := []\<rparr>,
     di_write_byp = \<lparr>byp_load = False, byp_addr = 0, byp_len = 0\<rparr>, di_read_byp = \<lparr>byp_load = False, byp_addr = 0, byp_len = 0\<rparr>,
     di_c2h_dsc = [], di_h2c_dsc = [], di_c2h_data = [], di_read_data = [], di_write_load_counter = 0, di_read_load_counter = 0,
     di_counters = example_counters\<rparr>"

definition example_read :: memCmd where
  "example_read = \<lparr>cmd_addr = 0x10, cmd_len = 8\<rparr>"

lemma example_dma_ready:
  "dma_inf_idle example_dma" "regBaseVaddrBoundCheck example_dma = 0" "di_tlb example_dma = example_tlb"
  by (simp_all add: dma_inf_idle_def example_dma_def example_static_def mwc_init_def mwc_start_def example_io_def no_commands_def)


lemma example_split: "split_cmd 0 example_cmd = [\<lparr>cmd_addr = 0x1FFFF0, cmd_len = 16\<rparr>, \<lparr>cmd_addr = 0x200000, cmd_len = 16\<rparr>]"
  by (simp only: split_cmd_def example_crosses if_True) (simp add: example_cmd_def)

lemma example_translation:
  "translation example_tlb 0x1FFFF0 = Some 0x401FFFF0" "translation example_tlb 0x200000 = Some 0x80000000" "translation example_tlb 0x10 = Some 0x40000010"
  by (simp_all add: translation_def example_tlb_def tlb_init_def)

lemma example_translated:
  "\<forall>c \<in> set (concat (map (split_cmd (regBaseVaddrBoundCheck example_dma)) [example_cmd])) \<union> set [example_read].
     translation (di_tlb example_dma) (cmd_addr c) \<noteq> None"
  by (simp add: example_dma_ready example_split example_translation example_read_def)

lemma example_descriptors:
  "map (descriptor (translation example_tlb)) (concat (map (split_cmd 0) [example_cmd])) = [(0x401FFFF0, 16), (0x80000000, 16)]"
  "map (descriptor (translation example_tlb)) [example_read] = [(0x40000010, 8)]"
  by (simp_all add: descriptor_def example_split example_translation example_read_def)

theorem dma_inf_descriptors_witness:
  "\<exists>s' rw rr. dma_inf_run [Write_cmd example_cmd, Tlb_call, Check_call example_word, Read_cmd example_read, Tlb_call, Pcie_edge all_ready] example_dma = Inr s' \<and>
     [(0x401FFFF0, 16), (0x80000000, 16)] = di_c2h_dsc s' @ rw \<and> [(0x40000010, 8)] = di_h2c_dsc s' @ rr"
  using dma_inf_descriptors [OF example_dma_ready(1),
      of "[Write_cmd example_cmd, Tlb_call, Check_call example_word, Read_cmd example_read, Tlb_call, Pcie_edge all_ready]"]
    example_translated example_descriptors
  by (simp add: no_mappings_def example_dma_ready)


text \<open>C14. The statistics that the host reads: in every history of the module from its reset (failing histories
  apart, mappings included) the counters of both directions are, modulo their width, the number of
  descriptors, of data words and of packets that have passed, and as long as no length counter is
  reset the length counters are the bytes of the descriptors passed.\<close>

theorem dma_statistics_count:
  assumes "dma_inf_run es s = Inr s'" and "counts s" and "counts_bytes s"
  shows "dma_write_cmd_counter (di_counters s') = of_nat (length (di_c2h_dsc s' @ taken_dsc (di_write_byp s'))) \<and>
    dma_write_word_counter (di_counters s') = of_nat (length (di_c2h_data s')) \<and>
    dma_write_pkg_counter (di_counters s') = of_nat (length (filter axis_last (di_c2h_data s'))) \<and>
    dma_read_cmd_counter (di_counters s') = of_nat (length (di_h2c_dsc s' @ taken_dsc (di_read_byp s'))) \<and>
    dma_read_word_counter (di_counters s') = of_nat (length (di_read_data s')) \<and>
    dma_read_pkg_counter (di_counters s') = of_nat (length (filter axis_last (di_read_data s'))) \<and>
    (no_resets es \<longrightarrow>
      dma_write_length_counter (di_counters s') = of_nat (dsc_bytes (di_c2h_dsc s' @ taken_dsc (di_write_byp s'))) \<and>
      dma_read_length_counter (di_counters s') = of_nat (dsc_bytes (di_h2c_dsc s' @ taken_dsc (di_read_byp s'))))"
  using dma_inf_run_counts [OF assms(1)] assms(2,3) by (simp add: counts_def counts_bytes_def port_counts_def)

theorem dma_statistics_count_witness:
  "\<exists>s'. dma_inf_run ([Write_cmd example_cmd, Read_cmd example_read] @ drain example_word 4) example_dma = Inr s' \<and>
     dma_write_cmd_counter (di_counters s') = of_nat (length (di_c2h_dsc s' @ taken_dsc (di_write_byp s'))) \<and>
     dma_write_length_counter (di_counters s') = of_nat (dsc_bytes (di_c2h_dsc s' @ taken_dsc (di_write_byp s')))"
proof -
  let ?es = "[Write_cmd example_cmd, Read_cmd example_read] @ drain example_word 4"
  have "no_mappings ?es" "write_cmds ?es = [example_cmd]" "read_cmds ?es = [example_read]" "no_resets ?es"
    by (simp_all add: no_mappings_def no_resets_def drain_def dma_round_def all_ready_def numeral_eq_Suc)
  with dma_inf_run_flow [OF idle_flow [OF example_dma_ready(1)], of ?es] example_translated obtain s' where s': "dma_inf_run ?es example_dma = Inr s'"
    by auto
  have "counts example_dma" "counts_bytes example_dma"
    by (simp_all add: counts_def port_counts_def counts_bytes_def example_dma_def example_counters_def taken_dsc_def)
  from dma_statistics_count [OF s' this] s' \<open>no_resets ?es\<close> show ?thesis by blast
qed

text \<open>Two calls of an idle check on one waiting command: the TLB gets the pieces of the command counted from the
  base in \<open>regBaseVaddrBoundCheck\<close>.\<close>

definition check_waits_for :: "memCmd \<Rightarrow> dma_inf \<Rightarrow> bool" where
  "check_waits_for c s \<longleftrightarrow> mwc_cmdIn (di_check_io s) = [c] \<and> mwc_cmdOut (di_check_io s) = [] \<and> mwc_pageOffsetFifo (di_check s) = [] \<and>
     bc_state (mwc_bc (di_check s)) = CMD \<and> length (mwc_metaFifo (di_check s)) < metaFifo_depth"

lemma check_call_tlb:
  assumes "mwc_cmdOut (di_check_io s) = []" and "mwc_pageOffsetFifo (di_check s) = []"
    and "boundary_check_stage (di_check s) (map (ic_of (regBaseVaddrBoundCheck s)) (take 1 (mwc_cmdIn (di_check_io s)))) = (bc, fifo, out, metas)"
  shows "s_axis_mem_write_cmd (di_tlb_io (check_call u s)) = s_axis_mem_write_cmd (di_tlb_io s) @ out \<and>
    mwc_cmdIn (di_check_io (check_call u s)) = drop 1 (mwc_cmdIn (di_check_io s)) \<and>
    mwc_pageOffsetFifo (di_check (check_call u s)) = fifo \<and> mwc_bc (di_check (check_call u s)) = bc"
proof -
  have "offset_room (di_check s) = 1" using assms(2) by (simp add: offset_room_def pageOffsetFifo_depth_def)
  then show ?thesis using assms by (auto simp: check_call_def pipeline_step Let_def split: prod.splits)
qed

lemma check_two_calls:
  assumes "check_waits_for c s"
  shows "s_axis_mem_write_cmd (di_tlb_io (check_call v (check_call u s))) =
    s_axis_mem_write_cmd (di_tlb_io s) @ split_cmd (regBaseVaddrBoundCheck s) c"
proof -
  let ?b = "regBaseVaddrBoundCheck s" and ?s = "check_call u s"
  from assms have w: "mwc_cmdIn (di_check_io s) = [c]" "mwc_cmdOut (di_check_io s) = []" "mwc_pageOffsetFifo (di_check s) = []"
    "bc_state (mwc_bc (di_check s)) = CMD" "\<not> bc_blocked (di_check s)" by (simp_all add: check_waits_for_def bc_blocked_def)
  from boundary_check_CMD [OF w(4), of ?b c "[]"] obtain bc where
    bc: "boundary_check_stage (di_check s) [ic_of ?b c] = (bc, [], [hd (split_cmd ?b c)], [cmd_meta ?b c])" "split_cmd ?b c = [hd (split_cmd ?b c)] @ bc_pending bc"
    using w(5) by (auto simp: boundary_check_stage_def bc_pending_def split: if_splits)
  from check_call_tlb [OF w(2,3), of bc "[]" "[hd (split_cmd ?b c)]" "[cmd_meta ?b c]" u] bc(1) w(1) have
    s: "s_axis_mem_write_cmd (di_tlb_io ?s) = s_axis_mem_write_cmd (di_tlb_io s) @ [hd (split_cmd ?b c)]" "mwc_cmdIn (di_check_io ?s) = []"
      "mwc_pageOffsetFifo (di_check ?s) = []" "mwc_bc (di_check ?s) = bc" by simp_all
  obtain bc2 fifo2 metas2 where "boundary_check_stage (di_check ?s) [] = (bc2, fifo2, bc_pending bc, metas2)"
    by (cases "bc_state bc") (auto simp: boundary_check_stage_def bc_blocked_def s(4) boundary_check_idle boundary_check_CMD_SPLIT bc_pending_def)
  with check_call_tlb [OF check_call_frame(3) s(3), of bc2 fifo2 "bc_pending bc" metas2 v] s(1,2) bc(2) show ?thesis by simp
qed

text \<open>Bases that agree modulo the page size make no difference to the check.\<close>

lemma check_call_same_pages:
  assumes "unat b mod page_bytes = unat (regBaseVaddrBoundCheck s) mod page_bytes"
  shows "check_call u (s\<lparr>regBaseVaddrBoundCheck := b\<rparr>) = (check_call u s)\<lparr>regBaseVaddrBoundCheck := b\<rparr>"
proof -
  have "ic_of b = ic_of (regBaseVaddrBoundCheck s)" using split_cmd_same_pages(3) [OF assms] by (simp add: ic_of_def fun_eq_iff)
  then have "mem_write_cmd_page_boundary_check_512 u b c = mem_write_cmd_page_boundary_check_512 u (regBaseVaddrBoundCheck s) c" for c
    by (simp add: pipeline_step)
  then show ?thesis by (simp add: check_call_def split: prod.splits)
qed

text \<open>C15. The page-boundary check does not work with the base of the current region. After the mappings
  of a region have been transferred, \<open>regBaseVaddr\<close> holds its base, but the check is called with the base of the region before, or with
  the power-up value of the register for the first region. What two calls of the check pass to the TLB for a waiting command are its pieces
  counted from that old base, so that a command that crosses a page of the region, but none counted from the old
  base, goes to the TLB in one piece. As long as both bases are multiples of 2 MB the difference is without
  effect: a call of the check does the same with the base of the region in its register.\<close>

theorem base_register_lags:
  assumes "di_tlb_cc s = region_mappings base ps" and "ps \<noteq> []" and "s' = (tlb_transfer ^^ length ps) s" and "check_waits_for c s"
  shows "regBaseVaddr s' = ucast base \<and> regBaseVaddrBoundCheck s' = regBaseVaddr s \<and>
    s_axis_mem_write_cmd (di_tlb_io (check_call v (check_call u s'))) = s_axis_mem_write_cmd (di_tlb_io s) @ split_cmd (regBaseVaddr s) c \<and>
    (crosses (ucast base) c \<longrightarrow> \<not> crosses (regBaseVaddr s) c \<longrightarrow>
      s_axis_mem_write_cmd (di_tlb_io (check_call v (check_call u s'))) = s_axis_mem_write_cmd (di_tlb_io s) @ [c]) \<and>
    (unat (regBaseVaddr s) mod page_bytes = 0 \<longrightarrow> unat base mod page_bytes = 0 \<longrightarrow>
      check_call u (s'\<lparr>regBaseVaddrBoundCheck := ucast base\<rparr>) = (check_call u s')\<lparr>regBaseVaddrBoundCheck := ucast base\<rparr>)"
proof -
  let ?ms = "region_mappings base ps"
  have l: "length ps = Suc (length (tl ?ms))" "?ms = hd ?ms # tl ?ms" "map_isBase (hd ?ms)" "map_vaddr (hd ?ms) = base"
    using assms(2) by (cases ps; simp add: region_mappings_def page_addr_def upt_conv_Cons del: upt_Suc)+
  have nb: "\<forall>m \<in> set (tl ?ms). \<not> map_isBase m"
    using assms(2) by (cases ps) (auto simp: region_mappings_def upt_conv_Cons simp del: upt_Suc)
  let ?s = "tlb_transfer s"
  have s: "di_tlb_cc ?s = tl ?ms @ []" "regBaseVaddr ?s = ucast base" "regBaseVaddrBoundCheck ?s = regBaseVaddr s"
    "di_check ?s = di_check s" "di_check_io ?s = di_check_io s" "s_axis_mem_write_cmd (di_tlb_io ?s) = s_axis_mem_write_cmd (di_tlb_io s)"
    using assms(1) l(2-4) by (cases ?ms; simp add: tlb_transfer_def)+
  have "s' = (tlb_transfer ^^ length (tl ?ms)) ?s" using assms(3) l(1) by (simp add: funpow_Suc_right del: funpow.simps)
  then have r: "regBaseVaddr s' = ucast base" "regBaseVaddrBoundCheck s' = regBaseVaddr s" "di_check s' = di_check s" "di_check_io s' = di_check_io s"
      "s_axis_mem_write_cmd (di_tlb_io s') = s_axis_mem_write_cmd (di_tlb_io s)"
    using tlb_transfer_mappings [OF nb s(1)] s(2-6) by simp_all
  have "check_waits_for c s'" using assms(4) by (simp add: check_waits_for_def r)
  from check_two_calls [OF this, of v u] have calls:
    "s_axis_mem_write_cmd (di_tlb_io (check_call v (check_call u s'))) = s_axis_mem_write_cmd (di_tlb_io s) @ split_cmd (regBaseVaddr s) c" by (simp add: r)
  have "unat (ucast base :: u48) mod page_bytes = unat base mod page_bytes"
    by (simp add: unat_ucast_mod mod_mod_cancel dvd_def)
  then have "unat (regBaseVaddr s) mod page_bytes = 0 \<longrightarrow> unat base mod page_bytes = 0 \<longrightarrow>
      check_call u (s'\<lparr>regBaseVaddrBoundCheck := ucast base\<rparr>) = (check_call u s')\<lparr>regBaseVaddrBoundCheck := ucast base\<rparr>"
    using check_call_same_pages [of "ucast base" s' u] by (simp add: r(2))
  with r(1,2) calls show ?thesis by (auto simp: split_cmd_def)
qed

theorem base_register_lags_witness:
  "\<exists>s s'. di_tlb_cc s = region_mappings 0x1000 [0x40000000, 0x80000000] \<and> s' = (tlb_transfer ^^ length [0x40000000 :: u64, 0x80000000]) s \<and>
     crosses (ucast (0x1000 :: u64)) \<lparr>cmd_addr = 0x200FF0, cmd_len = 32\<rparr> \<and>
     s_axis_mem_write_cmd (di_tlb_io (check_call example_word (check_call example_word s'))) = [\<lparr>cmd_addr = 0x200FF0, cmd_len = 32\<rparr>]"
proof -
  let ?c = "\<lparr>cmd_addr = 0x200FF0, cmd_len = 32\<rparr>"
  let ?s = "example_dma\<lparr>di_tlb_cc := region_mappings 0x1000 [0x40000000, 0x80000000], di_check_io := mwc_start [?c] []\<rparr>"
  have c: "crosses (ucast (0x1000 :: u64)) ?c" "\<not> crosses (regBaseVaddr ?s) ?c" "s_axis_mem_write_cmd (di_tlb_io ?s) = []"
    by (simp_all add: crosses_def cmd_offset_def example_dma_def example_io_def)
  have m: "di_tlb_cc ?s = region_mappings 0x1000 [0x40000000, 0x80000000]" "[0x40000000 :: u64, 0x80000000] \<noteq> []" by simp_all
  have w: "check_waits_for ?c ?s"
    by (simp add: check_waits_for_def mwc_start_def example_dma_def example_static_def mwc_init_def metaFifo_depth_def)
  from base_register_lags [OF m refl w, of example_word example_word] c(1,2)
  have "s_axis_mem_write_cmd (di_tlb_io (check_call example_word (check_call example_word ((tlb_transfer ^^ length [0x40000000 :: u64, 0x80000000]) ?s)))) =
      s_axis_mem_write_cmd (di_tlb_io ?s) @ [?c]" by blast
  then show ?thesis using m(1) c(1) unfolding c(3) append_Nil by blast
qed

end
