(* ===== verification/Benchmark_Role.thy ===== *)
theory Benchmark_Role
  imports Register_Controllers
begin

text \<open>
  \<^verbatim>\<open>hdl/common/benchmark_role.sv\<close>: the role between the benchmark controller and the benchmark
  engines. It keeps the parameters of the last request, starts the engine, one for DMA and one per DDR
  channel, and keeps the execution cycles the engine reports.

  \<open>dma_role_edge\<close> and \<open>ddr_role_edge\<close> are the two blocks clocked by \<open>user_clk\<close>, out of
  reset. Assignments are non-blocking: every right-hand side refers to the state before the edge, and
  of two assignments to a register the later one counts. The arguments are the request that is valid in this
  cycle and the cycles that an engine reports in this cycle.

  The lemmas show that a request starts its engine for exactly one cycle and holds the parameters
  until the next one, which is the sequence of inputs the statements about runs of the engine
  assume, and which requests start no engine at all.
\<close>

section \<open>The blocks\<close>

record bench_role =
  bench_cmd_ready :: bool
  bench_regs_of :: bench_regs
  bench_execution_cycles :: u64
  runBench :: bool
  debug_cycle_counter :: u32

record ddr_role = bench_role +
  ddrBenchStart :: "bool \<times> bool"

text \<open>The assignments the two blocks share, without the start signals.\<close>

definition take_request :: "bench_regs option \<Rightarrow> ('a bench_role_scheme) \<Rightarrow> 'a bench_role_scheme" where
  "take_request cmd s =
     (case cmd of
        Some r \<Rightarrow> if bench_cmd_ready s
          then s\<lparr>bench_cmd_ready := True, bench_regs_of := r\<lparr>start := False\<rparr>, bench_execution_cycles := 0, debug_cycle_counter := 0, runBench := True\<rparr>
          else s\<lparr>bench_cmd_ready := True\<rparr>
      | None \<Rightarrow> s\<lparr>bench_cmd_ready := True\<rparr>)"

definition count_cycle :: "bool \<Rightarrow> u32 \<Rightarrow> ('a bench_role_scheme) \<Rightarrow> 'a bench_role_scheme" where
  "count_cycle run n s = (if run then s\<lparr>debug_cycle_counter := n + 1\<rparr> else s)"

definition take_cycles :: "u64 option \<Rightarrow> ('a bench_role_scheme) \<Rightarrow> 'a bench_role_scheme" where
  "take_cycles cycles s = (case cycles of Some c \<Rightarrow> s\<lparr>bench_execution_cycles := c, runBench := False\<rparr> | None \<Rightarrow> s)"

definition dma_role_edge :: "bench_regs option \<Rightarrow> u64 option \<Rightarrow> bench_role \<Rightarrow> bench_role" where
  "dma_role_edge cmd cycles s =
     (let s1 = take_request cmd (s\<lparr>bench_regs_of := (bench_regs_of s)\<lparr>start := False\<rparr>\<rparr>);
          s2 = (if cmd \<noteq> None \<and> bench_cmd_ready s then s1\<lparr>bench_regs_of := (bench_regs_of s1)\<lparr>start := True\<rparr>\<rparr> else s1)
      in take_cycles cycles (count_cycle (runBench s) (debug_cycle_counter s) s2))"

text \<open>Only the destinations 0 and 1 have a case.\<close>

definition ddr_role_edge :: "bench_cmd option \<Rightarrow> u64 option \<Rightarrow> u64 option \<Rightarrow> ddr_role \<Rightarrow> ddr_role" where
  "ddr_role_edge cmd cycles0 cycles1 s =
     (let s1 = take_request (map_option bcmd_regs cmd) (s\<lparr>ddrBenchStart := (False, False)\<rparr>);
          s2 = (case cmd of None \<Rightarrow> s1 | Some c \<Rightarrow>
             if bench_cmd_ready s
             then s1\<lparr>ddrBenchStart := (if bcmd_dest c = 0 then (True, False) else if bcmd_dest c = 1 then (False, True) else (False, False))\<rparr>
             else s1)
      in take_cycles cycles1 (take_cycles cycles0 (count_cycle (runBench s) (debug_cycle_counter s) s2)))"

text \<open>The registers that the engine sees after each edge of a list of inputs.\<close>

fun dma_role_outputs :: "(bench_regs option \<times> u64 option) list \<Rightarrow> bench_role \<Rightarrow> bench_regs list" where
  "dma_role_outputs [] s = []"
| "dma_role_outputs ((cmd, cycles) # ins) s =
     (let s' = dma_role_edge cmd cycles s in bench_regs_of s' # dma_role_outputs ins s')"

fun ddr_role_outputs :: "(bench_cmd option \<times> u64 option \<times> u64 option) list \<Rightarrow> ddr_role \<Rightarrow> (bench_regs \<times> (bool \<times> bool) \<times> u64) list" where
  "ddr_role_outputs [] s = []"
| "ddr_role_outputs ((cmd, c0, c1) # ins) s =
     (let s' = ddr_role_edge cmd c0 c1 s in (bench_regs_of s', ddrBenchStart s', bench_execution_cycles s') # ddr_role_outputs ins s')"

section \<open>Runs\<close>

lemma dma_role_hold:
  assumes "bench_cmd_ready s"
  shows "dma_role_outputs (map (\<lambda>c. (None, c)) cs) s = replicate (length cs) ((bench_regs_of s)\<lparr>start := False\<rparr>)"
  using assms
proof (induction cs arbitrary: s)
  case (Cons c cs)
  let ?s = "dma_role_edge None c s"
  have "bench_regs_of ?s = (bench_regs_of s)\<lparr>start := False\<rparr>" "bench_cmd_ready ?s"
    by (simp_all add: dma_role_edge_def take_request_def count_cycle_def take_cycles_def Let_def split: option.split)
  then show ?case using Cons(1) [of ?s] by simp
qed simp

text \<open>A request that the role accepts is what the engine sees: its start flag is set in the next cycle
  and only there, and its parameters stay until the next request, whatever cycles the engine reports
  meanwhile.\<close>

theorem role_starts_engine_once:
  assumes "bench_cmd_ready s" and "start r"
  shows "dma_role_outputs ((Some r, c) # map (\<lambda>c. (None, c)) cs) s = r # replicate (length cs) (r\<lparr>start := False\<rparr>)"
proof -
  let ?s = "dma_role_edge (Some r) c s"
  have "bench_regs_of ?s = r" "bench_cmd_ready ?s"
    using assms by (cases r; simp add: dma_role_edge_def take_request_def count_cycle_def take_cycles_def Let_def split: option.split)+
  then show ?thesis using dma_role_hold [of ?s cs] by simp
qed

definition example_role :: bench_role where
  "example_role = \<lparr>bench_cmd_ready = True, bench_regs_of = example_regs, bench_execution_cycles = 7, runBench = False, debug_cycle_counter = 0\<rparr>"

theorem role_starts_engine_once_witness:
  "dma_role_outputs [(Some (requested 0x40000000 4096 10 64 0 True), None), (None, None), (None, Some 11)] example_role =
     [requested 0x40000000 4096 10 64 0 True, (requested 0x40000000 4096 10 64 0 True)\<lparr>start := False\<rparr>,
      (requested 0x40000000 4096 10 64 0 True)\<lparr>start := False\<rparr>]"
  using role_starts_engine_once [of example_role "requested 0x40000000 4096 10 64 0 True" None "[None, Some 11]"]
  by (simp only: list.size list.map replicate_Suc replicate.simps) (simp add: example_role_def requested_def)

text \<open>A DDR request for a channel other than 0 and 1 starts no engine, and since it clears the
  cycles they stay zero, so that the host, which waits for a value other than zero, waits forever.\<close>

theorem ddr_request_without_engine:
  assumes "bench_cmd_ready s" and "bcmd_dest c \<noteq> 0" and "bcmd_dest c \<noteq> 1"
  shows "\<forall>out \<in> set (ddr_role_outputs ((Some c, None, None) # replicate n (None, None, None)) s).
    \<exists>r. out = (r, (False, False), 0)"
proof -
  have hold: "\<forall>out \<in> set (ddr_role_outputs (replicate n (None, None, None)) t). \<exists>r. out = (r, (False, False), 0)"
    if "bench_execution_cycles t = 0" for t :: ddr_role
    using that
  proof (induction n arbitrary: t)
    case (Suc n)
    let ?t = "ddr_role_edge None None None t"
    have "bench_execution_cycles ?t = 0" "ddrBenchStart ?t = (False, False)"
      using Suc(2) by (simp_all add: ddr_role_edge_def take_request_def count_cycle_def take_cycles_def Let_def)
    then show ?case using Suc(1) [of ?t] by (simp add: Let_def)
  qed simp
  let ?s = "ddr_role_edge (Some c) None None s"
  have "bench_execution_cycles ?s = 0" "ddrBenchStart ?s = (False, False)"
    using assms by (simp_all add: ddr_role_edge_def take_request_def count_cycle_def take_cycles_def Let_def)
  then show ?thesis using hold [of ?s] by (simp add: Let_def)
qed

end
