(* ===== verification/Memory_Threads.thy ===== *)
theory Memory_Threads
  imports Memory_Manager
begin

text \<open>
  \<^verbatim>\<open>sw/src/fpga/MemoryManager.cpp\<close> called by several threads. \<open>allocate\<close> holds the mutex for its
  whole body, so that at most one call is inside it and any number of calls may wait for it; \<open>free\<close> takes no lock, and any number of
  calls may be inside it, while the list is changed under them.

  \<^item> \<open>mm_cstep\<close> has one rule per access to a shared node, for every statement of the two
    loops. A node is named by its address field, which is never written after the constructor and is
    different for different nodes. Memory is sequentially consistent.
  \<^item> Splitting a chunk is one step: \<open>free\<close> reads only the address and the successor of a node that
    belongs to nobody, and the successor is the last field \<open>allocate\<close> writes.
  \<^item> The clients are well behaved: a pointer is passed to \<open>free\<close> by its owner, once, and a
    block is written by its owner. \<open>cc_owned\<close> records the pointers that \<open>allocate\<close> has returned and
    that have not been passed to \<open>free\<close>. The sizes asked for are positive and do not overflow when they are rounded
    (\<open>good_size\<close>): \<open>allocate\<close> accepts a size of 0 and then splits a chunk into two of the same address.
  \<^item> \<open>cc_wait\<close> holds the calls that wait for \<open>memoryMutex\<close>, each with its size. Which of them gets the mutex when it is
    free is not determined.

  The result is that every interleaving is a run of the sequential allocator, with the acquisition of
  the flag as the moment of an allocation and its release as the moment of a free; the properties
  of sequential runs hold for all interleavings, and \<open>free\<close> never returns without having released its block. A call of \<open>free\<close> is never
  blocked, the call that holds the mutex always releases it, and a waiting call can always be completed.
\<close>

section \<open>Threads\<close>

text \<open>Where the call of \<open>allocate\<close> that holds the mutex is, with the node it looks at and the requested size, and where a call
  of \<open>free\<close> is, with the node it looks at and its argument.\<close>

datatype alloc_pc = A_idle | A_test u64 u64 | A_cas u64 u64 | A_split u64 u64 | A_next u64 u64 | A_return "u64 option"

datatype free_pc = F_idle | F_compare u64 u64 | F_clear u64 | F_set u64 | F_next u64 u64

record mm_conc =
  cc_chunks :: "memChunk list"
  cc_mem :: memory
  cc_alloc :: alloc_pc
  cc_wait :: "nat \<Rightarrow> u64 option"
  cc_free :: "nat \<Rightarrow> free_pc"
  cc_owned :: "u64 set"

definition set_flag :: "u64 \<Rightarrow> bool \<Rightarrow> memChunk list \<Rightarrow> memChunk list" where
  "set_flag p b cs = map (\<lambda>c. if chunk_addr c = p then c\<lparr>chunk_free := b\<rparr> else c) cs"

text \<open>The two assignments of the split, and the successor of a node.\<close>

definition split_at :: "u64 \<Rightarrow> u64 \<Rightarrow> memChunk list \<Rightarrow> memChunk list" where
  "split_at p n cs = concat (map (\<lambda>c. if chunk_addr c = p then taken n c else [c]) cs)"

fun next_addr :: "memChunk list \<Rightarrow> u64 \<Rightarrow> u64 option" where
  "next_addr (c # d # cs) p = (if chunk_addr c = p then Some (chunk_addr d) else next_addr (d # cs) p)"
| "next_addr _ p = None"

definition head_addr :: "memChunk list \<Rightarrow> u64" where
  "head_addr cs = chunk_addr (hd cs)"

inductive mm_cstep :: "mm_conc \<Rightarrow> mm_conc \<Rightarrow> bool" where
  c_call: "cc_wait s t = None \<Longrightarrow> good_size n \<Longrightarrow> mm_cstep s (s\<lparr>cc_wait := (cc_wait s)(t := Some n)\<rparr>)"
| c_lock: "cc_alloc s = A_idle \<Longrightarrow> cc_wait s t = Some n \<Longrightarrow>
    mm_cstep s (s\<lparr>cc_wait := (cc_wait s)(t := None), cc_alloc := A_test (head_addr (cc_chunks s)) n\<rparr>)"
| c_test: "cc_alloc s = A_test p n \<Longrightarrow> c \<in> set (cc_chunks s) \<Longrightarrow> chunk_addr c = p \<Longrightarrow>
    mm_cstep s (s\<lparr>cc_alloc := (if chunk_free c \<and> round_size n \<le> chunk_size c then A_cas p n else A_next p n)\<rparr>)"
| c_cas: "cc_alloc s = A_cas p n \<Longrightarrow> c \<in> set (cc_chunks s) \<Longrightarrow> chunk_addr c = p \<Longrightarrow> chunk_free c \<Longrightarrow>
    mm_cstep s (s\<lparr>cc_chunks := set_flag p False (cc_chunks s), cc_alloc := A_split p n\<rparr>)"
| c_cas_fails: "cc_alloc s = A_cas p n \<Longrightarrow> mm_cstep s (s\<lparr>cc_alloc := A_next p n\<rparr>)"
| c_split: "cc_alloc s = A_split p n \<Longrightarrow>
    mm_cstep s (s\<lparr>cc_chunks := split_at p (round_size n) (cc_chunks s), cc_alloc := A_return (Some p)\<rparr>)"
| c_next: "cc_alloc s = A_next p n \<Longrightarrow>
    mm_cstep s (s\<lparr>cc_alloc := (case next_addr (cc_chunks s) p of None \<Rightarrow> A_return None | Some d \<Rightarrow> A_test d n)\<rparr>)"
| c_unlock: "cc_alloc s = A_return r \<Longrightarrow> mm_cstep s (s\<lparr>cc_alloc := A_idle, cc_owned := cc_owned s \<union> set_option r\<rparr>)"
| c_call_free: "p \<in> cc_owned s \<Longrightarrow> cc_free s t = F_idle \<Longrightarrow>
    mm_cstep s (s\<lparr>cc_owned := cc_owned s - {p}, cc_free := (cc_free s)(t := F_compare (head_addr (cc_chunks s)) p)\<rparr>)"
| c_compare: "cc_free s t = F_compare q p \<Longrightarrow>
    mm_cstep s (s\<lparr>cc_free := (cc_free s)(t := if q = p then F_clear p else F_next q p)\<rparr>)"
| c_clear: "cc_free s t = F_clear p \<Longrightarrow> c \<in> set (cc_chunks s) \<Longrightarrow> chunk_addr c = p \<Longrightarrow>
    mm_cstep s (s\<lparr>cc_mem := memset p 0 (chunk_size c) (cc_mem s), cc_free := (cc_free s)(t := F_set p)\<rparr>)"
| c_set: "cc_free s t = F_set p \<Longrightarrow>
    mm_cstep s (s\<lparr>cc_chunks := set_flag p True (cc_chunks s), cc_free := (cc_free s)(t := F_next p p)\<rparr>)"
| c_free_next: "cc_free s t = F_next q p \<Longrightarrow>
    mm_cstep s (s\<lparr>cc_free := (cc_free s)(t := case next_addr (cc_chunks s) q of None \<Rightarrow> F_idle | Some d \<Rightarrow> F_compare d p)\<rparr>)"
| c_write: "p \<in> cc_owned s \<Longrightarrow> c \<in> set (cc_chunks s) \<Longrightarrow> chunk_addr c = p \<Longrightarrow> x - p < chunk_size c \<Longrightarrow>
    mm_cstep s (s\<lparr>cc_mem := (cc_mem s)(x := v)\<rparr>)"

definition mm_cinit :: "u64 \<Rightarrow> u64 \<Rightarrow> memory \<Rightarrow> mm_conc" where
  "mm_cinit base sz mem =
     (case mm_construct base sz mem of (mm, mem') \<Rightarrow>
        \<lparr>cc_chunks = mm_chunks mm, cc_mem = mem', cc_alloc = A_idle, cc_wait = (\<lambda>_. None),
          cc_free = (\<lambda>_. F_idle), cc_owned = {}\<rparr>)"

inductive mm_creachable :: "u64 \<Rightarrow> u64 \<Rightarrow> mm_conc \<Rightarrow> bool" for base sz where
  c_init: "mm_creachable base sz (mm_cinit base sz mem)"
| c_step: "mm_creachable base sz s \<Longrightarrow> mm_cstep s s' \<Longrightarrow> mm_creachable base sz s'"

section \<open>The list of nodes\<close>

lemma layout_sorted:
  assumes "layout a cs e"
  shows "sorted_wrt (<) (map (\<lambda>c. unat (chunk_addr c)) cs)"
  using assms
proof (induction cs arbitrary: a)
  case (Cons c cs)
  have "unat (chunk_addr c) < unat (chunk_addr d)" if "d \<in> set cs" for d
    using Cons(2) layout_chunk [of "a + unat (chunk_size c)" cs e d] that by auto
  with Cons show ?case by auto
qed simp

lemma layout_unique:
  assumes "layout a cs e" and "c \<in> set cs" and "d \<in> set cs" and "chunk_addr c = chunk_addr d"
  shows "c = d"
proof -
  have "distinct (map (\<lambda>c. unat (chunk_addr c)) cs)" using layout_sorted [OF assms(1)] by (simp only: strict_sorted_iff)
  then have "inj_on (\<lambda>c. unat (chunk_addr c)) (set cs)" by (simp add: distinct_map)
  from inj_onD [OF this _ assms(2,3)] assms(4) show ?thesis by simp
qed

text \<open>A node and its successor, in a list in the order of addresses.\<close>

lemma next_addr_node: "next_addr cs p = Some q \<Longrightarrow> p \<in> chunk_addr ` set cs"
  by (induction cs p rule: next_addr.induct) (auto split: if_splits)

lemma next_addr_Some:
  assumes "sorted_wrt (<) (map (\<lambda>c. unat (chunk_addr c)) cs)" and "next_addr cs p = Some q"
  shows "q \<in> chunk_addr ` set cs \<and> p < q \<and> (\<forall>r \<in> chunk_addr ` set cs. p < r \<longrightarrow> q \<le> r)"
  using assms
proof (induction cs p rule: next_addr.induct)
  case (1 c d cs p)
  show ?case
  proof (cases "chunk_addr c = p")
    case True
    then have q: "q = chunk_addr d" using 1(3) by simp
    then show ?thesis using True 1(2) by (auto simp: word_less_nat_alt word_le_nat_alt less_imp_le)
  next
    case False
    then have n: "next_addr (d # cs) p = Some q" using 1(3) by simp
    have "chunk_addr c < p" using next_addr_node [OF n] 1(2) by (auto simp: word_less_nat_alt)
    moreover have "q \<in> chunk_addr ` set (d # cs) \<and> p < q \<and> (\<forall>r \<in> chunk_addr ` set (d # cs). p < r \<longrightarrow> q \<le> r)"
      using 1(1) [OF False _ n] 1(2) by simp
    ultimately show ?thesis by auto
  qed
qed simp_all

lemma next_addr_None:
  assumes "sorted_wrt (<) (map (\<lambda>c. unat (chunk_addr c)) cs)" and "next_addr cs p = None" and "p \<in> chunk_addr ` set cs" and "r \<in> chunk_addr ` set cs"
  shows "r \<le> p"
  using assms
proof (induction cs p rule: next_addr.induct)
  case (1 c d cs p)
  then have ne: "chunk_addr c \<noteq> p" and n: "next_addr (d # cs) p = None" by (auto split: if_splits)
  have p: "p \<in> chunk_addr ` set (d # cs)" using 1(4) ne by auto
  then have "chunk_addr c < p" using 1(2) by (auto simp: word_less_nat_alt)
  with 1(1) [OF ne _ n p] 1(2,5) show ?case by auto
qed auto

lemma set_flag_fields:
  "map chunk_addr (set_flag p b cs) = map chunk_addr cs" "chunk_addr ` set (set_flag p b cs) = chunk_addr ` set cs"
  "layout a (set_flag p b cs) e = layout a cs e" "cs \<noteq> [] \<Longrightarrow> head_addr (set_flag p b cs) = head_addr cs"
proof -
  show m: "map chunk_addr (set_flag p b cs) = map chunk_addr cs" by (simp add: set_flag_def)
  from arg_cong [OF m, of set] show "chunk_addr ` set (set_flag p b cs) = chunk_addr ` set cs" by simp
  show "layout a (set_flag p b cs) e = layout a cs e" unfolding set_flag_def by (rule layout_map) simp
  show "cs \<noteq> [] \<Longrightarrow> head_addr (set_flag p b cs) = head_addr cs" by (cases cs) (simp_all add: set_flag_def head_addr_def)
qed

lemma in_set_flag: "c \<in> set (set_flag p b cs) \<longleftrightarrow> (\<exists>d \<in> set cs. c = (if chunk_addr d = p then d\<lparr>chunk_free := b\<rparr> else d))"
  by (simp only: set_flag_def set_map image_iff)

lemma set_flag_elem:
  assumes "c \<in> set (set_flag p b cs)"
  obtains d where "d \<in> set cs" "chunk_addr d = chunk_addr c" "chunk_size d = chunk_size c"
    "chunk_free c = (if chunk_addr c = p then b else chunk_free d)"
proof -
  from assms obtain d where "d \<in> set cs" "c = (if chunk_addr d = p then d\<lparr>chunk_free := b\<rparr> else d)" by (auto simp: in_set_flag)
  then show thesis by (intro that [of d]) auto
qed

lemma in_split_at: "c \<in> set (split_at p n cs) \<longleftrightarrow> (\<exists>d \<in> set cs. if chunk_addr d = p then c \<in> set (taken n d) else c = d)"
  by (auto simp: split_at_def split: if_splits) 

lemma in_taken:
  "c \<in> set (taken n d) \<longleftrightarrow> c = d\<lparr>chunk_size := n, chunk_free := False\<rparr> \<or> (chunk_size d > n \<and> c = new_chunk (chunk_addr d + n) (chunk_size d - n))"
  by (auto simp: taken_def)

lemma used_set_flag:
  "(\<exists>c \<in> set (set_flag p b cs). chunk_addr c = q \<and> \<not> chunk_free c) \<longleftrightarrow>
   (\<exists>c \<in> set cs. chunk_addr c = q \<and> (if q = p then \<not> b else \<not> chunk_free c))"
  by (induction cs) (auto simp: set_flag_def)

text \<open>Setting the flag of a used node and splitting another one commute.\<close>

lemma set_flag_split_at:
  assumes "layout a (split_at q n cs) e" and "c \<in> set cs" and "chunk_addr c = p" and "\<not> chunk_free c" and "p \<noteq> q"
  shows "set_flag p b (split_at q n cs) = split_at q n (set_flag p b cs)"
proof -
  have c: "c \<in> set (split_at q n cs)" using assms(2,3,5) by (auto simp: in_split_at intro!: bexI [of _ c])
  have "set_flag p b (taken n d) = taken n d" if "d \<in> set cs" "chunk_addr d = q" for d
  proof -
    have "chunk_addr x \<noteq> p" if x: "x \<in> set (taken n d)" for x
    proof
      assume "chunk_addr x = p"
      moreover have "x \<in> set (split_at q n cs)" using x \<open>d \<in> set cs\<close> \<open>chunk_addr d = q\<close> by (auto simp: in_split_at)
      ultimately have "x = c" using layout_unique [OF assms(1) _ c] assms(3) by simp
      with x assms(3-5) \<open>chunk_addr d = q\<close> show False by (auto simp: in_taken new_chunk_def)
    qed
    then show ?thesis by (auto simp: set_flag_def intro: map_idI)
  qed
  then have "set_flag p b (if chunk_addr d = q then taken n d else [d]) =
      (let d' = if chunk_addr d = p then d\<lparr>chunk_free := b\<rparr> else d in if chunk_addr d' = q then taken n d' else [d'])" if "d \<in> set cs" for d
    using that assms(5) by (auto simp: set_flag_def)
  then have eq: "map (\<lambda>d. set_flag p b (if chunk_addr d = q then taken n d else [d])) cs =
      map (\<lambda>d. let d' = if chunk_addr d = p then d\<lparr>chunk_free := b\<rparr> else d in if chunk_addr d' = q then taken n d' else [d']) cs"
    by (intro map_cong refl)
  have flag_concat: "set_flag p b (concat xss) = concat (map (set_flag p b) xss)" for xss by (induction xss) (simp_all add: set_flag_def)
  show ?thesis unfolding split_at_def flag_concat map_map comp_def eq by (simp add: set_flag_def comp_def Let_def)
qed

section \<open>The invariant\<close>

text \<open>The block a thread inside \<open>free\<close> is going to release, and the block the thread inside \<open>allocate\<close> has
  acquired. Behind its argument a thread in \<open>free\<close> only walks on.\<close>

fun pend :: "free_pc \<Rightarrow> u64 option" where
  "pend F_idle = None"
| "pend (F_compare q p) = (if q \<le> p then Some p else None)"
| "pend (F_clear p) = Some p"
| "pend (F_set p) = Some p"
| "pend (F_next q p) = (if q < p then Some p else None)"

fun holds :: "alloc_pc \<Rightarrow> u64 option" where
  "holds (A_split p n) = Some p"
| "holds (A_return r) = r"
| "holds _ = None"

text \<open>The sequential state an interleaving stands for: an acquired chunk counts as split.\<close>

definition cc_abs :: "u64 \<Rightarrow> u64 \<Rightarrow> mm_conc \<Rightarrow> memoryManager \<times> memory" where
  "cc_abs base sz s =
     (\<lparr>mm_base = base, mm_size = sz,
       mm_chunks = (case cc_alloc s of A_split p n \<Rightarrow> split_at p (round_size n) (cc_chunks s) | _ \<Rightarrow> cc_chunks s)\<rparr>, cc_mem s)"

definition used :: "mm_conc \<Rightarrow> u64 \<Rightarrow> bool" where
  "used s p \<longleftrightarrow> (\<exists>c \<in> set (cc_chunks s). chunk_addr c = p \<and> \<not> chunk_free c)"

definition zero_at :: "mm_conc \<Rightarrow> u64 \<Rightarrow> bool" where
  "zero_at s p \<longleftrightarrow> (\<forall>c \<in> set (cc_chunks s). chunk_addr c = p \<longrightarrow> zeroed p (chunk_size c) (cc_mem s))"

definition pending :: "mm_conc \<Rightarrow> u64 set" where
  "pending s = {p. \<exists>t. pend (cc_free s t) = Some p}"

text \<open>The nodes that the threads look at.\<close>

definition nodes :: "mm_conc \<Rightarrow> u64 set" where
  "nodes s = chunk_addr ` set (cc_chunks s)"

fun alloc_walks :: "mm_conc \<Rightarrow> alloc_pc \<Rightarrow> bool" where
  "alloc_walks s (A_test p n) \<longleftrightarrow> p \<in> nodes s \<and> good_size n"
| "alloc_walks s (A_cas p n) \<longleftrightarrow> p \<in> nodes s \<and> good_size n \<and>
     (\<forall>c \<in> set (cc_chunks s). chunk_addr c = p \<longrightarrow> chunk_free c \<and> round_size n \<le> chunk_size c)"
| "alloc_walks s (A_next p n) \<longleftrightarrow> p \<in> nodes s \<and> good_size n"
| "alloc_walks s (A_split p n) \<longleftrightarrow> good_size n \<and> (\<forall>c \<in> set (cc_chunks s). chunk_addr c = p \<longrightarrow> round_size n \<le> chunk_size c)"
| "alloc_walks s _ \<longleftrightarrow> True"

fun free_walks :: "mm_conc \<Rightarrow> free_pc \<Rightarrow> bool" where
  "free_walks s (F_compare q p) \<longleftrightarrow> q \<in> nodes s"
| "free_walks s (F_next q p) \<longleftrightarrow> q \<in> nodes s"
| "free_walks s (F_set p) \<longleftrightarrow> zero_at s p"
| "free_walks s _ \<longleftrightarrow> True"

definition cinv :: "u64 \<Rightarrow> u64 \<Rightarrow> mm_conc \<Rightarrow> bool" where
  "cinv base sz s \<longleftrightarrow>
     mm_reachable base sz (cc_abs base sz s) \<and> layout (unat base) (cc_chunks s) (unat base + unat sz) \<and> cc_chunks s \<noteq> [] \<and>
     (\<forall>p \<in> cc_owned s \<union> pending s \<union> set_option (holds (cc_alloc s)). used s p) \<and>
     cc_owned s \<inter> pending s = {} \<and> set_option (holds (cc_alloc s)) \<inter> (cc_owned s \<union> pending s) = {} \<and>
     (\<forall>t u p. pend (cc_free s t) = Some p \<longrightarrow> pend (cc_free s u) = Some p \<longrightarrow> t = u) \<and>
     (\<forall>p \<in> set_option (holds (cc_alloc s)). zero_at s p) \<and>
     alloc_walks s (cc_alloc s) \<and> (\<forall>t. free_walks s (cc_free s t))"

lemma cinv_facts:
  assumes "cinv base sz s"
  shows "mm_reachable base sz (cc_abs base sz s)" "layout (unat base) (cc_chunks s) (unat base + unat sz)" "cc_chunks s \<noteq> []"
    "p \<in> cc_owned s \<Longrightarrow> used s p" "pend (cc_free s t) = Some p \<Longrightarrow> used s p" "holds (cc_alloc s) = Some p \<Longrightarrow> used s p"
    "p \<in> cc_owned s \<Longrightarrow> pend (cc_free s t) \<noteq> Some p" "holds (cc_alloc s) = Some p \<Longrightarrow> p \<notin> cc_owned s"
    "holds (cc_alloc s) = Some p \<Longrightarrow> pend (cc_free s t) \<noteq> Some p"
    "pend (cc_free s t) = Some p \<Longrightarrow> pend (cc_free s u) = Some p \<Longrightarrow> t = u"
    "holds (cc_alloc s) = Some p \<Longrightarrow> zero_at s p" "alloc_walks s (cc_alloc s)" "free_walks s (cc_free s t)"
  using assms by (auto simp: cinv_def pending_def)

lemma cinvI:
  assumes "mm_reachable base sz (cc_abs base sz s)" "layout (unat base) (cc_chunks s) (unat base + unat sz)" "cc_chunks s \<noteq> []"
    "\<And>p. p \<in> cc_owned s \<Longrightarrow> used s p" "\<And>t p. pend (cc_free s t) = Some p \<Longrightarrow> used s p" "\<And>p. holds (cc_alloc s) = Some p \<Longrightarrow> used s p"
    "\<And>t p. p \<in> cc_owned s \<Longrightarrow> pend (cc_free s t) \<noteq> Some p" "\<And>p. holds (cc_alloc s) = Some p \<Longrightarrow> p \<notin> cc_owned s"
    "\<And>t p. holds (cc_alloc s) = Some p \<Longrightarrow> pend (cc_free s t) \<noteq> Some p"
    "\<And>t u p. pend (cc_free s t) = Some p \<Longrightarrow> pend (cc_free s u) = Some p \<Longrightarrow> t = u"
    "\<And>p. holds (cc_alloc s) = Some p \<Longrightarrow> zero_at s p" "alloc_walks s (cc_alloc s)" "\<And>t. free_walks s (cc_free s t)"
  shows "cinv base sz s"
  unfolding cinv_def pending_def
  by (intro conjI ballI allI impI set_eqI; use assms in \<open>(auto; fail) | blast\<close>)

text \<open>Steps that only move a thread.\<close>

lemma cinv_move_alloc:
  assumes "cinv base sz s" and "\<And>p n. cc_alloc s \<noteq> A_split p n" and "holds pc = None" and "alloc_walks s pc"
  shows "cinv base sz (s\<lparr>cc_alloc := pc\<rparr>)"
proof -
  have "\<And>p n. pc \<noteq> A_split p n" using assms(3) by auto
  then have "cc_abs base sz (s\<lparr>cc_alloc := pc\<rparr>) = cc_abs base sz s"
    using assms(2) by (auto simp: cc_abs_def split: alloc_pc.splits)
  moreover have "alloc_walks (s\<lparr>cc_alloc := pc\<rparr>) pc = alloc_walks s pc" by (cases pc) (simp_all add: nodes_def)
  moreover have "free_walks (s\<lparr>cc_alloc := pc\<rparr>) f = free_walks s f" for f by (cases f) (simp_all add: nodes_def zero_at_def)
  ultimately show ?thesis using assms(1,3,4) by (simp add: cinv_def used_def zero_at_def pending_def)
qed

lemma cinv_move_free:
  assumes "cinv base sz s" and "pend f = pend (cc_free s t) \<or> pend f = None" and "free_walks s f"
  shows "cinv base sz (s\<lparr>cc_free := (cc_free s)(t := f)\<rparr>)"
proof -
  let ?s = "s\<lparr>cc_free := (cc_free s)(t := f)\<rparr>"
  note inv = cinv_facts [OF assms(1)]
  have aw: "alloc_walks ?s pc = alloc_walks s pc" for pc by (cases pc) (simp_all add: nodes_def)
  have fw: "free_walks ?s g = free_walks s g" for g by (cases g) (simp_all add: nodes_def zero_at_def)
  have same: "used ?s = used s" "zero_at ?s = zero_at s" "cc_abs base sz ?s = cc_abs base sz s"
    "cc_owned ?s = cc_owned s" "cc_alloc ?s = cc_alloc s" "cc_chunks ?s = cc_chunks s"
    by (simp_all add: used_def zero_at_def cc_abs_def fun_eq_iff split: alloc_pc.split)
  have pend: "pend (cc_free s u) = Some p" if "pend (cc_free ?s u) = Some p" for u p using that assms(2) by (auto split: if_splits)
  show ?thesis
  proof (rule cinvI, unfold aw fw same)
    show "free_walks s (cc_free ?s u)" for u using inv(13) assms(3) by simp
  qed (use inv pend in blast)+
qed

text \<open>The calls that wait for the mutex are not part of the invariant.\<close>

lemma cinv_wait [simp]: "cinv base sz (s\<lparr>cc_wait := w\<rparr>) = cinv base sz s"
proof -
  have "alloc_walks (s\<lparr>cc_wait := w\<rparr>) pc = alloc_walks s pc" for pc by (cases pc) (simp_all add: nodes_def)
  moreover have "free_walks (s\<lparr>cc_wait := w\<rparr>) f = free_walks s f" for f by (cases f) (simp_all add: nodes_def zero_at_def)
  moreover have "cc_abs base sz (s\<lparr>cc_wait := w\<rparr>) = cc_abs base sz s" by (simp add: cc_abs_def split: alloc_pc.split)
  ultimately show ?thesis by (simp add: cinv_def used_def zero_at_def pending_def)
qed

lemma head_node: "cc_chunks s \<noteq> [] \<Longrightarrow> head_addr (cc_chunks s) \<in> nodes s"
  by (cases "cc_chunks s") (simp_all add: head_addr_def nodes_def)

lemma head_least:
  assumes "layout a (cc_chunks s) e" and "p \<in> nodes s"
  shows "head_addr (cc_chunks s) \<le> p"
  using layout_sorted [OF assms(1)] assms(2)
  by (cases "cc_chunks s") (auto simp: nodes_def head_addr_def word_le_nat_alt less_imp_le)

lemma used_node: "used s p \<Longrightarrow> p \<in> nodes s"
  by (auto simp: used_def nodes_def)

text \<open>The moment of an allocation: the flag is acquired.\<close>

lemma allocate_at:
  assumes "layout a cs e" and "c \<in> set cs" and "chunk_free c" and "round_size n \<le> chunk_size c" and "mm_chunks mm = cs"
  shows "\<exists>spurious. allocate spurious n mm = (mm\<lparr>mm_chunks := split_at (chunk_addr c) (round_size n) (set_flag (chunk_addr c) False cs)\<rparr>, Some (chunk_addr c))"
proof -
  obtain pre post where cs: "cs = pre @ c # post" using split_list [OF assms(2)] by blast
  have other: "chunk_addr d \<noteq> chunk_addr c" if d: "d \<in> set pre \<union> set post" for d
  proof
    have "sorted_wrt (<) (map (\<lambda>c. unat (chunk_addr c)) (pre @ c # post))" using layout_sorted [OF assms(1)] cs by simp
    then have "unat (chunk_addr d) \<noteq> unat (chunk_addr c)" using d by (auto simp: sorted_wrt_append)
    moreover assume "chunk_addr d = chunk_addr c"
    ultimately show False by simp
  qed
  let ?sp = "\<lambda>i. i \<noteq> length pre"
  have "allocate_loop ?sp 0 (round_size n) (pre @ c # post) = (pre @ taken (round_size n) c @ post, Some (chunk_addr c))"
    using assms(3,4) by (intro allocate_loop_first_fit) (auto simp: fits_def)
  moreover have "split_at (chunk_addr c) (round_size n) (set_flag (chunk_addr c) False cs) = pre @ taken (round_size n) c @ post"
  proof -
    have keep: "split_at (chunk_addr c) (round_size n) (set_flag (chunk_addr c) False xs) = xs" if "set xs \<subseteq> set pre \<union> set post" for xs
      using that other by (induction xs) (auto simp: set_flag_def split_at_def)
    have "taken (round_size n) (c\<lparr>chunk_free := False\<rparr>) = taken (round_size n) c" by (simp add: taken_def)
    then show ?thesis using keep [of pre] keep [of post] by (simp add: cs set_flag_def split_at_def)
  qed
  ultimately show ?thesis using assms(5) cs by (intro exI [of _ ?sp]) (simp add: allocate_def)
qed

lemma cinv_cas:
  assumes "cinv base sz s" and bound: "unat base + unat sz < 2 ^ 64" "0 < unat sz"
    and "cc_alloc s = A_cas p n" and c: "c \<in> set (cc_chunks s)" "chunk_addr c = p" "chunk_free c"
  shows "cinv base sz (s\<lparr>cc_chunks := set_flag p False (cc_chunks s), cc_alloc := A_split p n\<rparr>)" (is "cinv _ _ ?s")
proof -
  note inv = cinv_facts [OF assms(1)]
  have abs: "cc_abs base sz s = (\<lparr>mm_base = base, mm_size = sz, mm_chunks = cc_chunks s\<rparr>, cc_mem s)" by (simp add: cc_abs_def assms(4))
  have n: "good_size n" "round_size n \<le> chunk_size c" using inv(12) c by (auto simp: assms(4))
  have "\<not> used s p" using layout_unique [OF inv(2)] c by (auto simp: used_def)
  then have p: "p \<notin> cc_owned s" "pend (cc_free s t) \<noteq> Some p" for t using inv(4,5) by blast+
  have zero: "zeroed p (chunk_size c) (cc_mem s)"
    using mm_reachable_inv [OF bound inv(1)] c by (auto simp: abs mm_zero_def)
  have used: "used ?s q" if "used s q \<or> q = p" for q using that c(1,2) by (auto simp: used_def used_set_flag)
  have nodes: "nodes ?s = nodes s" by (simp add: nodes_def set_flag_fields)
  have zero': "zero_at ?s q" if "zero_at s q" for q using that by (auto simp: zero_at_def elim!: set_flag_elem)
  have fw: "free_walks ?s f" if "free_walks s f" for f using that zero' by (cases f) (simp_all add: nodes)
  have "zero_at s p" using zero layout_unique [OF inv(2) _ c(1)] c(2) by (fastforce simp: zero_at_def)
  then have zp: "zero_at ?s p" by (rule zero')
  from allocate_at [OF inv(2) c(1,3) n(2), of "\<lparr>mm_base = base, mm_size = sz, mm_chunks = cc_chunks s\<rparr>"] obtain spurious where
    "allocate spurious n \<lparr>mm_base = base, mm_size = sz, mm_chunks = cc_chunks s\<rparr> = (fst (cc_abs base sz ?s), Some p)"
    by (auto simp: cc_abs_def c(2))
  from reach_step [OF inv(1) [unfolded abs] step_allocate [OF n(1) this]]
  have r: "mm_reachable base sz (cc_abs base sz ?s)" by (simp add: cc_abs_def)
  show ?thesis
  proof (rule cinvI)
    show "cc_chunks ?s \<noteq> []" using inv(3) by (simp add: set_flag_def)
      show "alloc_walks ?s (cc_alloc ?s)" using inv(12) n by (auto simp: assms(4) elim!: set_flag_elem)
  qed (use r inv p used zp fw in \<open>simp_all add: set_flag_fields assms(4)\<close>)
qed

text \<open>The split: what was promised with the flag becomes the list.\<close>

lemma zeroed_part:
  assumes "zeroed p m mem" and "n \<le> m"
  shows "zeroed (p + n) (m - n) mem" and "zeroed p n mem"
proof -
  show "zeroed p n mem" using assms by (auto simp: zeroed_def intro: less_le_trans)
  show "zeroed (p + n) (m - n) mem"
  proof (unfold zeroed_def, intro allI impI)
    fix x assume x: "x - (p + n) < m - n"
    have "unat (x - (p + n)) + unat n < unat m" using x assms(2) by (simp add: word_less_nat_alt unat_sub word_le_nat_alt)
    moreover have "unat m < 2 ^ 64" using unsigned_less [of m, where 'a = nat] by simp
    ultimately have "(x - (p + n)) + n < m" by (simp only: word_less_nat_alt unat_word_ariths) simp
    then show "mem x = 0" using assms(1) by (simp add: zeroed_def)
  qed
qed

lemma zero_split_at:
  assumes "c \<in> set (split_at p n cs)" and "\<forall>d \<in> set cs. chunk_addr d = p \<longrightarrow> zeroed p (chunk_size d) mem \<and> n \<le> chunk_size d"
    and "\<forall>d \<in> set cs. chunk_addr d = chunk_addr c \<longrightarrow> zeroed (chunk_addr c) (chunk_size d) mem"
  shows "zeroed (chunk_addr c) (chunk_size c) mem"
proof -
  from assms(1) obtain d where d: "d \<in> set cs" "if chunk_addr d = p then c \<in> set (taken n d) else c = d" by (auto simp: in_split_at)
  show ?thesis
  proof (cases "chunk_addr d = p")
    case True
    then have "zeroed p (chunk_size d) mem" "n \<le> chunk_size d" using assms(2) d(1) by auto
    from zeroed_part [OF this] d(2) True show ?thesis by (auto simp: in_taken new_chunk_def)
  next
    case False
    then show ?thesis using d assms(3) by simp
  qed
qed

lemma split_at_keeps:
  assumes "d \<in> set cs"
  shows "\<exists>c \<in> set (split_at p n cs). chunk_addr c = chunk_addr d \<and> (\<not> chunk_free d \<longrightarrow> \<not> chunk_free c)"
proof -
  let ?d = "if chunk_addr d = p then d\<lparr>chunk_size := n, chunk_free := False\<rparr> else d"
  have "?d \<in> set (split_at p n cs)" using assms by (auto simp: in_split_at in_taken intro!: bexI [of _ d])
  then show ?thesis by (intro bexI [of _ ?d]) auto
qed

lemma cinv_split:
  assumes "cinv base sz s" and bound: "unat base + unat sz < 2 ^ 64" "0 < unat sz" and "cc_alloc s = A_split p n"
  shows "cinv base sz (s\<lparr>cc_chunks := split_at p (round_size n) (cc_chunks s), cc_alloc := A_return (Some p)\<rparr>)" (is "cinv _ _ ?s")
proof -
  note inv = cinv_facts [OF assms(1)]
  have abs: "cc_abs base sz ?s = cc_abs base sz s" by (simp add: cc_abs_def assms(4))
  then have lay: "layout (unat base) (cc_chunks ?s) (unat base + unat sz)"
    using mm_reachable_inv [OF bound inv(1)] by (auto simp: cc_abs_def assms(4) mm_inv_def)
  have used: "used ?s q" if "used s q" for q using that split_at_keeps by (fastforce simp: used_def)
  have nodes: "q \<in> nodes ?s" if "q \<in> nodes s" for q
    using that split_at_keeps [of _ "cc_chunks s" p "round_size n"] by (auto simp: nodes_def image_iff) metis
  have "\<forall>d \<in> set (cc_chunks s). chunk_addr d = p \<longrightarrow> zeroed p (chunk_size d) (cc_mem s) \<and> round_size n \<le> chunk_size d"
    using inv(11,12) by (auto simp: assms(4) zero_at_def)
  then have zero: "zero_at ?s q" if "zero_at s q" for q using that zero_split_at by (fastforce simp: zero_at_def)
  have fw: "free_walks ?s f" if "free_walks s f" for f using that zero nodes by (cases f) simp_all
  obtain c where "c \<in> set (cc_chunks s)" using inv(3) by (cases "cc_chunks s") auto
  from split_at_keeps [OF this, of p "round_size n"] have ne: "cc_chunks ?s \<noteq> []" by auto
  show ?thesis
    by (rule cinvI) (use abs inv lay ne used zero fw in \<open>simp_all add: assms(4)\<close>)
qed

text \<open>Clearing the memory of a block and writing into it are writes of the sequential allocator.\<close>

lemma reachable_memset:
  assumes "mm_reachable base sz (mm, mem)" and "c \<in> set (mm_chunks mm)" and "\<not> chunk_free c"
  shows "mm_reachable base sz (mm, memset (chunk_addr c) 0 (chunk_size c) mem)"
proof -
  have "k \<le> unat (chunk_size c) \<Longrightarrow> mm_reachable base sz (mm, memset (chunk_addr c) 0 (of_nat k) mem)" for k
  proof (induction k)
    case 0
    then show ?case using assms(1) by (simp add: memset_def)
  next
    case (Suc k)
    let ?x = "chunk_addr c + of_nat k :: u64"
    have lt: "k < 2 ^ 64" using Suc(2) unsigned_less [of "chunk_size c", where 'a = nat] by simp
    then have k: "unat (of_nat k :: u64) = k" by (simp add: unat_of_nat)
    have "?x - chunk_addr c < chunk_size c" using Suc(2) k by (simp add: word_less_nat_alt)
    from reach_step [OF Suc(1) step_write [OF assms(2,3) this, of _ 0]] Suc(2)
    have "mm_reachable base sz (mm, (memset (chunk_addr c) 0 (of_nat k) mem)(?x := 0))" by simp
    moreover have "(memset (chunk_addr c) 0 (of_nat k) mem)(?x := 0) = memset (chunk_addr c) 0 (of_nat (Suc k)) mem"
    proof
      fix y
      have sk: "unat (of_nat (Suc k) :: u64) = Suc k"
        using Suc(2) unsigned_less [of "chunk_size c", where 'a = nat] by (simp add: unat_of_nat del: of_nat_Suc)
      have "y - chunk_addr c < of_nat (Suc k) \<longleftrightarrow> y - chunk_addr c < of_nat k \<or> y = ?x"
        using sk k by (auto simp: word_less_nat_alt less_Suc_eq word_unat_eq_iff [of "y - _"] algebra_simps simp del: of_nat_Suc)
      then show "((memset (chunk_addr c) 0 (of_nat k) mem)(?x := 0)) y = memset (chunk_addr c) 0 (of_nat (Suc k)) mem y"
        by (auto simp: memset_def simp del: of_nat_Suc)
    qed
    ultimately show ?case by simp
  qed
  from this [of "unat (chunk_size c)"] show ?thesis by simp
qed

lemma abs_chunk:
  assumes "cinv base sz s" and "c \<in> set (cc_chunks s)" and "holds (cc_alloc s) \<noteq> Some (chunk_addr c)"
  shows "c \<in> set (mm_chunks (fst (cc_abs base sz s)))"
  using assms(2,3) by (auto simp: cc_abs_def in_split_at split: alloc_pc.split intro!: bexI [of _ c])

text \<open>Blocks at different addresses share no byte.\<close>

lemma other_byte:
  assumes "layout a cs e" and "e < 2 ^ 64" and "c \<in> set cs" and "d \<in> set cs" and "x - chunk_addr c < chunk_size c" and "x - chunk_addr d < chunk_size d"
  shows "chunk_addr c = chunk_addr d"
proof (rule ccontr)
  assume ne: "chunk_addr c \<noteq> chunk_addr d"
  have b: "unat (chunk_addr k) + unat (chunk_size k) < 2 ^ 64" if "k \<in> set cs" for k
    using layout_chunk [OF assms(1) that] assms(2) by linarith
  have "unat (chunk_addr c) \<le> unat x" "unat x < unat (chunk_addr c) + unat (chunk_size c)"
    "unat (chunk_addr d) \<le> unat x" "unat x < unat (chunk_addr d) + unat (chunk_size d)"
    using in_range [OF b [OF assms(3)], of x] in_range [OF b [OF assms(4)], of x] assms(5,6) by auto
  then have "overlap (chunk_block c) (chunk_block d)" by (simp add: overlap_def chunk_block_def)
  moreover obtain pre post where cs: "cs = pre @ c # post" using split_list [OF assms(3)] by blast
  then have "d \<in> set pre \<union> set post" using assms(4) ne by auto
  with assms(1) cs have "\<not> overlap (chunk_block c) (chunk_block d)" by (intro layout_disjoint) auto
  ultimately show False by blast
qed

lemma cinv_clear:
  assumes "cinv base sz s" and bound: "unat base + unat sz < 2 ^ 64" "0 < unat sz"
    and "cc_free s t = F_clear p" and c: "c \<in> set (cc_chunks s)" "chunk_addr c = p"
  shows "cinv base sz (s\<lparr>cc_mem := memset p 0 (chunk_size c) (cc_mem s), cc_free := (cc_free s)(t := F_set p)\<rparr>)"
proof -
  note inv = cinv_facts [OF assms(1)]
  let ?s = "s\<lparr>cc_mem := memset p 0 (chunk_size c) (cc_mem s)\<rparr>"
  have "used s p" using inv(5) [of t p] by (simp add: assms(4))
  then have cf: "\<not> chunk_free c" using layout_unique [OF inv(2)] c by (auto simp: used_def)
  have h: "holds (cc_alloc s) \<noteq> Some (chunk_addr c)" using inv(9) [of p t] c(2) by (auto simp: assms(4))
  obtain mm where mm: "cc_abs base sz s = (mm, cc_mem s)" "cc_abs base sz ?s = (mm, cc_mem ?s)"
    by (simp add: cc_abs_def split: alloc_pc.split)
  have r: "mm_reachable base sz (cc_abs base sz ?s)"
    using reachable_memset [OF inv(1) [unfolded mm(1)] _ cf] abs_chunk [OF assms(1) c(1) h] mm c(2) by simp
  have zero: "zero_at ?s q" if "zero_at s q \<or> q = p" for q
    using that layout_unique [OF inv(2) _ c(1)] c(2) by (fastforce simp: zero_at_def zeroed_def memset_def)
  have aw: "alloc_walks ?s pc = alloc_walks s pc" for pc by (cases pc) (simp_all add: nodes_def)
  have fw: "free_walks ?s f" if "free_walks s f" for f using that zero by (cases f) (simp_all add: nodes_def)
  have "cinv base sz ?s" by (rule cinvI) (use r inv zero aw fw in \<open>simp_all add: used_def\<close>)
  from cinv_move_free [OF this, of "F_set p" t] show ?thesis using zero by (simp add: assms(4))
qed

lemma cinv_write:
  assumes "cinv base sz s" and bound: "unat base + unat sz < 2 ^ 64" "0 < unat sz"
    and "p \<in> cc_owned s" and c: "c \<in> set (cc_chunks s)" "chunk_addr c = p" "x - p < chunk_size c"
  shows "cinv base sz (s\<lparr>cc_mem := (cc_mem s)(x := v)\<rparr>)" (is "cinv _ _ ?s")
proof -
  note inv = cinv_facts [OF assms(1)]
  have cf: "\<not> chunk_free c" using inv(4) [OF assms(4)] layout_unique [OF inv(2)] c by (auto simp: used_def)
  have h: "holds (cc_alloc s) \<noteq> Some (chunk_addr c)" using inv(8) [of p] assms(4) c(2) by auto
  obtain mm where mm: "cc_abs base sz s = (mm, cc_mem s)" "cc_abs base sz ?s = (mm, (cc_mem s)(x := v))"
    by (simp add: cc_abs_def split: alloc_pc.split)
  have r: "mm_reachable base sz (cc_abs base sz ?s)"
    unfolding mm(2) using reach_step [OF inv(1) [unfolded mm(1)] step_write [of c mm x]] abs_chunk [OF assms(1) c(1) h] mm(1) cf c(2,3) by simp
  have zero: "zero_at ?s q" if "zero_at s q" "q \<noteq> p" for q
    using that other_byte [OF inv(2) bound(1) c(1)] c(2,3) by (fastforce simp: zero_at_def zeroed_def)
  have aw: "alloc_walks ?s pc = alloc_walks s pc" for pc by (cases pc) (simp_all add: nodes_def)
  have "q \<noteq> p" if "holds (cc_alloc s) = Some q" for q using inv(8) that assms(4) by blast
  moreover have "free_walks ?s (cc_free s t)" for t
    using inv(13) [of t] inv(7) [OF assms(4), of t] zero by (cases "cc_free s t") (auto simp: nodes_def)
  ultimately show ?thesis by (intro cinvI) (use r inv zero aw in \<open>simp_all add: used_def\<close>)
qed

lemma cinv_set:
  assumes "cinv base sz s" and bound: "unat base + unat sz < 2 ^ 64" "0 < unat sz" and "cc_free s t = F_set p"
  shows "cinv base sz (s\<lparr>cc_chunks := set_flag p True (cc_chunks s), cc_free := (cc_free s)(t := F_next p p)\<rparr>)" (is "cinv _ _ ?s")
proof -
  note inv = cinv_facts [OF assms(1)]
  have pend: "pend (cc_free s t) = Some p" by (simp add: assms(4))
  then obtain c where c: "c \<in> set (cc_chunks s)" "chunk_addr c = p" "\<not> chunk_free c" using inv(5) [OF pend] by (auto simp: used_def)
  have h: "holds (cc_alloc s) \<noteq> Some (chunk_addr c)" using inv(9) [of p t] pend c(2) by auto
  obtain mm where mm: "cc_abs base sz s = (mm, cc_mem s)" by (simp add: cc_abs_def)
  have lay: "layout (unat base) (mm_chunks mm) (unat base + unat sz)" "c \<in> set (mm_chunks mm)"
    using mm_reachable_inv [OF bound inv(1)] abs_chunk [OF assms(1) c(1) h] mm by (auto simp: mm_inv_def mm_region_def)
  have "zeroed p (chunk_size c) (cc_mem s)" using inv(13) [of t] c(1,2) by (simp add: assms(4) zero_at_def)
  then have mem: "snd (free_loop p (mm_chunks mm) (cc_mem s)) = cc_mem s"
    using layout_unique [OF lay(1) _ lay(2)] c(2) by (auto simp: free_loop_memory zeroed_def fun_eq_iff)
  have "mm_free p mm (cc_mem s) = (mm\<lparr>mm_chunks := set_flag p True (mm_chunks mm)\<rparr>, cc_mem s)"
    using mem free_loop_chunks [of p "mm_chunks mm" "cc_mem s"] by (cases "free_loop p (mm_chunks mm) (cc_mem s)") (simp add: mm_free_def set_flag_def)
  from reach_step [OF inv(1) [unfolded mm] step_free [OF this]]
  have "mm_reachable base sz (mm\<lparr>mm_chunks := set_flag p True (mm_chunks mm)\<rparr>, cc_mem s)" .
  moreover have "cc_abs base sz ?s = (mm\<lparr>mm_chunks := set_flag p True (mm_chunks mm)\<rparr>, cc_mem s)"
  proof (cases "\<exists>q n. cc_alloc s = A_split q n")
    case True
    then obtain q n where a: "cc_alloc s = A_split q n" by blast
    then have "p \<noteq> q" using h c(2) by simp
    with set_flag_split_at [of "unat base" q "round_size n" "cc_chunks s" "unat base + unat sz" c p True] lay(1) c mm a show ?thesis
      by (auto simp: cc_abs_def)
  next
    case False
    then show ?thesis using mm by (auto simp: cc_abs_def split: alloc_pc.splits)
  qed
  ultimately have r: "mm_reachable base sz (cc_abs base sz ?s)" by simp
  have used: "used ?s q" if "used s q" "q \<noteq> p" for q using that by (auto simp: used_def used_set_flag)
  have nodes: "nodes ?s = nodes s" by (simp add: nodes_def set_flag_fields)
  have same: "cc_owned ?s = cc_owned s" "cc_alloc ?s = cc_alloc s" by simp_all
  have pn: "p \<in> nodes s" using used_node inv(5) [OF pend] by blast
  have zero: "zero_at ?s q" if "zero_at s q" for q using that by (auto simp: zero_at_def elim!: set_flag_elem)
  have aw: "alloc_walks ?s pc" if "alloc_walks s pc" for pc using that by (cases pc) (auto simp: nodes elim!: set_flag_elem split: if_splits)
  have fw: "free_walks ?s f" if "free_walks s f" for f using that zero by (cases f) (simp_all add: nodes)
  have np: "q \<noteq> p" if "pend (cc_free ?s u) = Some q" for u q using that inv(10) [OF pend, of u] by (auto split: if_splits)
  have op: "pend (cc_free s u) = Some q" if "pend (cc_free ?s u) = Some q" for u q using that by (auto split: if_splits)
  show ?thesis
  proof (rule cinvI)
    show "cc_chunks ?s \<noteq> []" using inv(3) by (simp add: set_flag_def)
    show "used ?s q" if "q \<in> cc_owned ?s" for q using that used inv(4,7) pend by fastforce
    show "used ?s q" if "pend (cc_free ?s u) = Some q" for u q using used inv(5) [OF op [OF that]] np [OF that] by blast
    show "used ?s q" if "holds (cc_alloc ?s) = Some q" for q using that used inv(6,9) pend by fastforce
    show "free_walks ?s (cc_free ?s u)" for u
    proof (cases "u = t")
      case True
      then have "free_walks ?s (cc_free ?s u) \<longleftrightarrow> p \<in> nodes ?s" by simp
      then show ?thesis using pn by (simp only: nodes)
    next
      case False
      then have "cc_free ?s u = cc_free s u" by simp
      then show ?thesis using fw [OF inv(13) [of u]] by (simp only:)
    qed
    show "u = v" if "pend (cc_free ?s u) = Some q" "pend (cc_free ?s v) = Some q" for u v q using inv(10) op that by blast
    show "pend (cc_free ?s u) \<noteq> Some q" if "q \<in> cc_owned ?s" for u q using inv(7) [of q u] op [of u q] that unfolding same by blast
    show "pend (cc_free ?s u) \<noteq> Some q" if "holds (cc_alloc ?s) = Some q" for u q using inv(9) [of q u] op [of u q] that unfolding same by blast
  qed (use r inv zero aw in \<open>simp_all add: set_flag_fields\<close>)
qed

lemma cinv_call_free:
  assumes "cinv base sz s" and "p \<in> cc_owned s" and "cc_free s t = F_idle"
  shows "cinv base sz (s\<lparr>cc_owned := cc_owned s - {p}, cc_free := (cc_free s)(t := F_compare (head_addr (cc_chunks s)) p)\<rparr>)" (is "cinv _ _ ?s")
proof -
  note inv = cinv_facts [OF assms(1)]
  have "head_addr (cc_chunks s) \<le> p" using head_least [OF inv(2)] used_node inv(4) [OF assms(2)] by blast
  then have pend: "pend (cc_free ?s u) = (if u = t then Some p else pend (cc_free s u))" for u by simp
  have aw: "alloc_walks ?s pc = alloc_walks s pc" for pc by (cases pc) (simp_all add: nodes_def)
  have fw: "free_walks ?s f = free_walks s f" for f by (cases f) (simp_all add: nodes_def zero_at_def)
  have same: "used ?s = used s" "zero_at ?s = zero_at s" "cc_abs base sz ?s = cc_abs base sz s"
    by (simp_all add: used_def zero_at_def cc_abs_def fun_eq_iff split: alloc_pc.split)
  show ?thesis
  proof (rule cinvI, unfold pend fw aw same)
    show "used s q" if "(if u = t then Some p else pend (cc_free s u)) = Some q" for u q
      using that inv(4,5) assms(2) by (cases "u = t") auto
    show "(if u = t then Some p else pend (cc_free s u)) \<noteq> Some q" if "q \<in> cc_owned ?s" for u q
      using that inv(7) by auto
    show "(if u = t then Some p else pend (cc_free s u)) \<noteq> Some q" if "holds (cc_alloc ?s) = Some q" for u q
      using that inv(8) [of q] inv(9) [of q u] assms(2) by auto
    show "u = v" if "(if u = t then Some p else pend (cc_free s u)) = Some q" "(if v = t then Some p else pend (cc_free s v)) = Some q" for u v q
      using that inv(7) [OF assms(2)] inv(10) [of u q v] by (auto split: if_splits)
    show "free_walks s (cc_free ?s u)" for u using inv(13) head_node [OF inv(3)] by simp
  qed (use inv in auto)
qed

lemma cinv_step:
  assumes "cinv base sz s" and bound: "unat base + unat sz < 2 ^ 64" "0 < unat sz" and "mm_cstep s s'"
    and wait: "\<And>t n. cc_wait s t = Some n \<Longrightarrow> good_size n"
  shows "cinv base sz s'"
proof -
  note inv = cinv_facts [OF assms(1)]
  note sorted = layout_sorted [OF inv(2)]
  from assms(4) show ?thesis
  proof (cases rule: mm_cstep.cases)
    case (c_call t n)
    then show ?thesis using assms(1) by simp
  next
    case (c_lock t n)
    have "cinv base sz (s\<lparr>cc_alloc := A_test (head_addr (cc_chunks s)) n\<rparr>)"
      using head_node [OF inv(3)] wait [OF c_lock(3)] c_lock(2) by (intro cinv_move_alloc [OF assms(1)]) simp_all
    moreover have "s' = (s\<lparr>cc_alloc := A_test (head_addr (cc_chunks s)) n\<rparr>)\<lparr>cc_wait := (cc_wait s)(t := None)\<rparr>" using c_lock(1) by simp
    ultimately show ?thesis by (simp only: cinv_wait)
  next
    case (c_test p n c)
    let ?pc = "if chunk_free c \<and> round_size n \<le> chunk_size c then A_cas p n else A_next p n"
    have walk: "p \<in> nodes s" "good_size n" using inv(12) unfolding c_test(2) by simp_all
    have one: "chunk_free d = chunk_free c \<and> chunk_size d = chunk_size c" if "d \<in> set (cc_chunks s)" "chunk_addr d = p" for d
      using layout_unique [OF inv(2) that(1) c_test(3)] that(2) c_test(4) by simp
    have "alloc_walks s ?pc \<and> holds ?pc = None"
    proof (cases "chunk_free c \<and> round_size n \<le> chunk_size c")
      case True
      then have "\<forall>d \<in> set (cc_chunks s). chunk_addr d = p \<longrightarrow> chunk_free d \<and> round_size n \<le> chunk_size d" by (metis one)
      with walk show ?thesis unfolding if_P [OF True] by simp
    next
      case False
      show ?thesis unfolding if_not_P [OF False] using walk by simp
    qed
    then show ?thesis unfolding c_test(1) by (intro cinv_move_alloc [OF assms(1)]) (simp_all add: c_test(2))
  next
    case (c_cas p n c)
    then show ?thesis using cinv_cas [OF assms(1) bound] by blast
  next
    case (c_cas_fails p n)
    then show ?thesis using inv(12) by (auto intro!: cinv_move_alloc [OF assms(1)])
  next
    case (c_split p n)
    then show ?thesis using cinv_split [OF assms(1) bound] by blast
  next
    case (c_next p n)
    have "alloc_walks s (case next_addr (cc_chunks s) p of None \<Rightarrow> A_return None | Some d \<Rightarrow> A_test d n)"
      using inv(12) c_next(2) next_addr_Some [OF sorted] by (auto simp: nodes_def split: option.split)
    then show ?thesis using c_next by (auto intro!: cinv_move_alloc [OF assms(1)] split: option.split)
  next
    case (c_unlock r)
    have "cc_abs base sz s' = cc_abs base sz s" "used s' = used s" "zero_at s' = zero_at s"
      using c_unlock by (auto simp: cc_abs_def used_def zero_at_def fun_eq_iff)
    moreover have "free_walks s' f = free_walks s f" for f by (cases f) (simp_all add: c_unlock(1) nodes_def zero_at_def)
    ultimately show ?thesis
      by (intro cinvI) (use c_unlock inv in auto)
  next
    case (c_call_free p t)
    then show ?thesis using cinv_call_free [OF assms(1)] by blast
  next
    case (c_compare t q p)
    have "pend (if q = p then F_clear p else F_next q p) = pend (cc_free s t)" "free_walks s (if q = p then F_clear p else F_next q p)"
      using inv(13) [of t] by (simp_all add: c_compare(2) order.strict_iff_order)
    then show ?thesis unfolding c_compare(1) by (intro cinv_move_free [OF assms(1)]) simp_all
  next
    case (c_clear t p c)
    then show ?thesis using cinv_clear [OF assms(1) bound] by blast
  next
    case (c_set t p)
    then show ?thesis using cinv_set [OF assms(1) bound] by blast
  next
    case (c_free_next t q p)
    let ?f = "case next_addr (cc_chunks s) q of None \<Rightarrow> F_idle | Some d \<Rightarrow> F_compare d p"
    have "(pend ?f = pend (cc_free s t) \<or> pend ?f = None) \<and> free_walks s ?f"
    proof (cases "next_addr (cc_chunks s) q")
      case (Some d)
      from next_addr_Some [OF sorted Some] have d: "d \<in> nodes s" "q < d" "\<And>r. r \<in> nodes s \<Longrightarrow> q < r \<Longrightarrow> d \<le> r"
        unfolding nodes_def by blast+
      have "p \<in> nodes s" if "q < p" using used_node inv(5) [of t p] that by (simp add: c_free_next(2))
      then have "q < p \<longleftrightarrow> d \<le> p" using d by (auto intro: less_le_trans)
      then show ?thesis using Some d(1) by (simp add: c_free_next(2))
    qed simp
    then show ?thesis using c_free_next(1) cinv_move_free [OF assms(1)] by blast
  next
    case (c_write p c x v)
    then show ?thesis using cinv_write [OF assms(1) bound] by blast
  qed
qed

lemma waiting_sizes: "mm_creachable base sz s \<Longrightarrow> cc_wait s t = Some n \<Longrightarrow> good_size n"
proof (induction arbitrary: t n rule: mm_creachable.induct)
  case (c_init mem)
  then show ?case by (simp add: mm_cinit_def mm_construct_def)
next
  case (c_step s s')
  from c_step(2) c_step(4) c_step(3) show ?case by (cases rule: mm_cstep.cases) (auto split: if_splits)
qed

lemma cinv_reachable:
  assumes "unat base + unat sz < 2 ^ 64" and "0 < unat sz" and "mm_creachable base sz s"
  shows "cinv base sz s"
  using assms(3)
proof (induction rule: mm_creachable.induct)
  case (c_init mem)
  have "mm_reachable base sz (cc_abs base sz (mm_cinit base sz mem))"
    using reach_construct [of base sz mem] by (simp add: cc_abs_def mm_cinit_def mm_construct_def)
  then show ?case
    using assms(1,2) by (intro cinvI) (auto simp: mm_cinit_def mm_construct_def new_chunk_def)
next
  case (c_step s s')
  then show ?case using cinv_step [OF _ assms(1,2)] waiting_sizes by blast
qed

text \<open>A thread that \<open>free\<close> makes walk to the end of the list has released its argument.\<close>

lemma walked_to_end:
  assumes "cinv base sz s" and "cc_free s t = F_next q p" and "next_addr (cc_chunks s) q = None"
  shows "pend (cc_free s t) = None"
proof -
  note inv = cinv_facts [OF assms(1)]
  have "\<not> q < p"
  proof
    assume "q < p"
    then have "p \<in> nodes s" using used_node inv(5) [of t p] by (simp add: assms(2))
    moreover have "q \<in> nodes s" using inv(13) [of t] by (simp add: assms(2))
    ultimately have "p \<le> q" using next_addr_None [OF layout_sorted [OF inv(2)] assms(3)] by (simp add: nodes_def)
    with \<open>q < p\<close> show False by simp
  qed
  then show ?thesis by (simp add: assms(2))
qed

text \<open>The blocks that somebody is responsible for: the clients, the threads inside \<open>free\<close> before they have set
  the flag, and the thread inside \<open>allocate\<close>.\<close>

definition responsible :: "mm_conc \<Rightarrow> u64 set" where
  "responsible s = cc_owned s \<union> pending s \<union> set_option (holds (cc_alloc s))"

lemma responsible_used:
  assumes "cinv base sz s" and "p \<in> responsible s"
  shows "used s p"
  using cinv_facts(4-6) [OF assms(1)] assms(2) by (auto simp: responsible_def pending_def)

section \<open>Progress\<close>

text \<open>How much of a call is left, in terms of the address of the node it looks at.\<close>

fun free_left :: "free_pc \<Rightarrow> nat" where
  "free_left F_idle = 0"
| "free_left (F_compare q p) = 4 * (2 ^ 64 - unat q) + 3"
| "free_left (F_clear p) = 4 * (2 ^ 64 - unat p) + 2"
| "free_left (F_set p) = 4 * (2 ^ 64 - unat p) + 1"
| "free_left (F_next q p) = 4 * (2 ^ 64 - unat q)"

fun alloc_left :: "alloc_pc \<Rightarrow> nat" where
  "alloc_left A_idle = 0"
| "alloc_left (A_return r) = 1"
| "alloc_left (A_test p n) = 4 * (2 ^ 64 - unat p) + 3"
| "alloc_left (A_cas p n) = 4 * (2 ^ 64 - unat p) + 2"
| "alloc_left (A_split p n) = 2"
| "alloc_left (A_next p n) = 4 * (2 ^ 64 - unat p)"

lemma addr_below: "0 < (2 :: nat) ^ 64 - unat (q :: u64)"
  using unsigned_less [of q, where 'a = nat] by simp

lemma addr_closer: "q < d \<Longrightarrow> 4 * (2 ^ 64 - unat (d :: u64)) + 3 < 4 * (2 ^ 64 - unat q)"
  using unsigned_less [of d, where 'a = nat] by (simp add: word_less_nat_alt)

lemma next_addr_closer:
  assumes "cinv base sz s" and "next_addr (cc_chunks s) q = Some d"
  shows "q < d"
  using next_addr_Some [OF layout_sorted [OF cinv_facts(2) [OF assms(1)]] assms(2)] by blast

lemma free_step_closer:
  assumes "cinv base sz s" and "mm_cstep s s'" and "cc_free s t \<noteq> F_idle"
  shows "cc_free s' t = cc_free s t \<or> free_left (cc_free s' t) < free_left (cc_free s t)"
  using assms(2)
proof (cases rule: mm_cstep.cases)
  case (c_free_next u q p)
  then show ?thesis using addr_below [of q] next_addr_closer [OF assms(1)] addr_closer [of q]
    by (cases "u = t"; cases "next_addr (cc_chunks s) q") auto
qed (use assms(3) in auto)

lemma alloc_step_closer:
  assumes "cinv base sz s" and "mm_cstep s s'" and "cc_alloc s \<noteq> A_idle"
  shows "cc_alloc s' = cc_alloc s \<or> alloc_left (cc_alloc s') < alloc_left (cc_alloc s)"
  using assms(2)
proof (cases rule: mm_cstep.cases)
  case (c_next p n)
  then show ?thesis using addr_below [of p] next_addr_closer [OF assms(1)] addr_closer [of p]
    by (cases "next_addr (cc_chunks s) p") auto
next
  case (c_cas p n c)
  then show ?thesis using addr_below [of p] by simp
qed (use assms(3) in auto)

lemma free_can_step:
  assumes "cinv base sz s" and "cc_free s t \<noteq> F_idle"
  shows "\<exists>s'. mm_cstep s s' \<and> free_left (cc_free s' t) < free_left (cc_free s t)"
proof -
  have "\<exists>s'. mm_cstep s s' \<and> cc_free s' t \<noteq> cc_free s t"
  proof (cases "cc_free s t")
    case (F_compare q p)
    from c_compare [OF this] F_compare show ?thesis by (intro exI conjI) (assumption, simp)
  next
    case (F_clear p)
    then have "used s p" using cinv_facts(5) [OF assms(1), of t p] by simp
    then obtain c where "c \<in> set (cc_chunks s)" "chunk_addr c = p" by (auto simp: used_def)
    from c_clear [OF F_clear this] F_clear show ?thesis by (intro exI conjI) (assumption, simp)
  next
    case (F_set p)
    from c_set [OF this] F_set show ?thesis by (intro exI conjI) (assumption, simp)
  next
    case (F_next q p)
    from c_free_next [OF this] F_next show ?thesis by (intro exI conjI) (assumption, simp split: option.split)
  qed (use assms(2) in simp)
  then show ?thesis using free_step_closer [OF assms(1) _ assms(2)] by blast
qed

lemma alloc_can_step:
  assumes "cinv base sz s" and "cc_alloc s \<noteq> A_idle"
  shows "\<exists>s'. mm_cstep s s' \<and> alloc_left (cc_alloc s') < alloc_left (cc_alloc s) \<and> cc_wait s' = cc_wait s"
proof -
  have "\<exists>s'. mm_cstep s s' \<and> cc_alloc s' \<noteq> cc_alloc s \<and> cc_wait s' = cc_wait s"
  proof (cases "cc_alloc s")
    case (A_test p n)
    then obtain c where "c \<in> set (cc_chunks s)" "chunk_addr c = p" using cinv_facts(12) [OF assms(1)] by (auto simp: nodes_def)
    from c_test [OF A_test this] A_test show ?thesis by (intro exI conjI) (assumption, simp_all)
  next
    case (A_cas p n)
    from c_cas_fails [OF this] A_cas show ?thesis by (intro exI conjI) (assumption, simp_all)
  next
    case (A_split p n)
    from c_split [OF this] A_split show ?thesis by (intro exI conjI) (assumption, simp_all)
  next
    case (A_next p n)
    from c_next [OF this] A_next show ?thesis by (intro exI conjI) (assumption, simp_all split: option.split)
  next
    case (A_return r)
    from c_unlock [OF this] A_return show ?thesis by (intro exI conjI) (assumption, simp_all)
  qed (use assms(2) in simp)
  then show ?thesis using alloc_step_closer [OF assms(1) _ assms(2)] by blast
qed

text \<open>The call that holds the mutex releases it by steps of its own, whatever waits.\<close>

lemma holder_finishes:
  assumes "unat base + unat sz < 2 ^ 64" and "0 < unat sz"
  shows "mm_creachable base sz s \<Longrightarrow> \<exists>s'. mm_cstep\<^sup>*\<^sup>* s s' \<and> mm_creachable base sz s' \<and> cc_alloc s' = A_idle \<and> cc_wait s' = cc_wait s"
proof (induction "alloc_left (cc_alloc s)" arbitrary: s rule: less_induct)
  case less
  show ?case
  proof (cases "cc_alloc s = A_idle")
    case True
    with less(2) show ?thesis by blast
  next
    case False
    from alloc_can_step [OF cinv_reachable [OF assms less(2)] False] obtain s1 where
      s1: "mm_cstep s s1" "alloc_left (cc_alloc s1) < alloc_left (cc_alloc s)" "cc_wait s1 = cc_wait s" by blast
    from less(1) [OF s1(2) c_step [OF less(2) s1(1)]] s1(1,3) show ?thesis by (metis converse_rtranclp_into_rtranclp)
  qed
qed

lemma waiting_call_step:
  assumes "mm_cstep s s'" and "cc_wait s t = Some n"
  shows "cc_wait s' t = Some n \<or> cc_alloc s = A_idle \<and> cc_wait s' t = None \<and> cc_alloc s' = A_test (head_addr (cc_chunks s)) n"
  using assms(1)
proof (cases rule: mm_cstep.cases)
  case (c_lock u m)
  then show ?thesis using assms(2) by (cases "u = t") auto
qed (use assms(2) in auto)

lemma waiting_call_completes:
  assumes "unat base + unat sz < 2 ^ 64" and "0 < unat sz" and "mm_creachable base sz s" and "cc_wait s t = Some n"
  shows "\<exists>s1 s2 s3. mm_cstep\<^sup>*\<^sup>* s s1 \<and> cc_alloc s1 = A_idle \<and> mm_cstep s1 s2 \<and> cc_alloc s2 = A_test (head_addr (cc_chunks s1)) n \<and>
    mm_cstep\<^sup>*\<^sup>* s2 s3 \<and> cc_alloc s3 = A_idle \<and> cc_wait s3 = (cc_wait s)(t := None)"
proof -
  from holder_finishes [OF assms(1-3)] obtain s1 where
    s1: "mm_cstep\<^sup>*\<^sup>* s s1" "mm_creachable base sz s1" "cc_alloc s1 = A_idle" "cc_wait s1 = cc_wait s" by blast
  let ?s2 = "s1\<lparr>cc_wait := (cc_wait s1)(t := None), cc_alloc := A_test (head_addr (cc_chunks s1)) n\<rparr>"
  have step: "mm_cstep s1 ?s2" using c_lock [OF s1(3), of t n] s1(4) assms(4) by simp
  from holder_finishes [OF assms(1,2) mm_creachable.c_step [OF s1(2) step]] obtain s3 where
    "mm_cstep\<^sup>*\<^sup>* ?s2 s3" "cc_alloc s3 = A_idle" "cc_wait s3 = cc_wait ?s2" by blast
  with s1 step show ?thesis by (intro exI [of _ s1] exI [of _ ?s2] exI [of _ s3]) simp
qed

text \<open>Ownership is given up by calling \<open>free\<close>, and a call of \<open>free\<close> ends its responsibility by setting the flag.\<close>

lemma cinv_owned_step:
  assumes "cinv base sz s" and "mm_cstep s s'" and "p \<in> cc_owned s" and "p \<notin> cc_owned s'"
  shows "\<exists>t. cc_free s t = F_idle \<and> pend (cc_free s' t) = Some p"
  using assms(2)
proof (cases rule: mm_cstep.cases)
  case (c_call_free q t)
  then have "q = p" using assms(3,4) by auto
  moreover have "head_addr (cc_chunks s) \<le> p"
    using head_least [OF cinv_facts(2) [OF assms(1)]] used_node cinv_facts(4) [OF assms(1,3)] by blast
  ultimately show ?thesis using c_call_free by (intro exI [of _ t]) simp
qed (use assms(3,4) in auto)

lemma cinv_release_step:
  assumes "cinv base sz s" and "mm_cstep s s'" and "pend (cc_free s t) = Some p" and "pend (cc_free s' t) \<noteq> Some p"
  shows "\<exists>c \<in> set (cc_chunks s'). chunk_addr c = p \<and> chunk_free c \<and> zeroed p (chunk_size c) (cc_mem s')"
proof -
  note inv = cinv_facts [OF assms(1)]
  from assms(2) show ?thesis
  proof (cases rule: mm_cstep.cases)
    case (c_set u q)
    then have q: "u = t" "q = p" using assms(3,4) by (auto split: if_splits)
    obtain c where c: "c \<in> set (cc_chunks s)" "chunk_addr c = p" using inv(5) [OF assms(3)] by (auto simp: used_def)
    have "zeroed p (chunk_size c) (cc_mem s)" using inv(13) [of t] c c_set(2) q by (auto simp: zero_at_def)
    moreover have "c\<lparr>chunk_free := True\<rparr> \<in> set (set_flag p True (cc_chunks s))" using c by (force simp: in_set_flag)
    ultimately show ?thesis using c(2) q c_set(1) by (intro bexI [of _ "c\<lparr>chunk_free := True\<rparr>"]) simp_all
  next
    case (c_free_next u q r)
    have "u = t" using assms(3,4) c_free_next by (auto split: if_splits)
    then have r: "r = p" "q < p" using assms(3) c_free_next(2) by (auto split: if_splits)
    show ?thesis
    proof (cases "next_addr (cc_chunks s) q")
      case None
      from walked_to_end [OF assms(1) c_free_next(2) this] assms(3) \<open>u = t\<close> show ?thesis by simp
    next
      case (Some d)
      have "p \<in> nodes s" using used_node inv(5) [OF assms(3)] by blast
      then have "d \<le> p" using next_addr_Some [OF layout_sorted [OF inv(2)] Some] r(2) by (auto simp: nodes_def)
      then show ?thesis using assms(4) c_free_next(1) Some \<open>u = t\<close> r by simp
    qed
  qed (use assms(3,4) in \<open>auto split: if_splits simp: order.strict_iff_order\<close>)
qed

section \<open>An interleaving\<close>

text \<open>A call has allocated 100 bytes; call 0 of \<open>free\<close> is releasing them and has cleared them, when another
  allocation has taken the mutex and is looking at the same chunk, and a third one waits for the mutex.\<close>

definition sample_chunks :: "memChunk list" where
  "sample_chunks = [\<lparr>chunk_addr = 0x10000, chunk_size = 0x1000, chunk_free = False\<rparr>, new_chunk 0x11000 0x7000]"

definition sample_memory :: memory where
  "sample_memory = memset 0x10000 0 0x8000 (\<lambda>_. 7)"

definition sample_returning :: mm_conc where
  "sample_returning = \<lparr>cc_chunks = sample_chunks, cc_mem = sample_memory, cc_alloc = A_return (Some 0x10000), cc_wait = (\<lambda>_. None),
     cc_free = (\<lambda>_. F_idle), cc_owned = {}\<rparr>"

definition sample_state :: mm_conc where
  "sample_state = \<lparr>cc_chunks = sample_chunks, cc_mem = memset 0x10000 0 0x1000 sample_memory,
     cc_alloc = A_test 0x10000 100, cc_wait = (\<lambda>_. None)(2 := Some 200), cc_free = (\<lambda>_. F_idle)(0 := F_set 0x10000), cc_owned = {}\<rparr>"

lemma sample_returning_reachable: "mm_creachable 0x10000 0x8000 sample_returning"
proof -
  let ?s = "\<lambda>cs pc w. \<lparr>cc_chunks = cs, cc_mem = sample_memory, cc_alloc = pc, cc_wait = (\<lambda>_. None)(1 := w), cc_free = (\<lambda>_. F_idle), cc_owned = {}\<rparr>"
  let ?c = "[new_chunk 0x10000 0x8000]" and ?d = "[\<lparr>chunk_addr = 0x10000, chunk_size = 0x8000, chunk_free = False\<rparr>]"
  have rs: "round_size 100 = 0x1000" by (simp add: round_size_def)
  have "mm_creachable 0x10000 0x8000 (?s ?c A_idle None)"
    using c_init [of "0x10000" "0x8000" "\<lambda>_. 7"] by (simp add: mm_cinit_def mm_construct_def sample_memory_def fun_upd_idem)
  moreover have "mm_cstep (?s ?c A_idle None) (?s ?c A_idle (Some 100))"
    using c_call [of "?s ?c A_idle None" 1 100] by (simp add: good_size_def)
  moreover have "mm_cstep (?s ?c A_idle (Some 100)) (?s ?c (A_test 0x10000 100) None)"
    using c_lock [of "?s ?c A_idle (Some 100)" 1 100] by (simp add: head_addr_def new_chunk_def)
  moreover have "mm_cstep (?s ?c (A_test 0x10000 100) None) (?s ?c (A_cas 0x10000 100) None)"
    using c_test [of "?s ?c (A_test 0x10000 100) None" "0x10000" 100 "new_chunk 0x10000 0x8000"] by (simp add: new_chunk_def rs)
  moreover have "mm_cstep (?s ?c (A_cas 0x10000 100) None) (?s ?d (A_split 0x10000 100) None)"
    using c_cas [of "?s ?c (A_cas 0x10000 100) None" "0x10000" 100 "new_chunk 0x10000 0x8000"] by (simp add: new_chunk_def set_flag_def)
  moreover have "mm_cstep (?s ?d (A_split 0x10000 100) None) sample_returning"
    using c_split [of "?s ?d (A_split 0x10000 100) None" "0x10000" 100]
    by (simp add: split_at_def taken_def rs sample_chunks_def sample_returning_def fun_upd_idem)
  ultimately show ?thesis by (meson c_step)
qed

lemma sample_reachable: "mm_creachable 0x10000 0x8000 sample_state"
proof -
  let ?s = "\<lambda>mem pc w f ow. \<lparr>cc_chunks = sample_chunks, cc_mem = mem, cc_alloc = pc, cc_wait = w, cc_free = (\<lambda>_. F_idle)(0 := f), cc_owned = ow\<rparr>"
  let ?c = "\<lparr>chunk_addr = 0x10000, chunk_size = 0x1000, chunk_free = False\<rparr>"
  let ?w = "(\<lambda>_. None)(2 := Some 200)" and ?m = sample_memory
  let ?m' = "memset 0x10000 0 0x1000 ?m"
  have hd: "head_addr sample_chunks = 0x10000" by (simp add: head_addr_def sample_chunks_def)
  have "mm_cstep sample_returning (?s ?m A_idle (\<lambda>_. None) F_idle {0x10000})"
    using c_unlock [of sample_returning "Some 0x10000"] by (simp add: sample_returning_def fun_upd_idem)
  moreover have "mm_cstep (?s ?m A_idle (\<lambda>_. None) F_idle {0x10000}) (?s ?m A_idle ?w F_idle {0x10000})"
    using c_call [of "?s ?m A_idle (\<lambda>_. None) F_idle {0x10000}" 2 200] by (simp add: good_size_def)
  moreover have "mm_cstep (?s ?m A_idle ?w F_idle {0x10000}) (?s ?m A_idle ?w (F_compare 0x10000 0x10000) {})"
    using c_call_free [of "0x10000" "?s ?m A_idle ?w F_idle {0x10000}" 0] by (simp add: hd)
  moreover have "mm_cstep (?s ?m A_idle ?w (F_compare 0x10000 0x10000) {}) (?s ?m A_idle ?w (F_clear 0x10000) {})"
    using c_compare [of "?s ?m A_idle ?w (F_compare 0x10000 0x10000) {}" 0] by simp
  moreover have "mm_cstep (?s ?m A_idle ?w (F_clear 0x10000) {}) (?s ?m' A_idle ?w (F_set 0x10000) {})"
    using c_clear [of "?s ?m A_idle ?w (F_clear 0x10000) {}" 0 "0x10000" ?c] by (simp add: sample_chunks_def)
  moreover have "mm_cstep (?s ?m' A_idle ?w (F_set 0x10000) {}) (?s ?m' A_idle (?w(1 := Some 100)) (F_set 0x10000) {})"
    using c_call [of "?s ?m' A_idle ?w (F_set 0x10000) {}" 1 100] by (simp add: good_size_def)
  moreover have "mm_cstep (?s ?m' A_idle (?w(1 := Some 100)) (F_set 0x10000) {}) sample_state"
    using c_lock [of "?s ?m' A_idle (?w(1 := Some 100)) (F_set 0x10000) {}" 1 100]
    by (simp add: hd sample_state_def fun_upd_idem fun_upd_twist)
  ultimately show ?thesis using sample_returning_reachable by (meson c_step)
qed

lemma sample_released: "mm_cstep sample_state (sample_state\<lparr>cc_chunks := set_flag 0x10000 True sample_chunks, cc_free := (\<lambda>_. F_idle)(0 := F_next 0x10000 0x10000)\<rparr>)"
  using c_set [of sample_state 0 "0x10000"] by (simp add: sample_state_def)

lemma sample_bounds: "unat (0x10000 :: u64) + unat (0x8000 :: u64) < 2 ^ 64" "0 < unat (0x8000 :: u64)"
  by simp_all

section \<open>Properties\<close>

text \<open>C3. Every interleaving of \<open>allocate\<close> under the mutex and any number of calls of \<open>free\<close> without
  it is a run of the sequential allocator: at each moment the list of chunks and the memory are
  those of a state that a sequence of whole allocations, whole frees and writes can reach, where a chunk whose flag \<open>allocate\<close>
  has acquired and not yet split counts as split.\<close>

theorem concurrent_runs_are_serial:
  assumes "unat base + unat sz < 2 ^ 64" and "0 < unat sz" and "mm_creachable base sz s"
  shows "mm_reachable base sz (cc_abs base sz s)"
  using cinv_facts(1) [OF cinv_reachable [OF assms]] .

theorem concurrent_runs_are_serial_witness:
  "cc_free sample_state 0 = F_set 0x10000 \<and> cc_alloc sample_state = A_test 0x10000 100 \<and>
   mm_reachable 0x10000 0x8000 (cc_abs 0x10000 0x8000 sample_state)"
  using concurrent_runs_are_serial [OF sample_bounds sample_reachable] by (simp add: sample_state_def)

text \<open>C4. While any number of threads allocate and free, two different blocks that clients
  own, that are on their way through \<open>free\<close> or that \<open>allocate\<close> has acquired never overlap and lie in the
  managed region with their flags cleared, and the block \<open>allocate\<close> is about to return is
  all zero and belongs to nobody else.\<close>

theorem concurrent_blocks_safe:
  assumes "unat base + unat sz < 2 ^ 64" and "0 < unat sz" and "mm_creachable base sz s"
    and "c \<in> set (cc_chunks s)" and "chunk_addr c \<in> responsible s"
  shows "\<not> chunk_free c \<and> unat base \<le> unat (chunk_addr c) \<and> unat (chunk_addr c) + unat (chunk_size c) \<le> unat base + unat sz \<and>
    (\<forall>d \<in> set (cc_chunks s). chunk_addr d \<noteq> chunk_addr c \<longrightarrow> \<not> overlap (chunk_block c) (chunk_block d)) \<and>
    (cc_alloc s = A_return (Some (chunk_addr c)) \<longrightarrow>
      zeroed (chunk_addr c) (chunk_size c) (cc_mem s) \<and> chunk_addr c \<notin> cc_owned s \<union> pending s)"
proof (intro conjI ballI impI)
  note cinv = cinv_reachable [OF assms(1-3)]
  note inv = cinv_facts [OF cinv]
  show "\<not> chunk_free c" using responsible_used [OF cinv assms(5)] layout_unique [OF inv(2) _ assms(4)] by (auto simp: used_def)
  show "unat base \<le> unat (chunk_addr c)" "unat (chunk_addr c) + unat (chunk_size c) \<le> unat base + unat sz"
    using layout_chunk [OF inv(2) assms(4)] by simp_all
  show "\<not> overlap (chunk_block c) (chunk_block d)" if d: "d \<in> set (cc_chunks s)" "chunk_addr d \<noteq> chunk_addr c" for d
  proof -
    obtain pre post where cs: "cc_chunks s = pre @ c # post" using split_list [OF assms(4)] by blast
    then have "d \<in> set pre \<union> set post" using d by auto
    with inv(2) cs show ?thesis by (intro layout_disjoint) auto
  qed
  assume "cc_alloc s = A_return (Some (chunk_addr c))"
  then show "zeroed (chunk_addr c) (chunk_size c) (cc_mem s)" "chunk_addr c \<notin> cc_owned s \<union> pending s"
    using inv(8,9,11) assms(4) by (auto simp: pending_def zero_at_def)
qed

theorem concurrent_blocks_safe_witness:
  "cc_alloc sample_returning = A_return (Some 0x10000) \<and> zeroed 0x10000 0x1000 (cc_mem sample_returning) \<and>
   (0x10000 :: u64) \<notin> cc_owned sample_returning \<union> pending sample_returning \<and> \<not> overlap (0x10000, 0x1000) (0x11000, 0x7000)"
proof -
  let ?c = "\<lparr>chunk_addr = 0x10000, chunk_size = 0x1000, chunk_free = False\<rparr>"
  have r: "cc_alloc sample_returning = A_return (Some (chunk_addr ?c))" by (simp add: sample_returning_def)
  have c: "?c \<in> set (cc_chunks sample_returning)" "chunk_addr ?c \<in> responsible sample_returning" "new_chunk 0x11000 0x7000 \<in> set (cc_chunks sample_returning)"
    by (simp_all add: sample_returning_def sample_chunks_def responsible_def)
  note safe = concurrent_blocks_safe [OF sample_bounds sample_returning_reachable c(1,2)]
  have "\<not> overlap (chunk_block ?c) (chunk_block (new_chunk 0x11000 0x7000))" using safe c(3) by (force simp: new_chunk_def)
  with safe r show ?thesis by (simp add: chunk_block_def new_chunk_def)
qed

text \<open>A call of \<open>free\<close> never loses its block, however the list is split under it: it starts with its argument
  pending, and a step of any thread leaves it pending unless that step sets the flag of its chunk, whose
  memory is all zero at that moment. A call that has returned has therefore released its block.\<close>

theorem concurrent_free_releases:
  assumes "unat base + unat sz < 2 ^ 64" and "0 < unat sz" and "mm_creachable base sz s" and "mm_cstep s s'"
  shows "(p \<in> cc_owned s \<longrightarrow> p \<notin> cc_owned s' \<longrightarrow> (\<exists>t. cc_free s t = F_idle \<and> pend (cc_free s' t) = Some p)) \<and>
    (pend (cc_free s t) = Some p \<longrightarrow> pend (cc_free s' t) \<noteq> Some p \<longrightarrow>
      (\<exists>c \<in> set (cc_chunks s'). chunk_addr c = p \<and> chunk_free c \<and> zeroed p (chunk_size c) (cc_mem s')))"
  using cinv_owned_step [OF cinv_reachable [OF assms(1-3)] assms(4)]
    cinv_release_step [OF cinv_reachable [OF assms(1-3)] assms(4)] by blast

theorem concurrent_free_releases_witness:
  "\<exists>c \<in> set (set_flag 0x10000 True sample_chunks). chunk_addr c = 0x10000 \<and> chunk_free c \<and> zeroed 0x10000 (chunk_size c) (cc_mem sample_state)"
proof -
  have "pend (cc_free sample_state 0) = Some 0x10000" by (simp add: sample_state_def)
  with concurrent_free_releases [OF sample_bounds sample_reachable sample_released, of "0x10000" 0] show ?thesis by simp
qed

text \<open>C13. Progress of the calls. A call of \<open>free\<close> is wait free: every step of another call leaves it where it is,
  every step of its own brings it closer to its end in a measure that depends on that call
  only, and it can always make a step. The call of \<open>allocate\<close> that holds the mutex is not blocked by anything either, and releases the mutex when
  the measure of its own steps has run out. A call that waits for the mutex stays where it is until it gets the mutex, and it can
  always be completed: the holder finishes by its own steps, the waiting call takes the mutex and finishes by its own steps,
  while all other waiting calls stay where they are. (Which waiting call gets the mutex is not determined, so that no bound
  on the time of one of them follows.)\<close>

theorem concurrent_calls_progress:
  assumes "unat base + unat sz < 2 ^ 64" and "0 < unat sz" and "mm_creachable base sz s" and "mm_cstep s s'"
  shows "(cc_free s t \<noteq> F_idle \<longrightarrow> (cc_free s' t = cc_free s t \<or> free_left (cc_free s' t) < free_left (cc_free s t)) \<and>
      (\<exists>s''. mm_cstep s s'' \<and> free_left (cc_free s'' t) < free_left (cc_free s t))) \<and>
    (cc_alloc s \<noteq> A_idle \<longrightarrow> (cc_alloc s' = cc_alloc s \<or> alloc_left (cc_alloc s') < alloc_left (cc_alloc s)) \<and>
      (\<exists>s''. mm_cstep s s'' \<and> alloc_left (cc_alloc s'') < alloc_left (cc_alloc s) \<and> cc_wait s'' = cc_wait s)) \<and>
    (cc_wait s t = Some n \<longrightarrow>
      (cc_wait s' t = Some n \<or> cc_alloc s = A_idle \<and> cc_wait s' t = None \<and> cc_alloc s' = A_test (head_addr (cc_chunks s)) n) \<and>
      (\<exists>s1 s2 s3. mm_cstep\<^sup>*\<^sup>* s s1 \<and> cc_alloc s1 = A_idle \<and> mm_cstep s1 s2 \<and> cc_alloc s2 = A_test (head_addr (cc_chunks s1)) n \<and>
        mm_cstep\<^sup>*\<^sup>* s2 s3 \<and> cc_alloc s3 = A_idle \<and> cc_wait s3 = (cc_wait s)(t := None)))"
proof -
  note inv = cinv_reachable [OF assms(1-3)]
  have "cc_free s t \<noteq> F_idle \<longrightarrow> (cc_free s' t = cc_free s t \<or> free_left (cc_free s' t) < free_left (cc_free s t)) \<and>
      (\<exists>s''. mm_cstep s s'' \<and> free_left (cc_free s'' t) < free_left (cc_free s t))"
    using free_step_closer [OF inv assms(4)] free_can_step [OF inv] by blast
  moreover have "cc_alloc s \<noteq> A_idle \<longrightarrow> (cc_alloc s' = cc_alloc s \<or> alloc_left (cc_alloc s') < alloc_left (cc_alloc s)) \<and>
      (\<exists>s''. mm_cstep s s'' \<and> alloc_left (cc_alloc s'') < alloc_left (cc_alloc s) \<and> cc_wait s'' = cc_wait s)"
    using alloc_step_closer [OF inv assms(4)] alloc_can_step [OF inv] by blast
  ultimately show ?thesis using waiting_call_step [OF assms(4), of t n] waiting_call_completes [OF assms(1-3), of t n] by blast
qed

theorem concurrent_calls_progress_witness:
  "(\<exists>s. mm_cstep sample_state s \<and> alloc_left (cc_alloc s) < alloc_left (A_test 0x10000 100)) \<and> cc_wait sample_state 2 = Some 200 \<and>
   (\<exists>s1 s2 s3. mm_cstep\<^sup>*\<^sup>* sample_state s1 \<and> mm_cstep s1 s2 \<and> cc_alloc s2 = A_test (head_addr (cc_chunks s1)) 200 \<and>
      mm_cstep\<^sup>*\<^sup>* s2 s3 \<and> cc_alloc s3 = A_idle)"
proof -
  have s: "cc_alloc sample_state = A_test 0x10000 100" "cc_wait sample_state 2 = Some 200" by (simp_all add: sample_state_def)
  note p = concurrent_calls_progress [OF sample_bounds sample_reachable sample_released, of 2 200]
  from p s(1) have "\<exists>s. mm_cstep sample_state s \<and> alloc_left (cc_alloc s) < alloc_left (A_test 0x10000 100)" by auto
  moreover from p s(2) have "\<exists>s1 s2 s3. mm_cstep\<^sup>*\<^sup>* sample_state s1 \<and> mm_cstep s1 s2 \<and> cc_alloc s2 = A_test (head_addr (cc_chunks s1)) 200 \<and>
      mm_cstep\<^sup>*\<^sup>* s2 s3 \<and> cc_alloc s3 = A_idle" by blast
  ultimately show ?thesis using s(2) by blast
qed

end
