(* ===== verification/Axi_Lite.thy ===== *)
theory Axi_Lite
  imports Register_Controllers
begin

text \<open>
  The AXI-Lite slaves of \<^verbatim>\<open>hdl/common/dma_controller.sv\<close> and \<^verbatim>\<open>hdl/common/benchmark_controller.sv\<close>,
  one edge of the clock at a time: the write state machine and the read state machine of each
  controller, out of reset, between the register slice and the registers.

  \<^item> Assignments are non-blocking: every right-hand side refers to the state before the edge, and of two
    assignments to a register the later one counts.
  \<^item> The logs record what passes on the wires: an address, a word of data or a response passes
    in a cycle in which both its valid and its ready signal are set, and so does a mapping or a
    benchmark command. \<open>ar_sample\<close> is the value of the inputs at the edge that loaded the
    read data.

  The lemmas show that for every sequence of inputs the wires carry the transactions of
  \<open>dma_ctrl_write\<close>, \<open>dma_ctrl_read\<close>, \<open>bench_ctrl_write\<close> and \<open>bench_ctrl_read\<close>, one at a time and in
  order, which is what the host controller is verified against.
\<close>

section \<open>Runs of a port\<close>

text \<open>What all ports share: one clock cycle is a step of the wires and the registers, and
  each step keeps the correspondence with some history of transactions from the same
  initial state.\<close>

locale port_run =
  fixes cycle :: "'i \<Rightarrow> 's \<Rightarrow> 's" and corresponds :: "'g \<Rightarrow> 's \<Rightarrow> bool" and initial :: "'g \<Rightarrow> 'd"
  assumes cycle_corresponds: "corresponds g s \<Longrightarrow> \<exists>g'. initial g' = initial g \<and> corresponds g' (cycle i s)"
begin

lemma run_corresponds: "corresponds g s \<Longrightarrow> \<exists>g'. initial g' = initial g \<and> corresponds g' (fold cycle ins s)"
proof (induction ins arbitrary: g s)
  case (Cons i ins)
  from cycle_corresponds [OF Cons(2), of i] obtain g' where "initial g' = initial g" "corresponds g' (cycle i s)" by blast
  with Cons(1) [of g' "cycle i s"] show ?case by auto
qed auto

end

lemma reg_number [simp]:
  "unat (a :: u32) = 2 \<longleftrightarrow> a = 2" "unat a = 3 \<longleftrightarrow> a = 3" "unat a = 10 \<longleftrightarrow> a = 10"
  "unat a = 11 \<longleftrightarrow> a = 11" "unat a = 13 \<longleftrightarrow> a = 13" "unat a = 14 \<longleftrightarrow> a = 14"
  by (simp_all add: word_unat_eq_iff)

section \<open>Signals and registers\<close>

datatype write_state = WRITE_IDLE | WRITE_DATA | WRITE_RESPONSE | WRITE_TLB | WRITE_DDR_BENCH | WRITE_DMA_BENCH

datatype read_state = READ_IDLE | READ_RESPONSE

record axil_write_in =
  awvalid :: bool
  awaddr :: u32
  wvalid :: bool
  wdata :: u32
  bready :: bool

record axil_write_regs =
  writeState :: write_state
  writeAddr :: u32
  awready :: bool
  wready :: bool
  bvalid :: bool
  bresp :: "2 word"
  word_counter :: u8

record dma_write_regs = axil_write_regs +
  tlb_interface_valid :: bool
  tlb_interface_data :: "136 word"
  reset_write_length :: bool
  reset_read_length :: bool

record bench_write_regs = axil_write_regs +
  ddr_cmd_valid :: bool
  ddr_cmd_data :: "193 word"
  ddr_cmd_dest :: "2 word"
  dma_cmd_valid :: bool
  dma_cmd_data :: "193 word"

text \<open>The logs of the write channels; \<open>'o\<close> is what the controller passes on.\<close>

record 'o write_log =
  log_aw :: "nat list"
  log_w :: "u32 list"
  log_b :: "2 word list"
  log_out :: "'o list"

definition no_log :: "'o write_log" where
  "no_log = \<lparr>log_aw = [], log_w = [], log_b = [], log_out = []\<rparr>"

text \<open>What passes on the three write channels in a cycle; \<open>reg\<close> is the register number of an address.\<close>

definition log_channels :: "(u32 \<Rightarrow> u32) \<Rightarrow> axil_write_in \<Rightarrow> 'a axil_write_regs_scheme \<Rightarrow> 'o write_log \<Rightarrow> 'o write_log" where
  "log_channels reg i st log = log\<lparr>
     log_aw := log_aw log @ (if awvalid i \<and> awready st then [unat (reg (awaddr i))] else []),
     log_w := log_w log @ (if wvalid i \<and> wready st then [wdata i] else []),
     log_b := log_b log @ (if bvalid st \<and> bready i then [bresp st] else [])\<rparr>"

section \<open>The DMA controller: writes\<close>

definition dma_write_reset :: "dma_write_regs \<Rightarrow> dma_write_regs" where
  "dma_write_reset st = st\<lparr>awready := False, wready := False, bvalid := False, tlb_interface_valid := False, word_counter := 0, writeState := WRITE_IDLE\<rparr>"

definition dma_reg :: "u32 \<Rightarrow> u32" where
  "dma_reg a = drop_bit 5 (take_bit 12 a)"

text \<open>The body of \<open>WRITE_DATA\<close> when a word is accepted.\<close>

definition dma_write_data :: "u32 \<Rightarrow> dma_write_regs \<Rightarrow> dma_write_regs" where
  "dma_write_data d st =
     (let st' = st\<lparr>wready := False, bvalid := True, bresp := 0, writeState := WRITE_RESPONSE\<rparr>; n = unat (word_counter st);
          w = tlb_interface_data st; next = st'\<lparr>word_counter := word_counter st + 1\<rparr> in
      if writeAddr st = 2 then
        (if n = 0 then next\<lparr>tlb_interface_data := range_set 31 0 d w\<rparr>
         else if n = 1 then next\<lparr>tlb_interface_data := range_set 63 32 d w\<rparr>
         else if n = 2 then next\<lparr>tlb_interface_data := range_set 95 64 d w\<rparr>
         else if n = 3 then next\<lparr>tlb_interface_data := range_set 127 96 d w\<rparr>
         else if n = 4 then
           st'\<lparr>tlb_interface_data := range_set 128 128 (range_get 0 0 d :: 1 word) w, bvalid := False, tlb_interface_valid := True,
               word_counter := 0, writeState := WRITE_TLB\<rparr>
         else next)
      else if writeAddr st = 10 then st'\<lparr>reset_read_length := True\<rparr>
      else if writeAddr st = 11 then st'\<lparr>reset_write_length := True\<rparr>
      else st')"

definition dma_write_edge :: "axil_write_in \<Rightarrow> bool \<Rightarrow> dma_write_regs \<Rightarrow> dma_write_regs" where
  "dma_write_edge i tlb_ready st =
     (case writeState st of
        WRITE_IDLE \<Rightarrow>
          (let st' = st\<lparr>awready := True, wready := False, bvalid := False, tlb_interface_valid := False,
                 reset_write_length := False, reset_read_length := False, writeAddr := dma_reg (awaddr i)\<rparr>
           in if awvalid i \<and> awready st then st'\<lparr>awready := False, wready := True, writeState := WRITE_DATA\<rparr> else st')
      | WRITE_DATA \<Rightarrow> if wvalid i \<and> wready st then dma_write_data (wdata i) st else st\<lparr>wready := True\<rparr>
      | WRITE_RESPONSE \<Rightarrow> if bvalid st \<and> bready i then st\<lparr>bvalid := False, writeState := WRITE_IDLE\<rparr> else st\<lparr>bvalid := True\<rparr>
      | WRITE_TLB \<Rightarrow>
          if tlb_interface_valid st \<and> tlb_ready then st\<lparr>bvalid := True, bresp := 0, tlb_interface_valid := False, writeState := WRITE_RESPONSE\<rparr>
          else st\<lparr>tlb_interface_valid := True\<rparr>
      | _ \<Rightarrow> st)"

fun dma_write_cycle :: "axil_write_in \<times> bool \<Rightarrow> dma_write_regs \<times> tlbMapping write_log \<Rightarrow> dma_write_regs \<times> tlbMapping write_log" where
  "dma_write_cycle (i, tlb_ready) (st, log) =
     (dma_write_edge i tlb_ready st,
      (log_channels dma_reg i st log)\<lparr>log_out := log_out log @
         (if tlb_interface_valid st \<and> tlb_ready then [unpack_mapping (tlb_interface_data st)] else [])\<rparr>)"

text \<open>The invariant: the transactions so far, as the wires have seen them. The mapping on the TLB
  interface counts as passed on.\<close>

definition dma_txns :: "(nat \<times> u32) list \<Rightarrow> dma_ctrl \<Rightarrow> dma_ctrl" where
  "dma_txns ts d = fold (\<lambda>(a, w). dma_ctrl_write a w) ts d"

text \<open>The phase of a transaction, the same for both controllers.\<close>

definition write_phase :: "(nat \<times> u32) list \<Rightarrow> 'a axil_write_regs_scheme \<Rightarrow> 'o write_log \<Rightarrow> bool" where
  "write_phase ts st log \<longleftrightarrow>
     log_aw log = map fst ts @ (if writeState st = WRITE_DATA then [unat (writeAddr st)] else []) \<and> log_w log = map snd ts \<and>
     length (log_b log) = length ts - (if writeState st \<in> {WRITE_IDLE, WRITE_DATA} then 0 else 1) \<and>
     (writeState st \<notin> {WRITE_IDLE, WRITE_DATA} \<longrightarrow> ts \<noteq> []) \<and> set (log_b log) \<subseteq> {0} \<and>
     (awready st \<longrightarrow> writeState st = WRITE_IDLE) \<and> (wready st \<longrightarrow> writeState st = WRITE_DATA) \<and>
     (bvalid st \<longrightarrow> writeState st = WRITE_RESPONSE) \<and> (writeState st = WRITE_RESPONSE \<longrightarrow> bresp st = 0)"

definition dma_write_inv :: "dma_ctrl \<Rightarrow> (nat \<times> u32) list \<Rightarrow> dma_write_regs \<Rightarrow> tlbMapping write_log \<Rightarrow> bool" where
  "dma_write_inv d ts st log \<longleftrightarrow>
     write_phase ts st log \<and> writeState st \<notin> {WRITE_DDR_BENCH, WRITE_DMA_BENCH} \<and>
     (tlb_interface_valid st \<longrightarrow> writeState st = WRITE_TLB) \<and>
     dc_word_counter (dma_txns ts d) = word_counter st \<and> dc_tlb_data (dma_txns ts d) = tlb_interface_data st \<and>
     dc_tlb_out (dma_txns ts d) =
       dc_tlb_out d @ log_out log @ (if writeState st = WRITE_TLB then [unpack_mapping (tlb_interface_data st)] else []) \<and>
     (writeState st = WRITE_DATA \<longrightarrow> \<not> reset_read_length st \<and> \<not> reset_write_length st) \<and>
     (writeState st = WRITE_RESPONSE \<longrightarrow>
        (reset_read_length st \<longleftrightarrow> fst (last ts) = 10) \<and> (reset_write_length st \<longleftrightarrow> fst (last ts) = 11)) \<and>
     (writeState st = WRITE_TLB \<longrightarrow> \<not> reset_read_length st \<and> \<not> reset_write_length st \<and> fst (last ts) = 2)"

lemma dma_txns_snoc: "dma_txns (ts @ [(a, w)]) d = dma_ctrl_write a w (dma_txns ts d)"
  by (simp add: dma_txns_def)

lemma dma_write_data_state:
  "writeState (dma_write_data w st) \<in> {WRITE_RESPONSE, WRITE_TLB}"
  by (simp add: dma_write_data_def Let_def)

lemma dma_write_step:
  assumes "dma_write_inv d ts st log"
  shows "\<exists>ts'. dma_write_inv d ts' (dma_write_edge i r st)
    ((log_channels dma_reg i st log)\<lparr>log_out := log_out log @ (if tlb_interface_valid st \<and> r then [unpack_mapping (tlb_interface_data st)] else [])\<rparr>)"
proof (cases "writeState st")
  case WRITE_IDLE
  with assms show ?thesis
    by (intro exI [of _ ts]) (auto simp: dma_write_inv_def write_phase_def dma_write_edge_def log_channels_def Let_def)
next
  case WRITE_DATA
  show ?thesis
  proof (cases "wvalid i \<and> wready st")
    case True
    let ?t = "(unat (writeAddr st), wdata i)"
    show ?thesis using assms WRITE_DATA True
      by (intro exI [of _ "ts @ [?t]"])
        (auto simp: dma_write_inv_def write_phase_def dma_write_edge_def log_channels_def dma_txns_snoc dma_write_data_def dma_ctrl_write_def Let_def)
  next
    case False
    with assms WRITE_DATA show ?thesis
      by (intro exI [of _ ts]) (auto simp: dma_write_inv_def write_phase_def dma_write_edge_def log_channels_def)
  qed
next
  case WRITE_RESPONSE
  with assms show ?thesis
    by (intro exI [of _ ts]) (auto simp: dma_write_inv_def write_phase_def dma_write_edge_def log_channels_def Suc_leI)
next
  case WRITE_TLB
  with assms show ?thesis
    by (intro exI [of _ ts]) (auto simp: dma_write_inv_def write_phase_def dma_write_edge_def log_channels_def)
qed (use assms in \<open>simp_all add: dma_write_inv_def\<close>)

interpretation dw: port_run dma_write_cycle "\<lambda>(d, ts) (st, log). dma_write_inv d ts st log" "fst"
proof (unfold_locales, goal_cases)
  case (1 g s i)
  then show ?case using dma_write_step by (cases g; cases s; cases i) fastforce
qed

section \<open>Read ports\<close>

record axil_read_in =
  arvalid :: bool
  araddr :: u32
  rready :: bool

record axil_read_regs =
  readState :: read_state
  readAddr :: u32
  arready :: bool
  rresp :: "2 word"
  rvalid :: bool
  rdata :: u32

text \<open>The logs of the read channels; \<open>'c\<close> is what the data are loaded from.\<close>

record 'c read_log =
  log_ar :: "nat list"
  log_r :: "(u32 \<times> 2 word) list"
  ar_sample :: "'c list"

definition no_read_log :: "'c read_log" where
  "no_read_log = \<lparr>log_ar = [], log_r = [], ar_sample = []\<rparr>"

definition log_read_channels :: "(u32 \<Rightarrow> u32) \<Rightarrow> axil_read_in \<Rightarrow> 'c \<Rightarrow> 'a axil_read_regs_scheme \<Rightarrow> 'c read_log \<Rightarrow> 'c read_log" where
  "log_read_channels reg i cs st log = log\<lparr>
     log_ar := log_ar log @ (if arvalid i \<and> arready st then [unat (reg (araddr i))] else []),
     log_r := log_r log @ (if rvalid st \<and> rready i then [(rdata st, rresp st)] else []),
     ar_sample := ar_sample log @ (if rvalid st \<and> rready i then [cs] else [])\<rparr>"

lemma zip_started: "zip (map fst ts @ xs) (map snd ts) = ts"
  by (induction ts) simp_all

text \<open>A read as a transaction: the register number and what the data are loaded from.\<close>

fun read_txns :: "(nat \<Rightarrow> 'c \<Rightarrow> 'd \<Rightarrow> u32 \<times> 'd) \<Rightarrow> (nat \<times> 'c) list \<Rightarrow> 'd \<Rightarrow> u32 list \<times> 'd" where
  "read_txns rd [] d = ([], d)"
| "read_txns rd ((a, cs) # ts) d = (let (v, d') = rd a cs d; (vs, d'') = read_txns rd ts d' in (v # vs, d''))"

fun read_cycle :: "(u32 \<Rightarrow> u32) \<Rightarrow> (axil_read_in \<Rightarrow> 'c \<Rightarrow> 'a axil_read_regs_scheme \<Rightarrow> 'a axil_read_regs_scheme) \<Rightarrow> axil_read_in \<times> 'c \<Rightarrow>
    'a axil_read_regs_scheme \<times> 'c \<times> 'c read_log \<Rightarrow> 'a axil_read_regs_scheme \<times> 'c \<times> 'c read_log" where
  "read_cycle reg edge (i, cs) (st, prev, log) = (edge i cs st, cs, log_read_channels reg i prev st log)"

lemma read_txns_snoc:
  "read_txns rd (ts @ [(a, cs)]) d = (let (vs, d') = read_txns rd ts d; (v, d'') = rd a cs d' in (vs @ [v], d''))"
  by (induction ts arbitrary: d) (auto simp: Let_def split: prod.split)

text \<open>What the read ports of the controllers share. The own registers of a controller are the extension of the
  record: \<open>idle\<close> and \<open>commit\<close> are their values after an edge in \<open>READ_IDLE\<close> and after the one that ends a
  transaction, \<open>rd\<close> is the read of the register file, and \<open>agrees\<close> and \<open>settled\<close> relate the registers to it
  between transactions and within one.\<close>

locale read_port =
  fixes reg :: "u32 \<Rightarrow> u32"
    and edge :: "axil_read_in \<Rightarrow> 'c \<Rightarrow> 'a axil_read_regs_scheme \<Rightarrow> 'a axil_read_regs_scheme"
    and data :: "'c \<Rightarrow> 'a axil_read_regs_scheme \<Rightarrow> u32 \<times> 2 word"
    and idle commit :: "'a axil_read_regs_scheme \<Rightarrow> 'a"
    and rd :: "nat \<Rightarrow> 'c \<Rightarrow> 'd \<Rightarrow> u32 \<times> 'd" and resp :: "nat \<Rightarrow> 2 word"
    and agrees settled :: "'a axil_read_regs_scheme \<Rightarrow> 'd \<Rightarrow> bool"
  assumes idle_edge: "readState st = READ_IDLE \<Longrightarrow> edge i cs st =
      (if arready st \<and> arvalid i
       then st\<lparr>arready := False, readAddr := reg (araddr i), readState := READ_RESPONSE, axil_read_regs.more := idle st\<rparr>
       else st\<lparr>arready := True, axil_read_regs.more := idle st\<rparr>)"
    and response_edge: "readState st = READ_RESPONSE \<Longrightarrow> edge i cs st =
      (let st' = st\<lparr>rdata := fst (data cs st), rresp := snd (data cs st)\<rparr> in
       if rvalid st \<and> rready i then st'\<lparr>rvalid := False, readState := READ_IDLE, axil_read_regs.more := commit st\<rparr>
       else st'\<lparr>rvalid := True\<rparr>)"
    and own_registers: "axil_read_regs.more st = axil_read_regs.more st' \<Longrightarrow> (agrees st d \<longleftrightarrow> agrees st' d) \<and> (settled st d \<longleftrightarrow> settled st' d)"
    and idle_settles: "agrees st d \<Longrightarrow> settled (st\<lparr>axil_read_regs.more := idle st\<rparr>) d"
    and settled_agrees: "settled st d \<Longrightarrow> agrees st d"
    and data_read: "settled st d \<Longrightarrow> data cs st = (fst (rd (unat (readAddr st)) cs d), resp (unat (readAddr st)))"
    and commit_agrees: "settled st d \<Longrightarrow> agrees (st\<lparr>axil_read_regs.more := commit st\<rparr>) (snd (rd (unat (readAddr st)) cs d))"
begin

definition read_inv :: "'d \<Rightarrow> (nat \<times> 'c) list \<Rightarrow> 'a axil_read_regs_scheme \<Rightarrow> 'c \<Rightarrow> 'c read_log \<Rightarrow> bool" where
  "read_inv d ts st prev log \<longleftrightarrow>
     (case read_txns rd ts d of (vs, d') \<Rightarrow>
        log_ar log = map fst ts @ (if readState st = READ_RESPONSE then [unat (readAddr st)] else []) \<and>
        ar_sample log = map snd ts \<and> map fst (log_r log) = vs \<and> map snd (log_r log) = map (resp \<circ> fst) ts \<and>
        (readState st = READ_IDLE \<longrightarrow> \<not> rvalid st \<and> agrees st d') \<and>
        (readState st = READ_RESPONSE \<longrightarrow> \<not> arready st \<and> settled st d' \<and>
           (rvalid st \<longrightarrow> rdata st = fst (rd (unat (readAddr st)) prev d') \<and> rresp st = resp (unat (readAddr st)))))"

lemma read_step:
  assumes "read_inv d ts st prev log"
  shows "\<exists>ts'. read_inv d ts' (edge i cs st) cs (log_read_channels reg i prev st log)"
proof -
  obtain vs d' where r: "read_txns rd ts d = (vs, d')" by (cases "read_txns rd ts d")
  note inv = assms [unfolded read_inv_def r prod.case]
  show ?thesis
  proof (cases "readState st")
    case READ_IDLE
    then have "settled (st\<lparr>axil_read_regs.more := idle st\<rparr>) d'" using inv idle_settles by simp
    then have "settled st' d'" if "axil_read_regs.more st' = idle st" for st'
      using own_registers [of st' "st\<lparr>axil_read_regs.more := idle st\<rparr>" d'] that by simp
    then show ?thesis using inv READ_IDLE settled_agrees
      by (intro exI [of _ ts]) (simp add: read_inv_def r idle_edge log_read_channels_def)
  next
    case READ_RESPONSE
    let ?a = "unat (readAddr st)"
    have s: "settled st d'" "\<not> arready st" using inv READ_RESPONSE by simp_all
    show ?thesis
    proof (cases "rvalid st \<and> rready i")
      case True
      obtain v d'' where v: "rd ?a prev d' = (v, d'')" by (cases "rd ?a prev d'")
      have "agrees st' d''" if "axil_read_regs.more st' = commit st" for st'
        using commit_agrees [OF s(1), of prev] own_registers [of st' "st\<lparr>axil_read_regs.more := commit st\<rparr>" d''] that v by simp
      moreover have "read_txns rd (ts @ [(?a, prev)]) d = (vs @ [v], d'')" by (simp add: read_txns_snoc r v)
      ultimately show ?thesis using inv READ_RESPONSE True s v
        by (intro exI [of _ "ts @ [(?a, prev)]"]) (simp add: read_inv_def response_edge log_read_channels_def Let_def)
    next
      case False
      have "settled st' d'" if "axil_read_regs.more st' = axil_read_regs.more st" for st'
        using own_registers [of st' st d'] s(1) that by simp
      then show ?thesis using inv READ_RESPONSE s data_read [OF s(1), of cs] False
        by (intro exI [of _ ts]) (auto simp: read_inv_def r response_edge log_read_channels_def Let_def)
    qed
  qed
qed

end

sublocale read_port \<subseteq> run: port_run "read_cycle reg edge" "\<lambda>(d, ts) (st, prev, log). read_inv d ts st prev log" "fst"
proof (unfold_locales, goal_cases)
  case (1 g s i)
  then show ?case using read_step by (cases g; cases s; cases i) fastforce
qed

context read_port
begin

lemma reads_refine:
  assumes "fold (read_cycle reg edge) ins (st0, cs0, no_read_log) = (st, prev, log)"
    and "readState st0 = READ_IDLE" and "\<not> rvalid st0" and "agrees st0 d"
  shows "map fst (log_r log) = fst (read_txns rd (zip (log_ar log) (ar_sample log)) d) \<and>
    map snd (log_r log) = map (resp \<circ> fst) (zip (log_ar log) (ar_sample log)) \<and>
    length (log_r log) \<le> length (log_ar log) \<and> length (log_ar log) \<le> Suc (length (log_r log))"
proof -
  have "read_inv d [] st0 cs0 no_read_log" using assms(2-4) by (simp add: read_inv_def no_read_log_def)
  then obtain ts where inv: "read_inv d ts st prev log"
    using run.run_corresponds [of "(d, [])" "(st0, cs0, no_read_log)" ins] assms(1) by auto
  obtain vs d' where r: "read_txns rd ts d = (vs, d')" by (cases "read_txns rd ts d")
  note facts = inv [unfolded read_inv_def r prod.case]
  then have "zip (log_ar log) (ar_sample log) = ts" "length (log_r log) = length ts"
    by (simp_all add: zip_started) (metis length_map)
  then show ?thesis using facts r by simp
qed

end

section \<open>The DMA controller: reads\<close>

record dma_read_regs = axil_read_regs +
  debugRegAddr :: u8
  dma_read_length_upper :: bool
  dma_write_length_upper :: bool

definition dma_read_reset :: "dma_read_regs \<Rightarrow> dma_read_regs" where
  "dma_read_reset st = st\<lparr>arready := False, rresp := 0, rvalid := False, readState := READ_IDLE, debugRegAddr := 0,
     dma_read_length_upper := False, dma_write_length_upper := False\<rparr>"

text \<open>The cases of the address in \<open>READ_RESPONSE\<close>: data and response.\<close>

definition dma_read_data :: "dma_counters \<Rightarrow> dma_read_regs \<Rightarrow> u32 \<times> 2 word" where
  "dma_read_data cs st =
     (if readAddr st = 10 then
        (if dma_reads_flushed cs then
           (if \<not> dma_read_length_upper st then range_get 31 0 (dma_read_length_counter cs) else range_get 47 32 (dma_read_length_counter cs))
         else 0, 0)
      else if readAddr st = 11 then
        (if \<not> dma_write_length_upper st then range_get 31 0 (dma_write_length_counter cs) else range_get 47 32 (dma_write_length_counter cs), 0)
      else if readAddr st = 13 then
        (if debugRegAddr st < 10 then (stats_reg cs (unat (debugRegAddr st)), 0) else (0, 2))
      else (0xdeadbeef, 2))"

definition dma_read_edge :: "axil_read_in \<Rightarrow> dma_counters \<Rightarrow> dma_read_regs \<Rightarrow> dma_read_regs" where
  "dma_read_edge i cs st =
     (case readState st of
        READ_IDLE \<Rightarrow>
          (let st' = st\<lparr>arready := True, debugRegAddr := (if debugRegAddr st = 10 then 0 else debugRegAddr st)\<rparr>
           in if arready st \<and> arvalid i then st'\<lparr>readAddr := dma_reg (araddr i), arready := False, readState := READ_RESPONSE\<rparr> else st')
      | READ_RESPONSE \<Rightarrow>
          (let (v, resp) = dma_read_data cs st; st' = st\<lparr>rvalid := True, rdata := v, rresp := resp\<rparr> in
           if rvalid st \<and> rready i then
             st'\<lparr>rvalid := False,
                 debugRegAddr := (if readAddr st = 13 then debugRegAddr st + 1 else debugRegAddr st),
                 dma_read_length_upper := (if readAddr st = 10 then \<not> dma_read_length_upper st else dma_read_length_upper st),
                 dma_write_length_upper := (if readAddr st = 11 then \<not> dma_write_length_upper st else dma_write_length_upper st),
                 readState := READ_IDLE\<rparr>
           else st'))"

abbreviation "dma_read_cycle \<equiv> read_cycle dma_reg dma_read_edge"

abbreviation "dma_reads \<equiv> read_txns (\<lambda>a cs d. dma_ctrl_read a (d\<lparr>dc_counters := cs\<rparr>))"

definition read_response :: "nat \<Rightarrow> 2 word" where
  "read_response a = (if a \<in> {10, 11, 13} then 0 else 2)"

lemma dma_read_data_ok:
  assumes "dma_read_length_upper st = dc_read_length_upper d" and "dma_write_length_upper st = dc_write_length_upper d"
    and "debugRegAddr st = (if dc_debugRegAddr d = 10 then 0 else dc_debugRegAddr d)" and "debugRegAddr st < 10"
  shows "dma_read_data cs st = (fst (dma_ctrl_read (unat (readAddr st)) (d\<lparr>dc_counters := cs\<rparr>)), read_response (unat (readAddr st)))"
  using assms by (cases "dc_debugRegAddr d = 10") (simp_all add: dma_read_data_def dma_ctrl_read_def length_half_def read_response_def Let_def)

lemma dma_ctrl_read_state:
  "dc_read_length_upper (snd (dma_ctrl_read a d)) = (if a = 10 then \<not> dc_read_length_upper d else dc_read_length_upper d)"
  "dc_write_length_upper (snd (dma_ctrl_read a d)) = (if a = 11 then \<not> dc_write_length_upper d else dc_write_length_upper d)"
  "dc_debugRegAddr (snd (dma_ctrl_read a d)) =
     (let r = if dc_debugRegAddr d = 10 then 0 else dc_debugRegAddr d in if a = 13 then r + 1 else r)"
  by (simp_all add: dma_ctrl_read_def Let_def)

definition dma_read_agrees :: "dma_read_regs \<Rightarrow> dma_ctrl \<Rightarrow> bool" where
  "dma_read_agrees st d \<longleftrightarrow>
     dma_read_length_upper st = dc_read_length_upper d \<and> dma_write_length_upper st = dc_write_length_upper d \<and> debugRegAddr st \<le> 10 \<and>
     (debugRegAddr st = dc_debugRegAddr d \<or> (debugRegAddr st = 0 \<and> dc_debugRegAddr d = 10))"

lemma dma_read_own:
  assumes "axil_read_regs.more st = axil_read_regs.more st'"
  shows "debugRegAddr st = debugRegAddr st'" "dma_read_length_upper st = dma_read_length_upper st'" "dma_write_length_upper st = dma_write_length_upper st'"
  using assms by (cases st; cases st'; simp)+

interpretation dr: read_port dma_reg dma_read_edge dma_read_data
  "\<lambda>st. axil_read_regs.more (st\<lparr>debugRegAddr := (if debugRegAddr st = 10 then 0 else debugRegAddr st)\<rparr>)"
  "\<lambda>st. axil_read_regs.more (st\<lparr>
     debugRegAddr := (if readAddr st = 13 then debugRegAddr st + 1 else debugRegAddr st),
     dma_read_length_upper := (if readAddr st = 10 then \<not> dma_read_length_upper st else dma_read_length_upper st),
     dma_write_length_upper := (if readAddr st = 11 then \<not> dma_write_length_upper st else dma_write_length_upper st)\<rparr>)"
  "\<lambda>a cs d. dma_ctrl_read a (d\<lparr>dc_counters := cs\<rparr>)" read_response
  dma_read_agrees "\<lambda>st d. dma_read_agrees st d \<and> debugRegAddr st \<noteq> 10"
proof (unfold_locales, goal_cases)
  case (1 st i cs)
  then show ?case by (cases st) (simp add: dma_read_edge_def Let_def)
next
  case (2 st i cs)
  then show ?case by (cases st) (simp add: dma_read_edge_def Let_def case_prod_beta)
next
  case (3 st st' d)
  then show ?case using dma_read_own [OF 3] by (simp add: dma_read_agrees_def)
next
  case (4 st d)
  then show ?case by (cases st) (auto simp: dma_read_agrees_def)
next
  case (5 st d)
  then show ?case by simp
next
  case (6 st d cs)
  then show ?case by (intro dma_read_data_ok) (auto simp: dma_read_agrees_def order.strict_iff_order)
next
  case (7 st d cs)
  then have "debugRegAddr st < 10" by (auto simp: dma_read_agrees_def order.strict_iff_order)
  then have "debugRegAddr st + 1 \<le> 10" by (simp add: word_le_nat_alt word_less_nat_alt unat_word_ariths)
  then show ?case using 7 by (cases st) (auto simp: dma_read_agrees_def dma_ctrl_read_state Let_def)
qed

section \<open>The benchmark controller: writes\<close>

definition bench_write_reset :: "bench_write_regs \<Rightarrow> bench_write_regs" where
  "bench_write_reset st = st\<lparr>awready := False, wready := False, bvalid := False, ddr_cmd_valid := False, dma_cmd_valid := False,
     word_counter := 0, writeState := WRITE_IDLE\<rparr>"

definition bench_reg :: "u32 \<Rightarrow> u32" where
  "bench_reg a = drop_bit 5 a"

definition bench_write_data :: "u32 \<Rightarrow> bench_write_regs \<Rightarrow> bench_write_regs" where
  "bench_write_data d st =
     (let st' = st\<lparr>wready := False, bvalid := True, bresp := 0, writeState := WRITE_RESPONSE\<rparr>; n = unat (word_counter st);
          next = st'\<lparr>word_counter := word_counter st + 1\<rparr> in
      if writeAddr st = 2 then
        (if n = 7 then
           st'\<lparr>ddr_cmd_data := collect n d (ddr_cmd_data st), ddr_cmd_dest := range_get 2 1 d, bvalid := False, ddr_cmd_valid := True,
               word_counter := 0, writeState := WRITE_DDR_BENCH\<rparr>
         else next\<lparr>ddr_cmd_data := collect n d (ddr_cmd_data st)\<rparr>)
      else if writeAddr st = 3 then
        (if n = 7 then
           st'\<lparr>dma_cmd_data := collect n d (dma_cmd_data st), bvalid := False, dma_cmd_valid := True,
               word_counter := 0, writeState := WRITE_DMA_BENCH\<rparr>
         else next\<lparr>dma_cmd_data := collect n d (dma_cmd_data st)\<rparr>)
      else st')"

definition bench_write_edge :: "axil_write_in \<Rightarrow> bool \<Rightarrow> bool \<Rightarrow> bench_write_regs \<Rightarrow> bench_write_regs" where
  "bench_write_edge i ddr_ready dma_ready st =
     (case writeState st of
        WRITE_IDLE \<Rightarrow>
          (let st' = st\<lparr>awready := True, wready := False, bvalid := False, dma_cmd_valid := False, writeAddr := bench_reg (awaddr i)\<rparr>
           in if awvalid i \<and> awready st then st'\<lparr>awready := False, wready := True, writeState := WRITE_DATA\<rparr> else st')
      | WRITE_DATA \<Rightarrow> if wvalid i \<and> wready st then bench_write_data (wdata i) st else st\<lparr>wready := True\<rparr>
      | WRITE_RESPONSE \<Rightarrow> if bvalid st \<and> bready i then st\<lparr>bvalid := False, writeState := WRITE_IDLE\<rparr> else st\<lparr>bvalid := True\<rparr>
      | WRITE_DDR_BENCH \<Rightarrow>
          if ddr_cmd_valid st \<and> ddr_ready then st\<lparr>bvalid := True, bresp := 0, ddr_cmd_valid := False, writeState := WRITE_RESPONSE\<rparr>
          else st\<lparr>ddr_cmd_valid := True\<rparr>
      | WRITE_DMA_BENCH \<Rightarrow>
          if dma_cmd_valid st \<and> dma_ready then st\<lparr>bvalid := True, bresp := 0, dma_cmd_valid := False, writeState := WRITE_RESPONSE\<rparr>
          else st\<lparr>dma_cmd_valid := True\<rparr>
      | _ \<Rightarrow> st)"

text \<open>The two command ports share one log: \<open>Inl\<close> a DDR command, \<open>Inr\<close> a DMA command.\<close>

definition ddr_cmd :: "bench_write_regs \<Rightarrow> bench_cmd" where
  "ddr_cmd st = \<lparr>bcmd_regs = unpack_bench (ddr_cmd_data st), bcmd_dest = ddr_cmd_dest st\<rparr>"

definition dma_cmd :: "bench_write_regs \<Rightarrow> bench_cmd" where
  "dma_cmd st = \<lparr>bcmd_regs = unpack_bench (dma_cmd_data st), bcmd_dest = 0\<rparr>"

definition bench_passed :: "bool \<Rightarrow> bool \<Rightarrow> bench_write_regs \<Rightarrow> (bench_cmd + bench_cmd) list" where
  "bench_passed ddr_ready dma_ready st =
     (if ddr_cmd_valid st \<and> ddr_ready then [Inl (ddr_cmd st)] else []) @ (if dma_cmd_valid st \<and> dma_ready then [Inr (dma_cmd st)] else [])"

fun bench_write_cycle :: "axil_write_in \<times> bool \<times> bool \<Rightarrow> bench_write_regs \<times> (bench_cmd + bench_cmd) write_log \<Rightarrow>
    bench_write_regs \<times> (bench_cmd + bench_cmd) write_log" where
  "bench_write_cycle (i, r0, r1) (st, log) =
     (bench_write_edge i r0 r1 st, (log_channels bench_reg i st log)\<lparr>log_out := log_out log @ bench_passed r0 r1 st\<rparr>)"

definition bench_txns :: "(nat \<times> u32) list \<Rightarrow> bench_ctrl \<Rightarrow> bench_ctrl" where
  "bench_txns ts d = fold (\<lambda>(a, w). bench_ctrl_write a w) ts d"

lemma bench_txns_snoc: "bench_txns (ts @ [(a, w)]) d = bench_ctrl_write a w (bench_txns ts d)"
  by (simp add: bench_txns_def)

fun lefts :: "('a + 'b) list \<Rightarrow> 'a list" where
  "lefts [] = []"
| "lefts (Inl x # xs) = x # lefts xs"
| "lefts (Inr _ # xs) = lefts xs"

fun rights :: "('a + 'b) list \<Rightarrow> 'b list" where
  "rights [] = []"
| "rights (Inl _ # xs) = rights xs"
| "rights (Inr x # xs) = x # rights xs"

lemma lefts_append [simp]: "lefts (xs @ ys) = lefts xs @ lefts ys"
  by (induction xs rule: lefts.induct) simp_all

lemma rights_append [simp]: "rights (xs @ ys) = rights xs @ rights ys"
  by (induction xs rule: rights.induct) simp_all

definition bench_write_inv :: "bench_ctrl \<Rightarrow> (nat \<times> u32) list \<Rightarrow> bench_write_regs \<Rightarrow> (bench_cmd + bench_cmd) write_log \<Rightarrow> bool" where
  "bench_write_inv d ts st log \<longleftrightarrow>
     write_phase ts st log \<and> writeState st \<noteq> WRITE_TLB \<and>
     (ddr_cmd_valid st \<longrightarrow> writeState st = WRITE_DDR_BENCH) \<and> (dma_cmd_valid st \<longrightarrow> writeState st = WRITE_DMA_BENCH) \<and>
     bn_word_counter (bench_txns ts d) = word_counter st \<and>
     bn_ddr_data (bench_txns ts d) = ddr_cmd_data st \<and> bn_dma_data (bench_txns ts d) = dma_cmd_data st \<and>
     bn_ddr_out (bench_txns ts d) = bn_ddr_out d @ lefts (log_out log) @ (if writeState st = WRITE_DDR_BENCH then [ddr_cmd st] else []) \<and>
     bn_dma_out (bench_txns ts d) = bn_dma_out d @ rights (log_out log) @ (if writeState st = WRITE_DMA_BENCH then [dma_cmd st] else [])"

lemmas bench_write_defs = bench_write_inv_def write_phase_def bench_write_edge_def log_channels_def bench_passed_def ddr_cmd_def dma_cmd_def

lemma bench_write_step:
  assumes "bench_write_inv d ts st log"
  shows "\<exists>ts'. bench_write_inv d ts' (bench_write_edge i r0 r1 st)
    ((log_channels bench_reg i st log)\<lparr>log_out := log_out log @ bench_passed r0 r1 st\<rparr>)"
proof (cases "writeState st")
  case WRITE_DATA
  show ?thesis
  proof (cases "wvalid i \<and> wready st")
    case True
    show ?thesis using assms WRITE_DATA True
      by (intro exI [of _ "ts @ [(unat (writeAddr st), wdata i)]"])
        (auto simp: bench_write_defs bench_txns_snoc bench_write_data_def bench_ctrl_write_def Let_def)
  qed (use assms WRITE_DATA in \<open>auto simp: bench_write_defs intro!: exI [of _ ts]\<close>)
qed (use assms in \<open>auto simp: bench_write_defs Let_def Suc_leI intro!: exI [of _ ts]\<close>)

interpretation bw: port_run bench_write_cycle "\<lambda>(d, ts) (st, log). bench_write_inv d ts st log" "fst"
proof (unfold_locales, goal_cases)
  case (1 g s i)
  then show ?case using bench_write_step by (cases g; cases s; cases i) fastforce
qed

section \<open>The benchmark controller: reads\<close>

record bench_read_regs = axil_read_regs +
  ddr_bench_cycles_upper :: bool
  dma_bench_cycles_upper :: bool

definition bench_read_reset :: "bench_read_regs \<Rightarrow> bench_read_regs" where
  "bench_read_reset st = st\<lparr>arready := False, rresp := 0, rvalid := False, readState := READ_IDLE,
     ddr_bench_cycles_upper := False, dma_bench_cycles_upper := False\<rparr>"

definition cycles_half :: "bool \<Rightarrow> u64 \<Rightarrow> u32" where
  "cycles_half upper c = (if \<not> upper then range_get 31 0 c else range_get 63 32 c)"

text \<open>The inputs are the execution cycles of the DDR and of the DMA benchmark.\<close>

definition bench_read_data :: "u64 \<times> u64 \<Rightarrow> bench_read_regs \<Rightarrow> u32 \<times> 2 word" where
  "bench_read_data cs st =
     (if readAddr st = 13 then (cycles_half (ddr_bench_cycles_upper st) (fst cs), 0)
      else if readAddr st = 14 then (cycles_half (dma_bench_cycles_upper st) (snd cs), 0)
      else (0xdeadbeef, 2))"

definition bench_read_edge :: "axil_read_in \<Rightarrow> u64 \<times> u64 \<Rightarrow> bench_read_regs \<Rightarrow> bench_read_regs" where
  "bench_read_edge i cs st =
     (case readState st of
        READ_IDLE \<Rightarrow>
          if arready st \<and> arvalid i then st\<lparr>readAddr := bench_reg (araddr i), arready := False, readState := READ_RESPONSE\<rparr>
          else st\<lparr>arready := True\<rparr>
      | READ_RESPONSE \<Rightarrow>
          (let (v, resp) = bench_read_data cs st; st' = st\<lparr>rvalid := True, rdata := v, rresp := resp\<rparr> in
           if rvalid st \<and> rready i then
             st'\<lparr>rvalid := False,
                 ddr_bench_cycles_upper := (if readAddr st = 13 then \<not> ddr_bench_cycles_upper st else ddr_bench_cycles_upper st),
                 dma_bench_cycles_upper := (if readAddr st = 14 then \<not> dma_bench_cycles_upper st else dma_bench_cycles_upper st),
                 readState := READ_IDLE\<rparr>
           else st'))"

definition with_cycles :: "u64 \<times> u64 \<Rightarrow> bench_ctrl \<Rightarrow> bench_ctrl" where
  "with_cycles cs d = d\<lparr>bn_ddr_cycles := fst cs, bn_dma_cycles := snd cs\<rparr>"

abbreviation "bench_read_cycle \<equiv> read_cycle bench_reg bench_read_edge"

abbreviation "bench_reads \<equiv> read_txns (\<lambda>a cs d. bench_ctrl_read a (with_cycles cs d))"

definition bench_response :: "nat \<Rightarrow> 2 word" where
  "bench_response a = (if a \<in> {13, 14} then 0 else 2)"

lemma bench_ctrl_read_state:
  "bn_ddr_upper (snd (bench_ctrl_read a (with_cycles cs d))) = (if a = 13 then \<not> bn_ddr_upper d else bn_ddr_upper d)"
  "bn_dma_upper (snd (bench_ctrl_read a (with_cycles cs d))) = (if a = 14 then \<not> bn_dma_upper d else bn_dma_upper d)"
  by (simp_all add: bench_ctrl_read_def with_cycles_def)

lemma bench_read_data_ok:
  assumes "ddr_bench_cycles_upper st = bn_ddr_upper d" and "dma_bench_cycles_upper st = bn_dma_upper d"
  shows "bench_read_data cs st = (fst (bench_ctrl_read (unat (readAddr st)) (with_cycles cs d)), bench_response (unat (readAddr st)))"
  using assms by (simp add: bench_read_data_def bench_ctrl_read_def with_cycles_def cycles_half_def bench_response_def)

lemma bench_read_own:
  assumes "axil_read_regs.more st = axil_read_regs.more st'"
  shows "ddr_bench_cycles_upper st = ddr_bench_cycles_upper st'" "dma_bench_cycles_upper st = dma_bench_cycles_upper st'"
  using assms by (cases st; cases st'; simp)+

definition bench_read_agrees :: "bench_read_regs \<Rightarrow> bench_ctrl \<Rightarrow> bool" where
  "bench_read_agrees st d \<longleftrightarrow> ddr_bench_cycles_upper st = bn_ddr_upper d \<and> dma_bench_cycles_upper st = bn_dma_upper d"

interpretation br: read_port bench_reg bench_read_edge bench_read_data "axil_read_regs.more"
  "\<lambda>st. axil_read_regs.more (st\<lparr>
     ddr_bench_cycles_upper := (if readAddr st = 13 then \<not> ddr_bench_cycles_upper st else ddr_bench_cycles_upper st),
     dma_bench_cycles_upper := (if readAddr st = 14 then \<not> dma_bench_cycles_upper st else dma_bench_cycles_upper st)\<rparr>)"
  "\<lambda>a cs d. bench_ctrl_read a (with_cycles cs d)" bench_response bench_read_agrees bench_read_agrees
proof (unfold_locales, goal_cases)
  case (1 st i cs)
  then show ?case by (cases st) (simp add: bench_read_edge_def Let_def)
next
  case (2 st i cs)
  then show ?case by (cases st) (simp add: bench_read_edge_def Let_def case_prod_beta)
next
  case (3 st st' d)
  then show ?case using bench_read_own [OF 3] by (simp add: bench_read_agrees_def)
next
  case (4 st d)
  then show ?case by simp
next
  case (6 st d cs)
  then show ?case by (intro bench_read_data_ok) (auto simp: bench_read_agrees_def)
next
  case (7 st d cs)
  then show ?case by (cases st) (auto simp: bench_read_agrees_def bench_ctrl_read_state)
qed

section \<open>Properties\<close>

text \<open>The accepted addresses and words form the transactions, except for an address whose word is still to come.\<close>

lemma write_phase_txns:
  assumes "write_phase ts st log"
  shows "zip (log_aw log) (log_w log) = ts" and "length (log_b log) \<le> length (log_w log)" and "length (log_w log) \<le> length (log_aw log)"
    and "length (log_aw log) \<le> Suc (length (log_b log))" and "set (log_b log) \<subseteq> {0}"
    and "writeState st \<notin> {WRITE_IDLE, WRITE_DATA} \<Longrightarrow> length (log_b log) < length (log_w log)"
proof -
  note ph = assms [unfolded write_phase_def]
  show "zip (log_aw log) (log_w log) = ts" using ph by (simp add: zip_started)
  show "length (log_b log) \<le> length (log_w log)" "length (log_w log) \<le> length (log_aw log)" "set (log_b log) \<subseteq> {0}" using ph by auto
  show "length (log_aw log) \<le> Suc (length (log_b log))" using ph by (cases "writeState st") auto
  show "length (log_b log) < length (log_w log)" if "writeState st \<notin> {WRITE_IDLE, WRITE_DATA}"
    using ph that by (cases ts) auto
qed

definition write_protocol :: "'o write_log \<Rightarrow> bool" where
  "write_protocol log \<longleftrightarrow> length (log_b log) \<le> length (log_w log) \<and> length (log_w log) \<le> length (log_aw log) \<and>
     length (log_aw log) \<le> Suc (length (log_b log)) \<and> set (log_b log) \<subseteq> {0}"

lemma write_phase_protocol: "write_phase ts st log \<Longrightarrow> write_protocol log"
  unfolding write_protocol_def using write_phase_txns(2-5) by blast

lemma bench_writes_refine:
  assumes "fold bench_write_cycle ins (bench_write_reset st0, no_log) = (st, log)"
    and "bench_txns (zip (log_aw log) (log_w log)) (bench_ctrl_reset (ddr_cmd_data st0) (dma_cmd_data st0)) = d"
  shows "bn_word_counter d = word_counter st \<and> bn_ddr_data d = ddr_cmd_data st \<and> bn_dma_data d = dma_cmd_data st \<and>
    bn_ddr_out d = lefts (log_out log) @ (if writeState st = WRITE_DDR_BENCH then [ddr_cmd st] else []) \<and>
    bn_dma_out d = rights (log_out log) @ (if writeState st = WRITE_DMA_BENCH then [dma_cmd st] else []) \<and>
    write_protocol log \<and>
    (length (log_b log) = length (log_w log) \<longrightarrow> bn_ddr_out d = lefts (log_out log) \<and> bn_dma_out d = rights (log_out log))"
proof -
  let ?d0 = "bench_ctrl_reset (ddr_cmd_data st0) (dma_cmd_data st0)"
  have "bench_write_inv ?d0 [] (bench_write_reset st0) no_log"
    by (simp add: bench_write_inv_def write_phase_def bench_write_reset_def no_log_def bench_txns_def bench_ctrl_reset_def)
  then obtain ts where inv: "bench_write_inv ?d0 ts st log"
    using bw.run_corresponds [of "(?d0, [])" "(bench_write_reset st0, no_log)" ins] assms(1) by auto
  then have ph: "write_phase ts st log" by (simp add: bench_write_inv_def)
  have "bench_txns ts ?d0 = d" using assms(2) write_phase_txns(1) [OF ph] by simp
  then show ?thesis using inv write_phase_txns(6) [OF ph] write_phase_protocol [OF ph]
    by (auto simp: bench_write_inv_def bench_ctrl_reset_def)
qed

lemma bench_reads_refine:
  assumes "fold bench_read_cycle ins (bench_read_reset st0, cs0, no_read_log) = (st, prev, log)"
  shows "map fst (log_r log) = fst (bench_reads (zip (log_ar log) (ar_sample log)) (bench_ctrl_reset w v)) \<and>
    map snd (log_r log) = map (bench_response \<circ> fst) (zip (log_ar log) (ar_sample log)) \<and>
    length (log_r log) \<le> length (log_ar log) \<and> length (log_ar log) \<le> Suc (length (log_r log))"
  using br.reads_refine [OF assms, of "bench_ctrl_reset w v"] by (simp add: bench_read_reset_def bench_read_agrees_def bench_ctrl_reset_def)

lemma dma_writes_refine:
  assumes "fold dma_write_cycle ins (dma_write_reset st0, no_log) = (st, log)"
    and "dma_txns (zip (log_aw log) (log_w log)) (dma_ctrl_reset (tlb_interface_data st0) cs) = d"
  shows "dc_word_counter d = word_counter st \<and> dc_tlb_data d = tlb_interface_data st \<and>
    dc_tlb_out d = log_out log @ (if writeState st = WRITE_TLB then [unpack_mapping (tlb_interface_data st)] else []) \<and>
    write_protocol log \<and> (length (log_b log) = length (log_w log) \<longrightarrow> dc_tlb_out d = log_out log) \<and>
    (writeState st = WRITE_RESPONSE \<longrightarrow> (reset_read_length st \<longleftrightarrow> last (log_aw log) = 10) \<and> (reset_write_length st \<longleftrightarrow> last (log_aw log) = 11))"
proof -
  let ?d0 = "dma_ctrl_reset (tlb_interface_data st0) cs"
  have "dma_write_inv ?d0 [] (dma_write_reset st0) no_log"
    by (simp add: dma_write_inv_def write_phase_def dma_write_reset_def no_log_def dma_txns_def dma_ctrl_reset_def)
  then obtain ts where inv: "dma_write_inv ?d0 ts st log"
    using dw.run_corresponds [of "(?d0, [])" "(dma_write_reset st0, no_log)" ins] assms(1) by auto
  then have ph: "write_phase ts st log" by (simp add: dma_write_inv_def)
  have "dma_txns ts ?d0 = d" using assms(2) write_phase_txns(1) [OF ph] by simp
  moreover have "last (log_aw log) = fst (last ts)" if "writeState st = WRITE_RESPONSE"
    using ph that by (simp add: write_phase_def last_map)
  moreover have "length (log_b log) \<noteq> length (log_w log)" if "writeState st = WRITE_TLB" using write_phase_txns(6) [OF ph] that by simp
  ultimately show ?thesis using inv write_phase_protocol [OF ph] by (simp add: dma_write_inv_def dma_ctrl_reset_def)
qed

text \<open>C10. The write port of the DMA controller is the transaction-level register file, for every timing of
  the master and of the TLB: after any number of clock cycles from reset, the accepted addresses and
  words, paired in order, take \<open>dma_ctrl_write\<close> to the registers the port has, and the mappings passed to the
  TLB are those of the transactions. There is one response per transaction, always OK, it
  follows the word, and the next address is not accepted before it. Once the response has been given the mapping has
  been taken by the TLB. While the response is offered, the reset of a length counter is asserted exactly when its register has been
  written.\<close>

theorem dma_controller_writes:
  assumes "fold dma_write_cycle ins (dma_write_reset st0, no_log) = (st, log)"
    and "dma_txns (zip (log_aw log) (log_w log)) (dma_ctrl_reset (tlb_interface_data st0) cs) = d"
  shows "dc_word_counter d = word_counter st \<and> dc_tlb_data d = tlb_interface_data st \<and>
    dc_tlb_out d = log_out log @ (if writeState st = WRITE_TLB then [unpack_mapping (tlb_interface_data st)] else []) \<and>
    write_protocol log \<and> (length (log_b log) = length (log_w log) \<longrightarrow> dc_tlb_out d = log_out log) \<and>
    (writeState st = WRITE_RESPONSE \<longrightarrow> (reset_read_length st \<longleftrightarrow> last (log_aw log) = 10) \<and> (reset_write_length st \<longleftrightarrow> last (log_aw log) = 11))"
  using dma_writes_refine [OF assms] .

definition example_write :: axil_write_in where
  "example_write = \<lparr>awvalid = True, awaddr = 0x2040, wvalid = True, wdata = 7, bready = True\<rparr>"

definition example_write_regs :: dma_write_regs where
  "example_write_regs = \<lparr>writeState = WRITE_IDLE, writeAddr = 0, awready = True, wready = False, bvalid = False, bresp = 0, word_counter = 0,
     tlb_interface_valid = False, tlb_interface_data = 0, reset_write_length = False, reset_read_length = False\<rparr>"

definition example_counters_reset :: dma_counters where
  "example_counters_reset = \<lparr>dma_write_cmd_counter = 0, dma_write_word_counter = 0, dma_write_pkg_counter = 0, dma_write_length_counter = 0,
     dma_read_cmd_counter = 0, dma_read_word_counter = 0, dma_read_pkg_counter = 0, dma_read_length_counter = 0,
     tlb_miss_counter = 0, tlb_boundary_crossing_counter = 0, dma_reads_flushed = False\<rparr>"

lemma example_write_run:
  "fold dma_write_cycle [(example_write, False), (example_write, False), (example_write, False), (example_write, False)]
     (dma_write_reset example_write_regs, no_log) =
   (example_write_regs\<lparr>writeAddr := 2, awready := False, word_counter := 1, tlb_interface_data := range_set 31 0 (7 :: u32) 0\<rparr>,
    \<lparr>log_aw = [2], log_w = [7], log_b = [0], log_out = []\<rparr>)"
  by (simp add: example_write_def example_write_regs_def dma_write_reset_def dma_write_edge_def dma_write_data_def log_channels_def no_log_def dma_reg_def)

theorem dma_controller_writes_witness:
  "dc_word_counter (dma_txns [(2, 7)] (dma_ctrl_reset 0 example_counters_reset)) = 1"
  using dma_controller_writes [OF example_write_run refl, of example_counters_reset]
  by (simp add: example_write_regs_def)

text \<open>C12. The read port of the DMA controller returns, for every timing of the master, what
  \<open>dma_ctrl_read\<close> returns for the accepted addresses in order, each on the counters of the edge before the one at which
  the word is taken, with an error response exactly for a register that cannot be read.\<close>

theorem dma_controller_reads:
  "case fold dma_read_cycle ins (dma_read_reset st0, cs0, no_read_log) of (st, prev, log) \<Rightarrow>
     map fst (log_r log) = fst (dma_reads (zip (log_ar log) (ar_sample log)) (dma_ctrl_reset w cs)) \<and>
     map snd (log_r log) = map (read_response \<circ> fst) (zip (log_ar log) (ar_sample log)) \<and>
     length (log_r log) \<le> length (log_ar log) \<and> length (log_ar log) \<le> Suc (length (log_r log))"
  using dr.reads_refine [where ins = ins and d = "dma_ctrl_reset w cs"] by (auto simp: dma_read_reset_def dma_read_agrees_def dma_ctrl_reset_def split: prod.split)

text \<open>C11. Both ports of the benchmark controller are the transaction-level register file, for every
  timing of the master and of the role: the accepted addresses and words take \<open>bench_ctrl_write\<close> to the registers
  the write port has, the commands passed on are those of the transactions, all of them once the
  response has been given, and the words read are those of \<open>bench_ctrl_read\<close>.\<close>

theorem bench_controller_refines:
  assumes "fold bench_write_cycle ins (bench_write_reset st0, no_log) = (st, log)"
    and "bench_txns (zip (log_aw log) (log_w log)) (bench_ctrl_reset (ddr_cmd_data st0) (dma_cmd_data st0)) = d"
    and "fold bench_read_cycle rins (bench_read_reset rst0, cs0, no_read_log) = (rst, prev, rlog)"
  shows "bn_word_counter d = word_counter st \<and> bn_ddr_data d = ddr_cmd_data st \<and> bn_dma_data d = dma_cmd_data st \<and>
    bn_ddr_out d = lefts (log_out log) @ (if writeState st = WRITE_DDR_BENCH then [ddr_cmd st] else []) \<and>
    bn_dma_out d = rights (log_out log) @ (if writeState st = WRITE_DMA_BENCH then [dma_cmd st] else []) \<and>
    write_protocol log \<and>
    (length (log_b log) = length (log_w log) \<longrightarrow> bn_ddr_out d = lefts (log_out log) \<and> bn_dma_out d = rights (log_out log)) \<and>
    map fst (log_r rlog) = fst (bench_reads (zip (log_ar rlog) (ar_sample rlog)) (bench_ctrl_reset w v)) \<and>
    map snd (log_r rlog) = map (bench_response \<circ> fst) (zip (log_ar rlog) (ar_sample rlog)) \<and>
    length (log_r rlog) \<le> length (log_ar rlog) \<and> length (log_ar rlog) \<le> Suc (length (log_r rlog))"
  using bench_writes_refine [OF assms(1,2)] bench_reads_refine [OF assms(3), of w v] by blast

definition example_bench_write_regs :: bench_write_regs where
  "example_bench_write_regs = \<lparr>writeState = WRITE_IDLE, writeAddr = 0, awready = True, wready = False, bvalid = False, bresp = 0, word_counter = 0,
     ddr_cmd_valid = False, ddr_cmd_data = 0, ddr_cmd_dest = 0, dma_cmd_valid = False, dma_cmd_data = 0\<rparr>"

definition example_bench_read_regs :: bench_read_regs where
  "example_bench_read_regs = \<lparr>readState = READ_IDLE, readAddr = 0, arready = True, rresp = 0, rvalid = False, rdata = 0,
     ddr_bench_cycles_upper = True, dma_bench_cycles_upper = True\<rparr>"

definition example_bench_write :: axil_write_in where
  "example_bench_write = \<lparr>awvalid = True, awaddr = 0x60, wvalid = True, wdata = 7, bready = True\<rparr>"

definition example_bench_read :: axil_read_in where
  "example_bench_read = \<lparr>arvalid = True, araddr = 0x1C0, rready = True\<rparr>"

lemma example_bench_write_run:
  "fold bench_write_cycle [(example_bench_write, True, True), (example_bench_write, True, True), (example_bench_write, True, True)]
     (bench_write_reset example_bench_write_regs, no_log) =
   (example_bench_write_regs\<lparr>writeState := WRITE_RESPONSE, writeAddr := 3, awready := False, bvalid := True, word_counter := 1,
      dma_cmd_data := collect 0 7 0\<rparr>, \<lparr>log_aw = [3], log_w = [7], log_b = [], log_out = []\<rparr>)"
  by (simp add: example_bench_write_def example_bench_write_regs_def bench_write_reset_def bench_write_edge_def bench_write_data_def
      log_channels_def no_log_def bench_reg_def bench_passed_def)

lemma example_bench_read_run:
  "fold bench_read_cycle [(example_bench_read, 1, 5), (example_bench_read, 2, 6), (example_bench_read, 3, 7), (example_bench_read, 4, 8)]
     (bench_read_reset example_bench_read_regs, (0, 0), no_read_log) =
   (example_bench_read_regs\<lparr>readAddr := 14, arready := False, rdata := cycles_half False 8, ddr_bench_cycles_upper := False\<rparr>, (4, 8),
    \<lparr>log_ar = [14], log_r = [(cycles_half False 7, 0)], ar_sample = [(3, 7)]\<rparr>)"
  by (simp add: example_bench_read_def example_bench_read_regs_def bench_read_reset_def bench_read_edge_def bench_read_data_def
      log_read_channels_def no_read_log_def bench_reg_def)

theorem bench_controller_refines_witness:
  "bn_word_counter (bench_txns [(3, 7)] (bench_ctrl_reset 0 0)) = 1 \<and>
   [cycles_half False 7] = fst (bench_reads [(14, 3, 7)] (bench_ctrl_reset 0 0))"
  using bench_controller_refines [OF example_bench_write_run refl example_bench_read_run, of 0 0]
  by (simp add: example_bench_write_regs_def)

text \<open>The data of a read are loaded again at every edge while the master is not ready, although they are
  already valid: a counter that moves meanwhile changes them, which the AXI protocol does not allow.\<close>

lemma read_data_not_stable:
  assumes "readState st = READ_RESPONSE" and "rvalid st" and "\<not> rready i" and "readAddr st = 14" and "\<not> dma_bench_cycles_upper st"
  shows "rvalid (bench_read_edge i cs st) \<and> rdata (bench_read_edge i cs st) = range_get 31 0 (snd cs)"
  using assms by (simp add: bench_read_edge_def bench_read_data_def cycles_half_def)

end
