(* ===== verification/Controller_Threads.thy ===== *)
theory Controller_Threads
  imports Fpga_Controller Axi_Lite
begin

text \<open>
  \<^verbatim>\<open>sw/src/fpga/FpgaController.cpp\<close> called by several threads. Each operation is the program of its
  register accesses; \<open>ctrl_mutex\<close> is a static member, so that one lock protects every object of the class.

  \<^item> A program of type \<open>call\<close> is possibly infinite: the polling loops read the cycles again as
    long as the lower half is zero. \<open>body\<close> has one case per operation that takes the lock.
  \<^item> \<open>run_call\<close> executes a program alone on a device; the result is that of the functions of
    \<open>Fpga_Controller\<close>.
  \<^item> In \<open>ctrl_step\<close> any thread may call an operation at any time. A thread inside an operation makes one
    access at a time, and nothing but the lock keeps the others away. A load may return any value: what
    the FPGA does meanwhile is not restricted.
  \<^item> \<open>bus\<close> is the sequence of accesses on the bus and \<open>acquired\<close> the operations in the order in
    which they have taken the lock.

  The lemmas show mutual exclusion, that the bus carries the accesses of whole operations one after
  the other, and that concurrent calls of \<open>writeTlb\<close> reach the TLB over the AXI-Lite port unmixed.
\<close>

section \<open>Operations as programs\<close>

codatatype 'r call = Return 'r | Store u64 u32 "'r call" | Load u64 "u32 \<Rightarrow> 'r call" | Sleep "'r call"

datatype ctrl_result = Done | Value u64 | Lines "(string \<times> u32) list" | Failed ctrl_error

datatype ctrl_op =
    WriteTlb u64 u64 bool
  | RunDma u64 u64 u32 u32 u32 memoryOp
  | RunDram u64 u64 u32 u32 u32 memoryOp u8
  | SetIpAddr u32
  | SetBoardNumber u8
  | ResetDmaReads
  | GetDmaReads
  | ResetDmaWrites
  | GetDmaWrites
  | PrintDebugRegs
  | PrintDmaStatsRegs
  | PrintDdrStatsRegs u8

abbreviation user_off :: "userCtrlAddr \<Rightarrow> u64" where
  "user_off a \<equiv> reg_offset userRegAddressOffset (userCtrlAddr_value a)"

abbreviation dma_off :: "dmaCtrlAddr \<Rightarrow> u64" where
  "dma_off a \<equiv> reg_offset dmaRegAddressOffset (dmaCtrlAddr_value a)"

primrec stores :: "bool \<Rightarrow> u64 \<Rightarrow> u32 list \<Rightarrow> 'r call \<Rightarrow> 'r call" where
  "stores little a [] c = c"
| "stores little a (w # ws) c = Store a (htols little w) (stores little a ws c)"

definition tlb_words :: "u64 \<Rightarrow> u64 \<Rightarrow> bool \<Rightarrow> u32 list" where
  "tlb_words vaddr paddr isBase =
     [ucast vaddr, ucast (drop_bit 32 vaddr), ucast paddr, ucast (drop_bit 32 paddr), if isBase then 1 else 0]"

definition bench_words :: "u64 \<Rightarrow> u64 \<Rightarrow> u32 \<Rightarrow> u32 \<Rightarrow> u32 \<Rightarrow> u32 \<Rightarrow> u32 list" where
  "bench_words baseAddr memSize nAccesses chunk stride op =
     [ucast baseAddr, ucast (drop_bit 32 baseAddr), ucast memSize, ucast (drop_bit 32 memSize), nAccesses, chunk, stride, op]"

text \<open>The polling loop, by the point it has reached.\<close>

datatype poll_state =
    at_sleep: Poll_sleep
  | at_lower: Poll_lower
  | at_upper: Poll_upper (read_lower: u32)
  | at_test: Poll_test (tested_lower: u32) (tested_upper: u32)

primcorec poll_call :: "bool \<Rightarrow> userCtrlAddr \<Rightarrow> poll_state \<Rightarrow> ctrl_result call" where
  "poll_call little a s =
     (if at_sleep s then Sleep (poll_call little a Poll_lower)
      else if at_lower s then Load (user_off a) (\<lambda>v. poll_call little a (Poll_upper (htols little v)))
      else if at_upper s then Load (user_off a) (\<lambda>v. poll_call little a (Poll_test (read_lower s) (htols little v)))
      else if tested_lower s = 0 then Sleep (poll_call little a Poll_lower)
      else Return (Value (join_halves (tested_lower s) (tested_upper s))))"

definition get_call :: "bool \<Rightarrow> dmaCtrlAddr \<Rightarrow> ctrl_result call" where
  "get_call little a =
     Load (dma_off a) (\<lambda>lower. Load (dma_off a) (\<lambda>upper. Return (Value (join_halves (htols little lower) (htols little upper)))))"

primrec print_call :: "bool \<Rightarrow> u64 \<Rightarrow> string list \<Rightarrow> (string \<times> u32) list \<Rightarrow> ctrl_result call" where
  "print_call little a [] lines = Return (Lines lines)"
| "print_call little a (name # names) lines = Load a (\<lambda>v. print_call little a names (lines @ [(name, htols little v)]))"

fun body :: "bool \<Rightarrow> ctrl_op \<Rightarrow> ctrl_result call" where
  "body little (WriteTlb v p b) = stores little (dma_off TLB) (tlb_words v p b) (Return Done)"
| "body little (RunDma a m n c s op) =
     stores little (user_off DMA_BENCH) (bench_words a m n c s (memoryOp_value op)) (poll_call little DMA_BENCH_CYCLES Poll_sleep)"
| "body little (RunDram a m n c s op channel) =
     stores little (user_off DDR_BENCH) (bench_words a m n c s (push_bit 1 (ucast channel) OR memoryOp_value op))
       (poll_call little DDR_BENCH_CYCLES Poll_sleep)"
| "body little (SetIpAddr a) = Return Done"
| "body little (SetBoardNumber n) = Return Done"
| "body little ResetDmaReads = stores little (dma_off DMA_READS) [1] (Return Done)"
| "body little GetDmaReads = get_call little DMA_READS"
| "body little ResetDmaWrites = stores little (dma_off DMA_WRITES) [1] (Return Done)"
| "body little GetDmaWrites = get_call little DMA_WRITES"
| "body little PrintDebugRegs = print_call little (user_off USER_DEBUG) (take numDebugRegs RegNames) []"
| "body little PrintDmaStatsRegs = print_call little (dma_off DMA_STATS) (take numDmaStatsRegs DmaRegNames) []"
| "body little (PrintDdrStatsRegs channel) =
     (if unat channel < length ddrRegAddressOffset
      then print_call little (reg_offset (ddrRegAddressOffset ! unat channel) (ddrCtrlAddr_value DDR_STATS)) (take numDdrStatsRegs DdrRegNames) []
      else Return (Failed (Channel_Out_Of_Range channel)))"

section \<open>A program alone on a device\<close>

partial_function (option) run_call :: "'d device \<Rightarrow> 'r call \<Rightarrow> 'd \<Rightarrow> ('r \<times> 'd) option" where
  "run_call dev c d =
     (case c of
        Return r \<Rightarrow> Some (r, d)
      | Store a v c' \<Rightarrow> run_call dev c' (dev_write dev a v d)
      | Load a k \<Rightarrow> (case dev_read dev a d of (v, d') \<Rightarrow> run_call dev (k v) d')
      | Sleep c' \<Rightarrow> run_call dev c' (dev_sleep dev d))"

lemma run_call_simps [simp]:
  "run_call dev (Return r) d = Some (r, d)"
  "run_call dev (Store a v c) d = run_call dev c (dev_write dev a v d)"
  "run_call dev (Load a k) d = (case dev_read dev a d of (v, d') \<Rightarrow> run_call dev (k v) d')"
  "run_call dev (Sleep c) d = run_call dev c (dev_sleep dev d)"
  by (subst run_call.simps, simp)+

lemma run_stores:
  "run_call dev (stores (host_little dev) a ws c) d = run_call dev c (fold (\<lambda>w. dev_write dev a (htols (host_little dev) w)) ws d)"
  by (induction ws arbitrary: d) simp_all

lemma poll_call_simps [simp]:
  "poll_call little a Poll_sleep = Sleep (poll_call little a Poll_lower)"
  "poll_call little a Poll_lower = Load (user_off a) (\<lambda>v. poll_call little a (Poll_upper (htols little v)))"
  "poll_call little a (Poll_upper lower) = Load (user_off a) (\<lambda>v. poll_call little a (Poll_test lower (htols little v)))"
  "poll_call little a (Poll_test lower upper) =
     (if lower = 0 then Sleep (poll_call little a Poll_lower) else Return (Value (join_halves lower upper)))"
  by (subst poll_call.code, simp)+

declare poll_call.simps [simp del]

lemma poll_returns_run:
  assumes "poll_cycles dev a d = Some y"
  shows "run_call dev (poll_call (host_little dev) a Poll_sleep) d = Some (Value (fst y), snd y)"
proof (rule poll_cycles.raw_induct [where P = "\<lambda>dev a d y. run_call dev (poll_call (host_little dev) a Poll_sleep) d = Some (Value (fst y), snd y)", OF _ assms])
  fix poll dev a d y
  assume 1: "\<And>dev a d y. poll dev a d = Some y \<Longrightarrow> run_call dev (poll_call (host_little dev) a Poll_sleep) d = Some (Value (fst y), snd y)"
    "(let d = dev_sleep dev d; (lower, d) = readReg_user dev a d; (upper, d) = readReg_user dev a d
      in if lower = 0 then poll dev a d else Some (join_halves lower upper, d)) = Some y"
  obtain l d1 where l: "dev_read dev (user_off a) (dev_sleep dev d) = (l, d1)" by fastforce
  obtain u d2 where u: "dev_read dev (user_off a) d1 = (u, d2)" by fastforce
  show "run_call dev (poll_call (host_little dev) a Poll_sleep) d = Some (Value (fst y), snd y)"
    using 1(2) 1(1) [of dev a d2 y] by (auto simp: readReg_user_def l u split: if_splits)
qed

text \<open>Conversely, a program that is somewhere in the loop and returns, returns what the loop returns.\<close>

definition poll_rest :: "'d device \<Rightarrow> userCtrlAddr \<Rightarrow> poll_state \<Rightarrow> 'd \<Rightarrow> (u64 \<times> 'd) option" where
  "poll_rest dev a s d =
     (let test = (\<lambda>lower upper d. if lower = 0 then poll_cycles dev a d else Some (join_halves lower upper, d)) in
      case s of
        Poll_sleep \<Rightarrow> poll_cycles dev a d
      | Poll_lower \<Rightarrow> (let (lower, d) = readReg_user dev a d; (upper, d) = readReg_user dev a d in test lower upper d)
      | Poll_upper lower \<Rightarrow> (let (upper, d) = readReg_user dev a d in test lower upper d)
      | Poll_test lower upper \<Rightarrow> test lower upper d)"

lemma poll_rest_unfold:
  "poll_rest dev a Poll_sleep d = poll_rest dev a Poll_lower (dev_sleep dev d)"
  "poll_rest dev a Poll_lower d = (case dev_read dev (user_off a) d of (v, d') \<Rightarrow> poll_rest dev a (Poll_upper (htols (host_little dev) v)) d')"
  "poll_rest dev a (Poll_upper l) d = (case dev_read dev (user_off a) d of (v, d') \<Rightarrow> poll_rest dev a (Poll_test l (htols (host_little dev) v)) d')"
  "poll_rest dev a (Poll_test l u) d = (if l = 0 then poll_rest dev a Poll_lower (dev_sleep dev d) else Some (join_halves l u, d))"
proof -
  show sleep: "poll_rest dev a Poll_sleep d = poll_rest dev a Poll_lower (dev_sleep dev d)" for d
    unfolding poll_rest_def by (subst poll_cycles.simps) (simp add: Let_def split: prod.splits)
  show "poll_rest dev a Poll_lower d = (case dev_read dev (user_off a) d of (v, d') \<Rightarrow> poll_rest dev a (Poll_upper (htols (host_little dev) v)) d')"
    "poll_rest dev a (Poll_upper l) d = (case dev_read dev (user_off a) d of (v, d') \<Rightarrow> poll_rest dev a (Poll_test l (htols (host_little dev) v)) d')"
    by (simp_all add: poll_rest_def readReg_user_def split: prod.split)
  show "poll_rest dev a (Poll_test l u) d = (if l = 0 then poll_rest dev a Poll_lower (dev_sleep dev d) else Some (join_halves l u, d))"
    using sleep [of d] by (simp add: poll_rest_def)
qed

lemma run_returns_poll:
  assumes "run_call dev c d = Some y"
  shows "\<forall>s. c = poll_call (host_little dev) a s \<longrightarrow> (\<exists>v d'. y = (Value v, d') \<and> poll_rest dev a s d = Some (v, d'))"
proof (rule run_call.raw_induct [where P = "\<lambda>dev c d y. \<forall>s. c = poll_call (host_little dev) a s \<longrightarrow>
    (\<exists>v d'. y = (Value v, d') \<and> poll_rest dev a s d = Some (v, d'))", OF _ assms], intro allI impI)
  fix run and dev :: "'b device" and c d y s
  assume 1: "\<And>dev c d y. run dev c d = Some y \<Longrightarrow>
      \<forall>s. c = poll_call (host_little dev) a s \<longrightarrow> (\<exists>v d'. y = (Value v, d') \<and> poll_rest dev a s d = Some (v, d'))"
    "(case c of Return r \<Rightarrow> Some (r, d) | Store a v c' \<Rightarrow> run dev c' (dev_write dev a v d)
      | Load a k \<Rightarrow> (case dev_read dev a d of (v, d') \<Rightarrow> run dev (k v) d') | Sleep c' \<Rightarrow> run dev c' (dev_sleep dev d)) = Some y"
    and c: "c = poll_call (host_little dev) a s"
  have IH: "\<exists>v d'. y = (Value v, d') \<and> poll_rest dev a s' e = Some (v, d')" if "run dev (poll_call (host_little dev) a s') e = Some y" for s' e
    using 1(1) [OF that] by blast
  show "\<exists>v d'. y = (Value v, d') \<and> poll_rest dev a s d = Some (v, d')"
  proof (cases s)
    case Poll_sleep
    then show ?thesis using 1(2) IH [of Poll_lower] by (simp add: c poll_rest_unfold(1) del: poll_call_simps(2-4))
  next
    case Poll_lower
    then show ?thesis using 1(2) IH [of "Poll_upper _"]
      by (auto simp: c poll_rest_unfold(2) simp del: poll_call_simps(3,4) split: prod.splits)
  next
    case (Poll_upper l)
    then show ?thesis using 1(2) IH [of "Poll_test l _"]
      by (auto simp: c poll_rest_unfold(3) simp del: poll_call_simps(4) split: prod.splits)
  next
    case (Poll_test l u)
    then show ?thesis using 1(2) IH [of Poll_lower]
      by (auto simp: c poll_rest_unfold(4) simp del: poll_call_simps(2) split: if_splits)
  qed
qed

lemma run_poll:
  "run_call dev (poll_call (host_little dev) a Poll_sleep) d = map_option (\<lambda>(v, d). (Value v, d)) (poll_cycles dev a d)"
proof (cases "poll_cycles dev a d")
  case (Some y)
  then show ?thesis using poll_returns_run [OF Some] by (auto split: prod.split)
next
  case None
  have "run_call dev (poll_call (host_little dev) a Poll_sleep) d \<noteq> Some y" for y
  proof
    assume "run_call dev (poll_call (host_little dev) a Poll_sleep) d = Some y"
    from spec [OF run_returns_poll [OF this, of a], of Poll_sleep] show False using None by (auto simp: poll_rest_def)
  qed
  then have "run_call dev (poll_call (host_little dev) a Poll_sleep) d = None" by (metis not_Some_eq)
  then show ?thesis using None by (simp del: poll_call_simps)
qed

lemma run_print:
  "run_call dev (print_call (host_little dev) a names lines) d =
     (case print_regs (\<lambda>d. case dev_read dev a d of (v, d') \<Rightarrow> (htols (host_little dev) v, d')) names d of (ls, d') \<Rightarrow> Some (Lines (lines @ ls), d'))"
  by (induction names arbitrary: lines d) (auto simp: Let_def split: prod.split)

lemma run_get:
  "run_call dev (get_call (host_little dev) a) d =
     (case (let (lower, d) = readReg_dma dev a d; (upper, d) = readReg_dma dev a d in (join_halves lower upper, d)) of
        (v, d) \<Rightarrow> Some (Value v, d))"
  by (simp add: get_call_def readReg_dma_def split: prod.split)

text \<open>The operations of \<open>Fpga_Controller\<close> under one type.\<close>

fun operate :: "'d device \<Rightarrow> ctrl_op \<Rightarrow> 'd \<Rightarrow> (ctrl_result \<times> 'd) option" where
  "operate dev (WriteTlb v p b) d = Some (Done, writeTlb dev v p b d)"
| "operate dev (RunDma a m n c s op) d = map_option (\<lambda>(v, d). (Value v, d)) (runDmaBenchmark dev a m n c s op d)"
| "operate dev (RunDram a m n c s op channel) d =
     map_option (\<lambda>(v, d). (Value v, d)) (runDramBenchmark dev a m n c s op channel d)"
| "operate dev (SetIpAddr a) d = Some (Done, setIpAddr dev a d)"
| "operate dev (SetBoardNumber n) d = Some (Done, setBoardNumber dev n d)"
| "operate dev ResetDmaReads d = Some (Done, resetDmaReads dev d)"
| "operate dev GetDmaReads d = (case getDmaReads dev d of (v, d) \<Rightarrow> Some (Value v, d))"
| "operate dev ResetDmaWrites d = Some (Done, resetDmaWrites dev d)"
| "operate dev GetDmaWrites d = (case getDmaWrites dev d of (v, d) \<Rightarrow> Some (Value v, d))"
| "operate dev PrintDebugRegs d = (case printDebugRegs dev d of (ls, d) \<Rightarrow> Some (Lines ls, d))"
| "operate dev PrintDmaStatsRegs d = (case printDmaStatsRegs dev d of (ls, d) \<Rightarrow> Some (Lines ls, d))"
| "operate dev (PrintDdrStatsRegs channel) d =
     (case printDdrStatsRegs dev channel d of Inl e \<Rightarrow> Some (Failed e, d) | Inr (ls, d) \<Rightarrow> Some (Lines ls, d))"

lemma run_print_ddr:
  "run_call dev (body (host_little dev) (PrintDdrStatsRegs channel)) d = operate dev (PrintDdrStatsRegs channel) d"
proof (cases "unat channel < length ddrRegAddressOffset")
  case True
  then have "readReg_ddr dev DDR_STATS channel = (\<lambda>d. Inr (case dev_read dev (reg_offset (ddrRegAddressOffset ! unat channel)
      (ddrCtrlAddr_value DDR_STATS)) d of (v, d') \<Rightarrow> (htols (host_little dev) v, d')))"
    by (auto simp: readReg_ddr_def split: prod.split)
  with True show ?thesis by (simp add: run_print printDdrStatsRegs_def print_ddr_regs_eq split: prod.split)
next
  case False
  then have "readReg_ddr dev DDR_STATS channel = (\<lambda>d. Inl (Channel_Out_Of_Range channel))"
    by (auto simp: readReg_ddr_def)
  moreover have "take numDdrStatsRegs DdrRegNames \<noteq> []" by (simp add: numDdrStatsRegs_def DdrRegNames_def)
  ultimately show ?thesis using False by (simp add: printDdrStatsRegs_def print_ddr_regs_fails)
qed

text \<open>Alone on the device, the program of an operation has the result and the effect of the operation, and
  it returns if and only if the operation does.\<close>

lemma bodies_run: "run_call dev (body (host_little dev) op) d = operate dev op d"
proof (cases op)
  case (PrintDdrStatsRegs channel)
  then show ?thesis by (simp only: run_print_ddr)
qed (simp_all add: run_stores run_poll run_get run_print tlb_words_def bench_words_def writeTlb_def writeReg_dma_def writeReg_user_def
    runDmaBenchmark_def runDramBenchmark_def bench_request_def setIpAddr_def setBoardNumber_def resetDmaReads_def resetDmaWrites_def
    getDmaReads_def getDmaWrites_def printDebugRegs_def printDmaStatsRegs_def readReg_dma_def [abs_def] readReg_user_def [abs_def] Let_def
    del: poll_call_simps)

section \<open>Threads and the lock\<close>

datatype access = Stored u64 u32 | Loaded u64 u32 | Slept

datatype thread = Outside | Waiting ctrl_op | Inside ctrl_op "ctrl_result call"

record ctrl_sys =
  ctrl_mutex :: "nat option"
  threads :: "nat \<Rightarrow> thread"
  bus :: "access list"
  finished :: "(ctrl_op \<times> ctrl_result) list"

definition ctrl_init :: ctrl_sys where
  "ctrl_init = \<lparr>ctrl_mutex = None, threads = (\<lambda>t. Outside), bus = [], finished = []\<rparr>"

abbreviation inside :: "nat \<Rightarrow> ctrl_op \<Rightarrow> ctrl_result call \<Rightarrow> access list \<Rightarrow> ctrl_sys \<Rightarrow> ctrl_sys" where
  "inside t op c acc s \<equiv> s\<lparr>threads := (threads s)(t := Inside op c), bus := bus s @ acc\<rparr>"

inductive ctrl_step :: "bool \<Rightarrow> ctrl_sys \<Rightarrow> ctrl_sys \<Rightarrow> bool" for little where
  invoke: "threads s t = Outside \<Longrightarrow> ctrl_step little s (s\<lparr>threads := (threads s)(t := Waiting op)\<rparr>)"
| acquire: "threads s t = Waiting op \<Longrightarrow> ctrl_mutex s = None \<Longrightarrow>
    ctrl_step little s (inside t op (body little op) [] s\<lparr>ctrl_mutex := Some t\<rparr>)"
| store: "threads s t = Inside op (Store a v c) \<Longrightarrow> ctrl_step little s (inside t op c [Stored a v] s)"
| load: "threads s t = Inside op (Load a k) \<Longrightarrow> ctrl_step little s (inside t op (k v) [Loaded a v] s)"
| sleep: "threads s t = Inside op (Sleep c) \<Longrightarrow> ctrl_step little s (inside t op c [Slept] s)"
| release: "threads s t = Inside op (Return r) \<Longrightarrow>
    ctrl_step little s (s\<lparr>ctrl_mutex := None, threads := (threads s)(t := Outside), finished := finished s @ [(op, r)]\<rparr>)"

inductive ctrl_reach :: "bool \<Rightarrow> ctrl_sys \<Rightarrow> bool" for little where
  init: "ctrl_reach little ctrl_init"
| step: "ctrl_reach little s \<Longrightarrow> ctrl_step little s s' \<Longrightarrow> ctrl_reach little s'"

text \<open>What remains of a program after a sequence of accesses, if they are accesses it makes.\<close>

fun after :: "'r call \<Rightarrow> access list \<Rightarrow> 'r call option" where
  "after c [] = Some c"
| "after (Store a v c) (Stored b w # tr) = (if a = b \<and> v = w then after c tr else None)"
| "after (Load a k) (Loaded b w # tr) = (if a = b then after (k w) tr else None)"
| "after (Sleep c) (Slept # tr) = after c tr"
| "after c (x # tr) = None"

text \<open>A bus on which the operations appear whole and one after the other, with their results.\<close>

inductive serial :: "bool \<Rightarrow> (ctrl_op \<times> ctrl_result) list \<Rightarrow> access list \<Rightarrow> bool" for little where
  none: "serial little [] []"
| operation: "serial little h b \<Longrightarrow> after (body little op) tr = Some (Return r) \<Longrightarrow> serial little (h @ [(op, r)]) (b @ tr)"

definition lock_inv :: "ctrl_sys \<Rightarrow> bool" where
  "lock_inv s \<longleftrightarrow> (\<forall>t op c. threads s t = Inside op c \<longrightarrow> ctrl_mutex s = Some t)"

definition bus_inv :: "bool \<Rightarrow> ctrl_sys \<Rightarrow> bool" where
  "bus_inv little s \<longleftrightarrow>
     (case ctrl_mutex s of
        None \<Rightarrow> serial little (finished s) (bus s)
      | Some t \<Rightarrow> \<exists>op c b tr. threads s t = Inside op c \<and> bus s = b @ tr \<and> serial little (finished s) b \<and>
          after (body little op) tr = Some c)"

lemma lock_holder: "lock_inv s \<Longrightarrow> threads s t = Inside op c \<Longrightarrow> ctrl_mutex s = Some t"
  by (auto simp: lock_inv_def)

lemma after_append: "after c (xs @ ys) = (case after c xs of None \<Rightarrow> None | Some c' \<Rightarrow> after c' ys)"
  by (induction c xs rule: after.induct) auto

lemma lock_inv_step: "ctrl_step little s s' \<Longrightarrow> lock_inv s \<Longrightarrow> lock_inv s'"
proof (induction rule: ctrl_step.induct)
  case (release s t op r)
  then have "ctrl_mutex s = Some t" by (auto simp: lock_inv_def)
  with release show ?case by (auto simp: lock_inv_def)
qed (fastforce simp: lock_inv_def split: if_splits)+

text \<open>One access of the thread that holds the lock.\<close>

lemma bus_inv_access:
  assumes "threads s t = Inside op c" and "lock_inv s" and "bus_inv little s" and "after c [x] = Some c'"
  shows "bus_inv little (inside t op c' [x] s)"
proof -
  from assms(1,2) have lock: "ctrl_mutex s = Some t" by (auto simp: lock_inv_def)
  with assms(1,3) obtain b tr where "bus s = b @ tr" "serial little (finished s) b" "after (body little op) tr = Some c"
    by (auto simp: bus_inv_def)
  with assms(4) have "bus s @ [x] = b @ (tr @ [x]) \<and> serial little (finished s) b \<and> after (body little op) (tr @ [x]) = Some c'"
    by (simp add: after_append)
  with lock show ?thesis unfolding bus_inv_def by auto
qed

lemma bus_inv_step: "ctrl_step little s s' \<Longrightarrow> lock_inv s \<Longrightarrow> bus_inv little s \<Longrightarrow> bus_inv little s'"
proof (induction rule: ctrl_step.induct)
  case (invoke s t op)
  then show ?case by (auto simp: bus_inv_def split: option.splits)
next
  case (acquire s t op)
  then have "bus s = bus s @ [] \<and> serial little (finished s) (bus s) \<and> after (body little op) [] = Some (body little op)"
    by (simp add: bus_inv_def)
  then show ?case unfolding bus_inv_def by (auto simp del: after.simps)
next
  case (release s t op r)
  then have "ctrl_mutex s = Some t" by (auto simp: lock_inv_def)
  with release show ?case by (auto simp: bus_inv_def intro: serial.operation)
qed (auto intro: bus_inv_access)

lemma reach_inv: "ctrl_reach little s \<Longrightarrow> lock_inv s \<and> bus_inv little s"
proof (induction rule: ctrl_reach.induct)
  case init
  then show ?case by (simp add: ctrl_init_def lock_inv_def bus_inv_def serial.none)
next
  case (step s s')
  then show ?case using lock_inv_step bus_inv_step by blast
qed

section \<open>The concurrent operations take effect one after the other\<close>

text \<open>A device behind the bus: the loads have returned what it returns.\<close>

fun replay :: "'d device \<Rightarrow> access list \<Rightarrow> 'd \<Rightarrow> 'd option" where
  "replay dev [] d = Some d"
| "replay dev (Stored a v # tr) d = replay dev tr (dev_write dev a v d)"
| "replay dev (Loaded a v # tr) d = (case dev_read dev a d of (v', d') \<Rightarrow> if v' = v then replay dev tr d' else None)"
| "replay dev (Slept # tr) d = replay dev tr (dev_sleep dev d)"

fun operations :: "'d device \<Rightarrow> (ctrl_op \<times> ctrl_result) list \<Rightarrow> 'd \<Rightarrow> 'd option" where
  "operations dev [] d = Some d"
| "operations dev ((op, r) # h) d =
     (case operate dev op d of None \<Rightarrow> None | Some (r', d') \<Rightarrow> if r' = r then operations dev h d' else None)"

lemma replay_append: "replay dev (xs @ ys) d = (case replay dev xs d of None \<Rightarrow> None | Some d' \<Rightarrow> replay dev ys d')"
  by (induction dev xs d rule: replay.induct) (auto split: prod.split)

lemma operations_snoc:
  "operations dev (h @ [(op, r)]) d =
     (case operations dev h d of None \<Rightarrow> None
      | Some d \<Rightarrow> (case operate dev op d of None \<Rightarrow> None | Some (r', d') \<Rightarrow> if r' = r then Some d' else None))"
  by (induction dev h d rule: operations.induct) (auto split: option.split prod.split)

lemma after_run:
  "after c tr = Some (Return r) \<Longrightarrow> replay dev tr d = Some d' \<Longrightarrow> run_call dev c d = Some (r, d')"
  by (induction c tr arbitrary: d rule: after.induct) (auto split: if_splits prod.splits)

lemma serial_operations:
  "serial (host_little dev) h b \<Longrightarrow> replay dev b d = Some d' \<Longrightarrow> operations dev h d = Some d'"
proof (induction arbitrary: d' rule: serial.induct)
  case none
  then show ?case by simp
next
  case (operation h b op tr r)
  then obtain e where e: "replay dev b d = Some e" "replay dev tr e = Some d'" by (auto simp: replay_append split: option.splits)
  from after_run [OF operation(2) e(2)] have "operate dev op e = Some (r, d')" by (simp only: bodies_run)
  with operation(3) [OF e(1)] show ?case by (simp add: operations_snoc)
qed

section \<open>The mappings on the bus\<close>

text \<open>The stores to the window of the DMA controller, as register number and word.\<close>

fun dma_stores :: "access list \<Rightarrow> (nat \<times> u32) list" where
  "dma_stores [] = []"
| "dma_stores (Stored a v # tr) =
     (if 4096 \<le> unat a \<and> unat a < 8192 then (unat a mod 4096 div 32, v) # dma_stores tr else dma_stores tr)"
| "dma_stores (x # tr) = dma_stores tr"

fun requested_mappings :: "(ctrl_op \<times> ctrl_result) list \<Rightarrow> tlbMapping list" where
  "requested_mappings [] = []"
| "requested_mappings ((WriteTlb v p b, r) # h) = \<lparr>map_vaddr = v, map_paddr = p, map_isBase = b\<rparr> # requested_mappings h"
| "requested_mappings (x # h) = requested_mappings h"

lemma dma_stores_append: "dma_stores (xs @ ys) = dma_stores xs @ dma_stores ys"
  by (induction xs rule: dma_stores.induct) auto

lemma requested_mappings_append: "requested_mappings (g @ h) = requested_mappings g @ requested_mappings h"
  by (induction g rule: requested_mappings.induct) auto

lemma after_stores:
  assumes "after (stores little a ws c) tr = Some (Return r)"
  shows "\<exists>rest. tr = map (\<lambda>w. Stored a (htols little w)) ws @ rest \<and> after c rest = Some (Return r)"
  using assms
proof (induction ws arbitrary: tr)
  case Nil
  then show ?case by simp
next
  case (Cons w ws)
  then show ?case by (cases "(Store a (htols little w) (stores little a ws c), tr)" rule: after.cases) (auto split: if_splits)
qed

text \<open>The polling and printing programs make no stores, however long they run.\<close>

coinductive quiet :: "'r call \<Rightarrow> bool" where
  quiet_return: "quiet (Return r)"
| quiet_load: "(\<And>v. quiet (k v)) \<Longrightarrow> quiet (Load a k)"
| quiet_sleep: "quiet c \<Longrightarrow> quiet (Sleep c)"

inductive_simps quiet_simps [simp]: "quiet (Return r)" "quiet (Store a v c)" "quiet (Load a k)" "quiet (Sleep c)"

lemma quiet_poll: "quiet (poll_call little a s)"
proof (coinduction arbitrary: s rule: quiet.coinduct)
  case quiet
  show ?case
  proof (cases s)
    case Poll_sleep
    then show ?thesis unfolding Poll_sleep poll_call_simps(1) by blast
  next
    case Poll_lower
    then show ?thesis unfolding Poll_lower poll_call_simps(2) by blast
  next
    case (Poll_upper l)
    then show ?thesis unfolding Poll_upper poll_call_simps(3) by blast
  next
    case (Poll_test l u)
    then show ?thesis unfolding Poll_test poll_call_simps(4) by (cases "l = 0") (simp_all del: poll_call_simps, blast)
  qed
qed

lemma quiet_print: "quiet (print_call little a names ls)"
  by (induction names arbitrary: ls) simp_all

lemma quiet_get: "quiet (get_call little a)"
  by (simp add: get_call_def)

lemma quiet_no_stores: "after c tr = Some c' \<Longrightarrow> quiet c \<Longrightarrow> dma_stores tr = []"
  by (induction c tr rule: after.induct) (auto split: if_splits)

text \<open>The transactions of one whole operation at the DMA controller.\<close>

lemma dma_off_values:
  "unat (dma_off TLB) = 4096 + 64" "unat (dma_off DMA_READS) = 4096 + 320" "unat (dma_off DMA_WRITES) = 4096 + 352"
  "unat (user_off DMA_BENCH) = 96" "unat (user_off DDR_BENCH) = 64"
  by (simp_all add: reg_offset_def dmaRegAddressOffset_def userRegAddressOffset_def push_bit_eq_mult)

fun op_txns :: "ctrl_op \<Rightarrow> (nat \<times> u32) list" where
  "op_txns (WriteTlb v p b) = map (Pair 2) (tlb_words v p b)"
| "op_txns ResetDmaReads = [(10, 1)]"
| "op_txns ResetDmaWrites = [(11, 1)]"
| "op_txns op = []"

lemma operation_txns:
  assumes "after (body True op) tr = Some (Return r)"
  shows "dma_stores tr = op_txns op"
proof -
  note facts = dma_stores_append dma_off_values [simplified] htols_def tlb_words_def bench_words_def
  show ?thesis
  proof (cases op)
    case (RunDma a m n c s f)
    from after_stores [OF assms [unfolded RunDma body.simps]] quiet_poll show ?thesis
      by (auto simp: RunDma facts simp del: poll_call_simps dest!: quiet_no_stores)
  next
    case (RunDram a m n c s f ch)
    from after_stores [OF assms [unfolded RunDram body.simps]] quiet_poll show ?thesis
      by (auto simp: RunDram facts simp del: poll_call_simps dest!: quiet_no_stores)
  next
    case (WriteTlb v p b)
    from after_stores [OF assms [unfolded WriteTlb body.simps]] show ?thesis
      by (auto simp: WriteTlb facts dest!: quiet_no_stores)
  next
    case ResetDmaReads
    from after_stores [OF assms [unfolded ResetDmaReads body.simps]] show ?thesis
      by (auto simp: ResetDmaReads facts dest!: quiet_no_stores)
  next
    case ResetDmaWrites
    from after_stores [OF assms [unfolded ResetDmaWrites body.simps]] show ?thesis
      by (auto simp: ResetDmaWrites facts dest!: quiet_no_stores)
  qed (use quiet_no_stores [OF assms] quiet_get quiet_print in auto)
qed

lemma dma_txns_append: "dma_txns (xs @ ys) d = dma_txns ys (dma_txns xs d)"
  by (simp add: dma_txns_def)

lemma op_txns_effect:
  assumes "dc_word_counter d = 0"
  shows "dc_word_counter (dma_txns (op_txns op) d) = 0 \<and>
    dc_tlb_out (dma_txns (op_txns op) d) = dc_tlb_out d @ requested_mappings [(op, r)]"
proof (cases op)
  case (WriteTlb v p b)
  from dma_ctrl_tlb_write [OF assms, of b p v] show ?thesis
    using assms by (auto simp: WriteTlb dma_txns_def tlb_words_def)
qed (use assms in \<open>simp_all add: dma_txns_def dma_ctrl_write_def\<close>)

lemma serial_txns:
  "serial True h b \<Longrightarrow> dc_word_counter d = 0 \<Longrightarrow>
   dc_word_counter (dma_txns (dma_stores b) d) = 0 \<and> dc_tlb_out (dma_txns (dma_stores b) d) = dc_tlb_out d @ requested_mappings h"
proof (induction rule: serial.induct)
  case none
  then show ?case by (simp add: dma_txns_def)
next
  case (operation h b op tr r)
  then show ?case using op_txns_effect [of "dma_txns (dma_stores b) d" op r]
    by (simp add: dma_stores_append dma_txns_append operation_txns requested_mappings_append)
qed

section \<open>A benchmark that does not end\<close>

text \<open>Where the polling thread may be while the cycles read as zero.\<close>

definition polling :: "bool \<Rightarrow> userCtrlAddr \<Rightarrow> ctrl_result call \<Rightarrow> bool" where
  "polling little a c \<longleftrightarrow>
     c \<in> {poll_call little a Poll_sleep, poll_call little a Poll_lower, poll_call little a (Poll_upper 0)} \<or>
     (\<exists>u. c = poll_call little a (Poll_test 0 u))"

definition stuck :: "bool \<Rightarrow> userCtrlAddr \<Rightarrow> nat \<Rightarrow> (ctrl_op \<times> ctrl_result) list \<Rightarrow> ctrl_sys \<Rightarrow> bool" where
  "stuck little a t h s \<longleftrightarrow>
     ctrl_mutex s = Some t \<and> finished s = h \<and> (\<exists>op c. threads s t = Inside op c \<and> polling little a c) \<and> lock_inv s"

lemma polling_Load:
  assumes "polling little a (Load b k)" and "htols little v = 0"
  shows "b = user_off a \<and> polling little a (k v)"
  using assms unfolding polling_def by (auto simp del: poll_call_simps(2-4) simp: poll_call_simps(2-4) [of little a])

lemma ctrl_step_bus: "ctrl_step little s s' \<Longrightarrow> \<exists>tr. bus s' = bus s @ tr"
  by (induction rule: ctrl_step.induct) auto

lemma ctrl_steps_bus: "(ctrl_step little)\<^sup>*\<^sup>* s s' \<Longrightarrow> \<exists>tr. bus s' = bus s @ tr"
  by (induction rule: rtranclp_induct) (use ctrl_step_bus in fastforce)+

lemma polling_others:
  "\<not> polling little a (Store b v c)" "\<not> polling little a (Return r)" "polling little a (Sleep c) \<Longrightarrow> polling little a c"
  by (auto simp: polling_def)

lemma stuck_step:
  assumes "ctrl_step little s s'" and "stuck little a t h s" and "bus s' = bus s @ tr"
    and "\<forall>v. Loaded (user_off a) v \<in> set tr \<longrightarrow> htols little v = 0"
  shows "stuck little a t h s'"
proof -
  have inv: "lock_inv s'" using lock_inv_step assms(1,2) by (auto simp: stuck_def)
  have holder: "t' = t" if "threads s t' = Inside op c" for t' op c
    using lock_holder [OF _ that] assms(2) by (auto simp: stuck_def)
  obtain op c where t: "threads s t = Inside op c" "polling little a c" "ctrl_mutex s = Some t" "finished s = h"
    using assms(2) by (auto simp: stuck_def)
  have "ctrl_mutex s' = Some t \<and> finished s' = h \<and> (\<exists>op c. threads s' t = Inside op c \<and> polling little a c)"
    using assms(1)
  proof (cases rule: ctrl_step.cases)
    case (invoke t' op')
    then have "t' \<noteq> t" using t(1) by auto
    with invoke t show ?thesis by simp
  next
    case (acquire t' op')
    then show ?thesis using t(3) by simp
  next
    case (store t' op' b v c')
    then show ?thesis using holder [OF store(2)] t(1,2) polling_others(1) by simp
  next
    case (load t' op' b k v)
    then have "t' = t" "tr = [Loaded b v]" "c = Load b k" using holder [OF load(2)] t(1) assms(3) by simp_all
    moreover from this t(2) have "b = user_off a" by (auto simp: polling_def)
    ultimately have "polling little a (k v)" using polling_Load [of little a b k v] assms(4) t(2) by simp
    with load t \<open>t' = t\<close> show ?thesis by simp
  next
    case (sleep t' op' c')
    then have "t' = t" "c = Sleep c'" using holder [OF sleep(2)] t(1) by simp_all
    with sleep t polling_others(3) show ?thesis by simp
  next
    case (release t' op' r)
    then show ?thesis using holder [OF release(2)] t(1,2) polling_others(2) by simp
  qed
  with inv show ?thesis by (simp add: stuck_def)
qed

lemma stuck_steps:
  assumes "(ctrl_step little)\<^sup>*\<^sup>* s s'" and "stuck little a t h s" and "bus s' = bus s @ tr"
    and "\<forall>v. Loaded (user_off a) v \<in> set tr \<longrightarrow> htols little v = 0"
  shows "stuck little a t h s'"
  using assms
proof (induction arbitrary: tr rule: rtranclp_induct)
  case base
  then show ?case by simp
next
  case (step s1 s2)
  from ctrl_steps_bus [OF step(1)] ctrl_step_bus [OF step(2)] obtain x y where "bus s1 = bus s @ x" "bus s2 = bus s1 @ y" by blast
  moreover from this step(5) have "tr = x @ y" by simp
  ultimately show ?case using step(2,3,4,6) stuck_step [OF step(2), of a t h y] by simp
qed

section \<open>Executions\<close>

text \<open>A schedule, as the thread that moves and what it does; a load returns the given value.\<close>

datatype move = Call nat ctrl_op | Lock nat | Go nat u32

fun make_move :: "bool \<Rightarrow> move \<Rightarrow> ctrl_sys \<Rightarrow> ctrl_sys option" where
  "make_move little (Call t op) s = (if threads s t = Outside then Some (s\<lparr>threads := (threads s)(t := Waiting op)\<rparr>) else None)"
| "make_move little (Lock t) s =
     (case (threads s t, ctrl_mutex s) of
        (Waiting op, None) \<Rightarrow> Some (inside t op (body little op) [] s\<lparr>ctrl_mutex := Some t\<rparr>)
      | _ \<Rightarrow> None)"
| "make_move little (Go t v) s =
     (case threads s t of
        Inside op c \<Rightarrow>
          (case c of
             Store a w c' \<Rightarrow> Some (inside t op c' [Stored a w] s)
           | Load a k \<Rightarrow> Some (inside t op (k v) [Loaded a v] s)
           | Sleep c' \<Rightarrow> Some (inside t op c' [Slept] s)
           | Return r \<Rightarrow> Some (s\<lparr>ctrl_mutex := None, threads := (threads s)(t := Outside), finished := finished s @ [(op, r)]\<rparr>))
      | _ \<Rightarrow> None)"

fun moves :: "bool \<Rightarrow> move list \<Rightarrow> ctrl_sys \<Rightarrow> ctrl_sys option" where
  "moves little [] s = Some s"
| "moves little (m # ms) s = (case make_move little m s of None \<Rightarrow> None | Some s' \<Rightarrow> moves little ms s')"

lemma move_step: "make_move little m s = Some s' \<Longrightarrow> ctrl_step little s s'"
proof (cases m)
  case (Call t op)
  assume "make_move little m s = Some s'"
  then show ?thesis using ctrl_step.invoke [of s t little op] by (simp add: Call split: if_splits)
next
  case (Lock t)
  assume "make_move little m s = Some s'"
  then show ?thesis using ctrl_step.acquire [of s t _ little] by (auto simp: Lock split: thread.splits option.splits)
next
  case (Go t v)
  assume "make_move little m s = Some s'"
  then show ?thesis by (auto simp: Go intro: ctrl_step.intros split: thread.splits call.splits)
qed

lemma moves_steps: "moves little ms s = Some s' \<Longrightarrow> (ctrl_step little)\<^sup>*\<^sup>* s s'"
  by (induction ms arbitrary: s) (auto dest!: move_step split: option.splits intro: converse_rtranclp_into_rtranclp)

lemma steps_reach: "(ctrl_step little)\<^sup>*\<^sup>* s s' \<Longrightarrow> ctrl_reach little s \<Longrightarrow> ctrl_reach little s'"
  by (induction rule: rtranclp_induct) (auto intro: ctrl_reach.step)

lemma moves_reach: "moves little ms ctrl_init = Some s \<Longrightarrow> ctrl_reach little s"
  using moves_steps steps_reach ctrl_reach.init by blast

section \<open>Properties\<close>

text \<open>C7. The lock serializes the operations: in every reachable state of any number of threads, at most one thread is inside an
  operation and it holds \<open>ctrl_mutex\<close>; the accesses on the bus are those of whole operations, one after the other, with
  the results these have returned, followed by a prefix of the accesses of the operation that holds the lock.\<close>

theorem controller_serializes:
  assumes "ctrl_reach little s"
  shows "(\<forall>t op c. threads s t = Inside op c \<longrightarrow> ctrl_mutex s = Some t) \<and>
    (ctrl_mutex s = None \<longrightarrow> serial little (finished s) (bus s)) \<and>
    (\<forall>t. ctrl_mutex s = Some t \<longrightarrow> (\<exists>op c b tr. threads s t = Inside op c \<and> bus s = b @ tr \<and>
       serial little (finished s) b \<and> after (body little op) tr = Some c))"
  using reach_inv [OF assms] by (auto simp: lock_inv_def bus_inv_def split: option.splits)

text \<open>Two threads call at the same time; the second takes the lock first and the first waits until it has returned.\<close>

definition two_threads :: "move list" where
  "two_threads = [Call 0 (WriteTlb 0x200000 0x123400000 False), Call 1 GetDmaReads, Lock 1, Go 1 9, Go 1 8, Go 1 0,
     Lock 0, Go 0 0, Go 0 0, Go 0 0, Go 0 0, Go 0 0, Go 0 0]"

definition two_threads_end :: ctrl_sys where
  "two_threads_end = \<lparr>ctrl_mutex = None, threads = (\<lambda>t. Outside),
     bus = [Loaded 4416 9, Loaded 4416 8, Stored 4160 0x200000, Stored 4160 0, Stored 4160 0x23400000, Stored 4160 1, Stored 4160 0],
     finished = [(GetDmaReads, Value 0x800000009), (WriteTlb 0x200000 0x123400000 False, Done)]\<rparr>"

lemma two_threads_run: "moves True two_threads ctrl_init = Some two_threads_end"
  by (simp add: two_threads_def ctrl_init_def two_threads_end_def get_call_def tlb_words_def htols_def join_halves_def reg_offset_def
    dmaRegAddressOffset_def push_bit_eq_mult fun_eq_iff)

lemma two_threads_reach: "ctrl_reach True two_threads_end"
  by (rule moves_reach [OF two_threads_run])

theorem controller_serializes_witness: "ctrl_mutex two_threads_end = None \<and> serial True (finished two_threads_end) (bus two_threads_end)"
  using controller_serializes [OF two_threads_reach] by (simp add: two_threads_end_def)

text \<open>C5. Concurrent calls on a device act as calls one after the other: if the loads on the bus have
  returned what the device returns and no thread holds the lock, the operations of \<open>Fpga_Controller\<close>, executed in the
  order of the lock on the same device, all return, have the results the threads have got, and lead to the same state.\<close>

theorem controller_linearizes:
  assumes "ctrl_reach (host_little dev) s" and "ctrl_mutex s = None" and "replay dev (bus s) d = Some d'"
  shows "operations dev (finished s) d = Some d'"
  using serial_operations [OF _ assms(3)] reach_inv [OF assms(1)] assms(2) by (simp add: bus_inv_def)

lemma two_threads_replay: "\<exists>d. replay (fpga_device (\<lambda>_. 0) id) (bus two_threads_end) example_fpga = Some d"
  by (simp add: two_threads_end_def fpga_device_def fpga_read_def dma_ctrl_read_def example_fpga_def dma_ctrl_reset_def
    example_counters_def length_half_def range_get_def)

theorem controller_linearizes_witness:
  "\<exists>d. operations (fpga_device (\<lambda>_. 0) id) (finished two_threads_end) example_fpga = Some d"
proof -
  obtain d where d: "replay (fpga_device (\<lambda>_. 0) id) (bus two_threads_end) example_fpga = Some d" using two_threads_replay by blast
  have "ctrl_reach (host_little (fpga_device (\<lambda>_. 0) id)) two_threads_end" using two_threads_reach by (simp add: fpga_device_def)
  from controller_linearizes [OF this _ d] show ?thesis by (simp add: two_threads_end_def)
qed

text \<open>C27. A benchmark whose cycles never become available keeps every thread away from the registers: from a reachable state
  in which a thread waits for them, as long as the loads of the cycles register return a lower half of zero, that thread holds the lock, no
  other is inside an operation and no operation returns.\<close>

theorem waiting_benchmark_blocks:
  assumes "ctrl_reach little s" and "threads s t = Inside op (poll_call little a Poll_sleep)"
    and "(ctrl_step little)\<^sup>*\<^sup>* s s'" and "bus s' = bus s @ tr" and "\<forall>v. Loaded (user_off a) v \<in> set tr \<longrightarrow> htols little v = 0"
  shows "ctrl_mutex s' = Some t \<and> finished s' = finished s \<and> (\<forall>t' op' c. threads s' t' = Inside op' c \<longrightarrow> t' = t)"
proof -
  have "polling little a (poll_call little a Poll_sleep)" by (simp add: polling_def del: poll_call_simps)
  with lock_holder [OF _ assms(2)] reach_inv [OF assms(1)] assms(2) have "stuck little a t (finished s) s"
    by (auto simp: stuck_def simp del: poll_call_simps)
  from stuck_steps [OF assms(3) this assms(4,5)] show ?thesis by (auto simp: stuck_def dest: lock_holder)
qed

definition benchmark_running :: "move list" where
  "benchmark_running = [Call 0 (RunDma 0 0 0 64 64 READ), Call 1 PrintDmaStatsRegs, Lock 0] @ replicate 8 (Go 0 0)"

theorem waiting_benchmark_blocks_witness:
  "\<exists>s s'. moves True benchmark_running ctrl_init = Some s \<and> moves True [Go 0 0, Go 0 0, Go 0 0, Go 0 0] s = Some s' \<and>
     ctrl_mutex s' = Some 0 \<and> threads s' 1 = Waiting PrintDmaStatsRegs"
proof -
  let ?op = "RunDma 0 0 0 64 64 READ"
  obtain s where s: "moves True benchmark_running ctrl_init = Some s" "threads s 0 = Inside ?op (poll_call True DMA_BENCH_CYCLES Poll_sleep)"
    "threads s 1 = Waiting PrintDmaStatsRegs"
    by (simp add: benchmark_running_def eval_nat_numeral ctrl_init_def bench_words_def del: poll_call_simps)
  obtain s' where s': "moves True [Go 0 0, Go 0 0, Go 0 0, Go 0 0] s = Some s'" "bus s' = bus s @ [Slept, Loaded (user_off DMA_BENCH_CYCLES) 0,
      Loaded (user_off DMA_BENCH_CYCLES) 0, Slept]" "threads s' 1 = Waiting PrintDmaStatsRegs"
    using s(2,3) by (simp add: htols_def)
  from waiting_benchmark_blocks [OF moves_reach [OF s(1)] s(2) moves_steps [OF s'(1)] s'(2)] s' s(1) show ?thesis by (auto simp: htols_def)
qed

text \<open>C6. Mappings written by concurrent threads arrive at the TLB unmixed. Any number of threads call operations of the
  controller; no thread holds the lock; the DMA controller's AXI-Lite port has been clocked from reset with any timing and the transactions
  it has accepted are the stores the bus made to its window, all of them answered. Then the mappings the port has passed to the TLB are those of
  the \<open>writeTlb\<close> calls, each as it was called with, in the order in which the calls took the lock.\<close>

theorem concurrent_mappings_reach_tlb:
  assumes "ctrl_reach True s" and "ctrl_mutex s = None"
    and "fold dma_write_cycle ins (dma_write_reset st0, no_log) = (st, log)"
    and "zip (log_aw log) (log_w log) = dma_stores (bus s)" and "length (log_b log) = length (log_w log)"
  shows "log_out log = requested_mappings (finished s)"
proof -
  let ?d0 = "dma_ctrl_reset (tlb_interface_data st0) example_counters"
  have "serial True (finished s) (bus s)" using reach_inv [OF assms(1)] assms(2) by (simp add: bus_inv_def)
  from serial_txns [OF this, of ?d0] have "dc_tlb_out (dma_txns (dma_stores (bus s)) ?d0) = requested_mappings (finished s)"
    by (simp add: dma_ctrl_reset_def)
  moreover have "dc_tlb_out (dma_txns (zip (log_aw log) (log_w log)) ?d0) = log_out log"
    using dma_writes_refine [OF assms(3) refl, of example_counters] assms(5) by blast
  ultimately show ?thesis using assms(4) by simp
qed

text \<open>The port serves the five stores of the example in five transactions.\<close>

definition drive :: "u32 \<Rightarrow> (axil_write_in \<times> bool) list" where
  "drive v = (let i = (\<lparr>awvalid = True, awaddr = 4160, wvalid = True, wdata = v, bready = True\<rparr>, True) in [i, i, i, i])"

definition drive_idle :: "axil_write_in \<times> bool" where
  "drive_idle = (\<lparr>awvalid = False, awaddr = 0, wvalid = False, wdata = 0, bready = True\<rparr>, True)"

definition ready_for :: "u8 \<Rightarrow> dma_write_regs \<Rightarrow> bool" where
  "ready_for n st \<longleftrightarrow> writeState st = WRITE_IDLE \<and> \<not> awready st \<and> \<not> wready st \<and> \<not> bvalid st \<and> \<not> tlb_interface_valid st \<and> word_counter st = n"

lemmas dma_write_cycle_defs = Let_def dma_write_edge_def dma_write_data_def log_channels_def dma_reg_def

lemma drive_word:
  assumes "ready_for n st" and "unat n < 4"
  shows "\<exists>st'. ready_for (n + 1) st' \<and> fold dma_write_cycle (drive v) (st, log) =
    (st', log\<lparr>log_aw := log_aw log @ [2], log_w := log_w log @ [v], log_b := log_b log @ [0]\<rparr>)"
proof -
  have "unat n = 0 \<or> unat n = 1 \<or> unat n = 2 \<or> unat n = 3" using assms(2) by arith
  then show ?thesis using assms(1) by (auto simp: drive_def ready_for_def dma_write_cycle_defs)
qed

lemma drive_last:
  assumes "ready_for 4 st"
  shows "\<exists>st' m. fold dma_write_cycle (drive v @ [drive_idle]) (st, log) =
    (st', log\<lparr>log_aw := log_aw log @ [2], log_w := log_w log @ [v], log_b := log_b log @ [0], log_out := log_out log @ [m]\<rparr>)"
  using assms by (simp add: drive_def drive_idle_def ready_for_def dma_write_cycle_defs) blast

lemma drive_run:
  "\<exists>st m. fold dma_write_cycle (drive 0x200000 @ drive 0 @ drive 0x23400000 @ drive 1 @ drive 0 @ [drive_idle])
     (dma_write_reset example_write_regs, no_log) =
   (st, \<lparr>log_aw = [2, 2, 2, 2, 2], log_w = [0x200000, 0, 0x23400000, 1, 0], log_b = [0, 0, 0, 0, 0], log_out = m\<rparr>)"
proof -
  let ?log = "\<lambda>ws. \<lparr>log_aw = map (\<lambda>_. 2) ws, log_w = ws, log_b = map (\<lambda>_. 0) ws, log_out = []\<rparr>"
  have start: "ready_for 0 (dma_write_reset example_write_regs)" by (simp add: ready_for_def dma_write_reset_def)
  from drive_word [OF start, of "0x200000" no_log] obtain a where
    a: "ready_for 1 a" "fold dma_write_cycle (drive 0x200000) (dma_write_reset example_write_regs, no_log) = (a, ?log [0x200000])"
    by (auto simp: no_log_def)
  from drive_word [OF a(1), of 0 "?log [0x200000]"] obtain b where
    b: "ready_for 2 b" "fold dma_write_cycle (drive 0) (a, ?log [0x200000]) = (b, ?log [0x200000, 0])" by auto
  from drive_word [OF b(1), of "0x23400000" "?log [0x200000, 0]"] obtain c where
    c: "ready_for 3 c" "fold dma_write_cycle (drive 0x23400000) (b, ?log [0x200000, 0]) = (c, ?log [0x200000, 0, 0x23400000])" by auto
  from drive_word [OF c(1), of 1 "?log [0x200000, 0, 0x23400000]"] obtain d where
    d: "ready_for 4 d" "fold dma_write_cycle (drive 1) (c, ?log [0x200000, 0, 0x23400000]) = (d, ?log [0x200000, 0, 0x23400000, 1])" by auto
  from drive_last [OF d(1), of 0 "?log [0x200000, 0, 0x23400000, 1]"] show ?thesis
    using a(2) b(2) c(2) d(2) by auto
qed

theorem concurrent_mappings_reach_tlb_witness:
  "\<exists>st log. fold dma_write_cycle (drive 0x200000 @ drive 0 @ drive 0x23400000 @ drive 1 @ drive 0 @ [drive_idle])
     (dma_write_reset example_write_regs, no_log) = (st, log) \<and>
     log_out log = [\<lparr>map_vaddr = 0x200000, map_paddr = 0x123400000, map_isBase = False\<rparr>]"
proof -
  obtain st m where run: "fold dma_write_cycle (drive 0x200000 @ drive 0 @ drive 0x23400000 @ drive 1 @ drive 0 @ [drive_idle])
      (dma_write_reset example_write_regs, no_log) =
    (st, \<lparr>log_aw = [2, 2, 2, 2, 2], log_w = [0x200000, 0, 0x23400000, 1, 0], log_b = [0, 0, 0, 0, 0], log_out = m\<rparr>)"
    using drive_run by blast
  from concurrent_mappings_reach_tlb [OF two_threads_reach _ run] run show ?thesis by (simp add: two_threads_end_def)
qed

end
