(* ===== verification/Ddr_Memory.thy ===== *)
theory Ddr_Memory
  imports Fpga_Controller Axi_Lite
begin

text \<open>
  \<^verbatim>\<open>hdl/common/mem_single_inf.sv\<close> and \<^verbatim>\<open>hdl/common/ddr_controller.sv\<close>: the interface to one channel of the DDR memory.

  \<^item> \<open>dm_cmd\<close> is the command the interface gives to the vendor's data mover for a memory command of
    the user logic; \<open>dm_address\<close> and \<open>dm_btt\<close> are the fields the data mover reads.
  \<^item> \<open>ddr_user_edge\<close> and \<open>ddr_mem_edge\<close> are the two clocked blocks of the statistics. What passes on
    the streams in a cycle is the input; the data mover, the FIFOs and the clock converters are the vendor's.
  \<^item> \<open>ddr_ctrl_read\<close> is a completed read of the controller's register file; \<open>ddr_read_edge\<close> and
    \<open>ddr_write_edge\<close> are the two AXI-Lite state machines, clocked by \<open>mem_clk\<close>.
  \<^item> \<open>board_device\<close> is the device of \<open>Fpga_Controller\<close> with the register files of the two channels
    of \<^verbatim>\<open>hdl/common/os.sv\<close> in their windows.

  The lemmas show which commands reach the data mover unchanged, in particular those of a DRAM
  benchmark, what the counters count, that the ports are the register file for every timing, and that the host prints
  each counter under its name.
\<close>

section \<open>Commands of the data mover\<close>

text \<open>\<open>{8'h0, address[31:0], 1'b1, 1'b1, 6'h0, 1'b1, length[22:0]}\<close>, the same for both directions.\<close>

definition dm_cmd :: "memCmd \<Rightarrow> 72 word" where
  "dm_cmd c =
     range_set 63 32 (range_get 31 0 (cmd_addr c) :: u32) (range_set 31 31 (1 :: 1 word) (range_set 30 30 (1 :: 1 word)
       (range_set 23 23 (1 :: 1 word) (range_set 22 0 (range_get 22 0 (cmd_len c) :: 23 word) 0))))"

text \<open>The fields, after the comment in the source: address, drr, eof, dsa, type and bytes to transfer.\<close>

definition dm_address :: "72 word \<Rightarrow> u32" where "dm_address w = range_get 63 32 w"
definition dm_drr :: "72 word \<Rightarrow> bool" where "dm_drr w = bit w 31"
definition dm_eof :: "72 word \<Rightarrow> bool" where "dm_eof w = bit w 30"
definition dm_dsa :: "72 word \<Rightarrow> 6 word" where "dm_dsa w = range_get 29 24 w"
definition dm_type :: "72 word \<Rightarrow> bool" where "dm_type w = bit w 23"
definition dm_btt :: "72 word \<Rightarrow> 23 word" where "dm_btt w = range_get 22 0 w"
definition dm_tag :: "72 word \<Rightarrow> 8 word" where "dm_tag w = range_get 71 64 w"

lemmas dm_fields = dm_address_def dm_drr_def dm_eof_def dm_dsa_def dm_type_def dm_btt_def dm_tag_def

lemma bit_dm_cmd:
  assumes "i < 72"
  shows "bit (dm_cmd c) i =
    (if i < 23 then bit (cmd_len c) i else if i < 32 then i \<in> {23, 30, 31} else if i < 64 then bit (cmd_addr c) (i - 32) else False)"
  using assms by (auto simp: dm_cmd_def bit_range_set bit_range_get not_less)

lemma dm_cmd_fields:
  "dm_address (dm_cmd c) = ucast (cmd_addr c)" "dm_btt (dm_cmd c) = ucast (cmd_len c)"
  "dm_drr (dm_cmd c)" "dm_eof (dm_cmd c)" "dm_type (dm_cmd c)" "dm_dsa (dm_cmd c) = 0" "dm_tag (dm_cmd c) = 0"
proof -
  show "dm_address (dm_cmd c) = ucast (cmd_addr c)" "dm_btt (dm_cmd c) = ucast (cmd_len c)"
    by (rule bit_word_eqI; simp add: dm_fields bit_range_get bit_dm_cmd bit_simps)+
  show "dm_dsa (dm_cmd c) = 0" "dm_tag (dm_cmd c) = 0"
    by (rule bit_word_eqI; auto simp: dm_fields bit_range_get bit_dm_cmd)+
  show "dm_drr (dm_cmd c)" "dm_eof (dm_cmd c)" "dm_type (dm_cmd c)" by (simp_all add: dm_fields bit_dm_cmd)
qed

lemma dm_cmd_exact:
  "unat (dm_address (dm_cmd c)) = unat (cmd_addr c) \<longleftrightarrow> unat (cmd_addr c) < 2 ^ 32"
  "unat (dm_btt (dm_cmd c)) = unat (cmd_len c) \<longleftrightarrow> unat (cmd_len c) < 2 ^ 23"
  by (simp_all add: dm_cmd_fields unsigned_ucast_eq take_bit_nat_eq_self_iff)

section \<open>Statistics\<close>

record ddr_user_counters =
  user_write_cmd_counter :: u32
  user_write_sts_counter :: u32
  user_write_sts_error_counter :: u32
  user_read_cmd_counter :: u32
  user_read_sts_counter :: u32
  user_read_sts_error_counter :: u32

record ddr_mem_counters =
  mem_write_word_counter :: u32
  mem_write_pkg_counter :: u32
  mem_write_length_counter :: u48
  mem_read_word_counter :: u32
  mem_read_pkg_counter :: u32
  mem_read_length_counter :: u48

text \<open>What passes in a cycle: valid and ready of a command, a status, a data word.\<close>

record ddr_user_in =
  write_cmd_passes :: bool
  write_sts :: "u8 option"
  read_cmd_passes :: bool
  read_sts :: "u8 option"

record ddr_mem_in =
  write_word :: "(512, 64) axis option"
  read_word :: "(512, 64) axis option"

definition ddr_user_reset :: ddr_user_counters where
  "ddr_user_reset = \<lparr>user_write_cmd_counter = 0, user_write_sts_counter = 0, user_write_sts_error_counter = 0,
     user_read_cmd_counter = 0, user_read_sts_counter = 0, user_read_sts_error_counter = 0\<rparr>"

definition ddr_mem_reset :: ddr_mem_counters where
  "ddr_mem_reset = \<lparr>mem_write_word_counter = 0, mem_write_pkg_counter = 0, mem_write_length_counter = 0,
     mem_read_word_counter = 0, mem_read_pkg_counter = 0, mem_read_length_counter = 0\<rparr>"

text \<open>On a status without the bit for success the source assigns the error counter to itself.\<close>

definition ddr_user_edge :: "ddr_user_in \<Rightarrow> ddr_user_counters \<Rightarrow> ddr_user_counters" where
  "ddr_user_edge i c = c\<lparr>
     user_write_cmd_counter := (if write_cmd_passes i then user_write_cmd_counter c + 1 else user_write_cmd_counter c),
     user_write_sts_counter := (if write_sts i \<noteq> None then user_write_sts_counter c + 1 else user_write_sts_counter c),
     user_write_sts_error_counter :=
       (case write_sts i of Some s \<Rightarrow> if \<not> bit s 7 then user_write_sts_error_counter c else user_write_sts_error_counter c
        | None \<Rightarrow> user_write_sts_error_counter c),
     user_read_cmd_counter := (if read_cmd_passes i then user_read_cmd_counter c + 1 else user_read_cmd_counter c),
     user_read_sts_counter := (if read_sts i \<noteq> None then user_read_sts_counter c + 1 else user_read_sts_counter c),
     user_read_sts_error_counter :=
       (case read_sts i of Some s \<Rightarrow> if \<not> bit s 7 then user_read_sts_error_counter c else user_read_sts_error_counter c
        | None \<Rightarrow> user_read_sts_error_counter c)\<rparr>"

text \<open>The case distinction on \<open>tkeep\<close>, which has no default.\<close>

definition keep_bytes :: "u64 \<Rightarrow> u48" where
  "keep_bytes keep =
     (if keep = 0xFF then 8
      else if keep = 0xFFFF then 16
      else if keep = 0xFFFFFF then 24
      else if keep = 0xFFFFFFFF then 32
      else if keep = 0xFFFFFFFFFF then 40
      else if keep = 0xFFFFFFFFFFFF then 48
      else if keep = 0xFFFFFFFFFFFFFF then 56
      else if keep = 0xFFFFFFFFFFFFFFFF then 64
      else 0)"

fun count_word :: "(512, 64) axis option \<Rightarrow> u32 \<times> u32 \<times> u48 \<Rightarrow> u32 \<times> u32 \<times> u48" where
  "count_word None (words, pkgs, len) = (words, pkgs, len)"
| "count_word (Some w) (words, pkgs, len) =
     (words + 1, if axis_last w then pkgs + 1 else pkgs, len + keep_bytes (axis_keep w))"

definition ddr_mem_edge :: "ddr_mem_in \<Rightarrow> ddr_mem_counters \<Rightarrow> ddr_mem_counters" where
  "ddr_mem_edge i c =
     (let (ww, wp, wl) = count_word (write_word i) (mem_write_word_counter c, mem_write_pkg_counter c, mem_write_length_counter c);
          (rw, rp, rl) = count_word (read_word i) (mem_read_word_counter c, mem_read_pkg_counter c, mem_read_length_counter c)
      in \<lparr>mem_write_word_counter = ww, mem_write_pkg_counter = wp, mem_write_length_counter = wl,
          mem_read_word_counter = rw, mem_read_pkg_counter = rp, mem_read_length_counter = rl\<rparr>)"

lemma keep_bytes_mask:
  assumes "0 < n" and "n \<le> 8"
  shows "keep_bytes (mask (8 * n)) = of_nat (8 * n)"
proof -
  have "n \<in> {1, 2, 3, 4, 5, 6, 7, 8}" using assms by auto
  then show ?thesis by (auto simp: keep_bytes_def mask_eq_exp_minus_1)
qed

text \<open>The words that pass in a list of cycles.\<close>

definition write_words :: "ddr_mem_in list \<Rightarrow> (512, 64) axis list" where
  "write_words ins = List.map_filter write_word ins"

definition read_words :: "ddr_mem_in list \<Rightarrow> (512, 64) axis list" where
  "read_words ins = List.map_filter read_word ins"

definition counted :: "(512, 64) axis list \<Rightarrow> u32 \<times> u32 \<times> u48" where
  "counted ws = (of_nat (length ws), of_nat (length (filter axis_last ws)), sum_list (map (keep_bytes \<circ> axis_keep) ws))"

lemma count_words: "fold count_word xs (counted ws) = counted (ws @ List.map_filter id xs)"
proof (induction xs arbitrary: ws)
  case (Cons x xs)
  have "count_word x (counted ws) = counted (ws @ (case x of None \<Rightarrow> [] | Some w \<Rightarrow> [w]))"
    by (auto simp: counted_def split: option.split)
  with Cons show ?case by (auto simp: map_filter_simps split: option.split)
qed (simp add: map_filter_simps)

lemma mem_counts:
  "case fold ddr_mem_edge ins \<lparr>mem_write_word_counter = a, mem_write_pkg_counter = b, mem_write_length_counter = c,
      mem_read_word_counter = d, mem_read_pkg_counter = e, mem_read_length_counter = f\<rparr> of
     s \<Rightarrow> (mem_write_word_counter s, mem_write_pkg_counter s, mem_write_length_counter s) = fold count_word (map write_word ins) (a, b, c) \<and>
          (mem_read_word_counter s, mem_read_pkg_counter s, mem_read_length_counter s) = fold count_word (map read_word ins) (d, e, f)"
proof (induction ins arbitrary: a b c d e f)
  case (Cons i ins)
  obtain a' b' c' where w: "count_word (write_word i) (a, b, c) = (a', b', c')" by (metis prod_cases3)
  obtain d' e' f' where r: "count_word (read_word i) (d, e, f) = (d', e', f')" by (metis prod_cases3)
  show ?case using Cons [of a' b' c' d' e' f'] by (simp add: ddr_mem_edge_def w r)
qed simp

lemma keep_bytes_valid:
  fixes w :: "(512, 64) axis"
  assumes "0 < n" and "n \<le> 8" and "axis_keep w = mask (8 * n)"
  shows "keep_bytes (axis_keep w) = of_nat (length (valid_bytes w))"
proof -
  have bits: "\<forall>i < 64. bit (axis_keep w) i \<longleftrightarrow> i < 8 * n" using assms(3) by (simp add: bit_mask_iff)
  have "[0..<64] = [0..<8 * n] @ [8 * n..<64]" using assms(2) upt_add_eq_append [of 0 "8 * n" "64 - 8 * n"] by simp
  then have "filter (bit (axis_keep w)) [0..<64] = filter (bit (axis_keep w)) [0..<8 * n] @ filter (bit (axis_keep w)) [8 * n..<64]"
    by (metis filter_append)
  also have "\<dots> = [0..<8 * n]" using bits assms(2) by (simp add: filter_True filter_False)
  finally have "length (valid_bytes w) = 8 * n" by (simp add: valid_bytes_def)
  then show ?thesis using keep_bytes_mask [OF assms(1,2)] assms(3) by simp
qed

lemma mem_counted:
  assumes "fold ddr_mem_edge ins ddr_mem_reset = m"
  shows "(mem_write_word_counter m, mem_write_pkg_counter m, mem_write_length_counter m) = counted (write_words ins)"
    and "(mem_read_word_counter m, mem_read_pkg_counter m, mem_read_length_counter m) = counted (read_words ins)"
proof -
  have start: "counted [] = (0, 0, 0)" by (simp add: counted_def)
  have words: "List.map_filter id (map f ins) = List.map_filter f ins" for f :: "ddr_mem_in \<Rightarrow> (512, 64) axis option"
    by (simp add: List.map_filter_def filter_map o_def)
  show "(mem_write_word_counter m, mem_write_pkg_counter m, mem_write_length_counter m) = counted (write_words ins)"
    "(mem_read_word_counter m, mem_read_pkg_counter m, mem_read_length_counter m) = counted (read_words ins)"
    using mem_counts [of ins 0 0 0 0 0 0] assms count_words [of "map write_word ins" "[]"] count_words [of "map read_word ins" "[]"]
    by (simp_all add: ddr_mem_reset_def start words write_words_def read_words_def)
qed

lemma counted_bytes:
  assumes "\<forall>w \<in> set ws. \<exists>n. 0 < n \<and> n \<le> 8 \<and> axis_keep w = mask (8 * n)"
  shows "counted ws = (of_nat (length ws), of_nat (length (filter axis_last ws)), of_nat (sum_list (map (\<lambda>w. length (valid_bytes w)) ws)))"
proof -
  have "sum_list (map (keep_bytes \<circ> axis_keep) ws) = of_nat (sum_list (map (\<lambda>w. length (valid_bytes w)) ws))"
    using assms
  proof (induction ws)
    case (Cons w ws)
    then have "keep_bytes (axis_keep w) = of_nat (length (valid_bytes w))" using keep_bytes_valid by auto
    with Cons show ?case by simp
  qed simp
  then show ?thesis by (simp add: counted_def)
qed

lemma user_counted:
  "fold ddr_user_edge ins u = u\<lparr>
     user_write_cmd_counter := user_write_cmd_counter u + of_nat (length (filter write_cmd_passes ins)),
     user_write_sts_counter := user_write_sts_counter u + of_nat (length (List.map_filter write_sts ins)),
     user_read_cmd_counter := user_read_cmd_counter u + of_nat (length (filter read_cmd_passes ins)),
     user_read_sts_counter := user_read_sts_counter u + of_nat (length (List.map_filter read_sts ins))\<rparr>"
proof (induction ins arbitrary: u)
  case Nil
  then show ?case by (simp add: map_filter_simps)
next
  case (Cons i ins)
  show ?case unfolding fold_simps Cons by (cases u) (auto simp: ddr_user_edge_def map_filter_simps split: option.split)
qed

section \<open>The register file\<close>

record ddr_counters =
  ddr_write_cmd_counter :: u32
  ddr_write_word_counter :: u32
  ddr_write_pkg_counter :: u32
  ddr_write_length_counter :: u48
  ddr_write_sts_counter :: u32
  ddr_write_sts_error_counter :: u32
  ddr_read_cmd_counter :: u32
  ddr_read_word_counter :: u32
  ddr_read_pkg_counter :: u32
  ddr_read_length_counter :: u48
  ddr_read_sts_counter :: u32
  ddr_read_sts_error_counter :: u32
  ddr_s2mm_error :: bool
  ddr_mm2s_error :: bool

text \<open>The wires between the statistics and the controller. The counters of \<open>user_clk\<close> arrive through the vendor's
  clock converters. The two error lines of the data mover are connected to each other's port.\<close>

definition ddr_wires :: "ddr_user_counters \<Rightarrow> ddr_mem_counters \<Rightarrow> bool \<Rightarrow> bool \<Rightarrow> ddr_counters" where
  "ddr_wires u m s2mm_error mm2s_error =
     \<lparr>ddr_write_cmd_counter = user_write_cmd_counter u, ddr_write_word_counter = mem_write_word_counter m,
      ddr_write_pkg_counter = mem_write_pkg_counter m, ddr_write_length_counter = mem_write_length_counter m,
      ddr_write_sts_counter = user_write_sts_counter u, ddr_write_sts_error_counter = user_write_sts_error_counter u,
      ddr_read_cmd_counter = user_read_cmd_counter u, ddr_read_word_counter = mem_read_word_counter m,
      ddr_read_pkg_counter = mem_read_pkg_counter m, ddr_read_length_counter = mem_read_length_counter m,
      ddr_read_sts_counter = user_read_sts_counter u, ddr_read_sts_error_counter = user_read_sts_error_counter u,
      ddr_s2mm_error = mm2s_error, ddr_mm2s_error = s2mm_error\<rparr>"

record ddr_ctrl =
  dd_statsRegAddr :: u8
  dd_read_length_upper :: bool
  dd_write_length_upper :: bool
  dd_counters :: ddr_counters

definition ddr_ctrl_reset :: "ddr_counters \<Rightarrow> ddr_ctrl" where
  "ddr_ctrl_reset cs = \<lparr>dd_statsRegAddr = 0, dd_read_length_upper = False, dd_write_length_upper = False, dd_counters = cs\<rparr>"

definition ddr_stats_reg :: "ddr_counters \<Rightarrow> nat \<Rightarrow> u32" where
  "ddr_stats_reg cs i =
     (if i = 0 then ddr_write_cmd_counter cs
      else if i = 1 then ddr_write_word_counter cs
      else if i = 2 then ddr_write_pkg_counter cs
      else if i = 3 then range_get 31 0 (ddr_write_length_counter cs)
      else if i = 4 then ddr_write_sts_counter cs
      else if i = 5 then ddr_write_sts_error_counter cs
      else if i = 6 then ddr_read_cmd_counter cs
      else if i = 7 then ddr_read_word_counter cs
      else if i = 8 then ddr_read_pkg_counter cs
      else if i = 9 then range_get 31 0 (ddr_read_length_counter cs)
      else if i = 10 then ddr_read_sts_counter cs
      else if i = 11 then ddr_read_sts_error_counter cs
      else if i = 12 then (if ddr_s2mm_error cs then 1 else 0) OR (if ddr_mm2s_error cs then 2 else 0)
      else 0)"

text \<open>A completed read of register number \<open>addr\<close>; a write changes nothing.\<close>

definition ddr_ctrl_read :: "nat \<Rightarrow> ddr_ctrl \<Rightarrow> u32 \<times> ddr_ctrl" where
  "ddr_ctrl_read addr st =
     (let st = (if dd_statsRegAddr st = 13 then st\<lparr>dd_statsRegAddr := 0\<rparr> else st); cs = dd_counters st in
      if addr = 1 then (ddr_stats_reg cs (unat (dd_statsRegAddr st)), st\<lparr>dd_statsRegAddr := dd_statsRegAddr st + 1\<rparr>)
      else if addr = 3 then
        (length_half (dd_read_length_upper st) (ddr_read_length_counter cs), st\<lparr>dd_read_length_upper := \<not> dd_read_length_upper st\<rparr>)
      else if addr = 4 then
        (length_half (dd_write_length_upper st) (ddr_write_length_counter cs), st\<lparr>dd_write_length_upper := \<not> dd_write_length_upper st\<rparr>)
      else (0xdeadbeef, st))"

section \<open>The AXI-Lite ports\<close>

definition ddr_write_reset :: "axil_write_regs \<Rightarrow> axil_write_regs" where
  "ddr_write_reset st = st\<lparr>awready := False, wready := False, bvalid := False, writeState := WRITE_IDLE\<rparr>"

text \<open>The address of a write is not kept, and every write is answered with an error.\<close>

definition ddr_write_edge :: "axil_write_in \<Rightarrow> axil_write_regs \<Rightarrow> axil_write_regs" where
  "ddr_write_edge i st =
     (case writeState st of
        WRITE_IDLE \<Rightarrow>
          (let st' = st\<lparr>awready := True, wready := False, bvalid := False\<rparr>
           in if awvalid i \<and> awready st then st'\<lparr>awready := False, wready := True, writeState := WRITE_DATA\<rparr> else st')
      | WRITE_DATA \<Rightarrow>
          if wvalid i \<and> wready st then st\<lparr>wready := False, bvalid := True, bresp := 2, writeState := WRITE_RESPONSE\<rparr> else st\<lparr>wready := True\<rparr>
      | WRITE_RESPONSE \<Rightarrow> if bvalid st \<and> bready i then st\<lparr>bvalid := False, writeState := WRITE_IDLE\<rparr> else st\<lparr>bvalid := True\<rparr>
      | _ \<Rightarrow> st)"

fun ddr_write_cycle :: "axil_write_in \<Rightarrow> axil_write_regs \<times> unit write_log \<Rightarrow> axil_write_regs \<times> unit write_log" where
  "ddr_write_cycle i (st, log) = (ddr_write_edge i st, log_channels dma_reg i st log)"

record ddr_read_regs = axil_read_regs +
  statsRegAddr :: u8
  read_length_upper :: bool
  write_length_upper :: bool

definition ddr_read_reset :: "ddr_read_regs \<Rightarrow> ddr_read_regs" where
  "ddr_read_reset st = st\<lparr>arready := False, rresp := 0, rvalid := False, readState := READ_IDLE, statsRegAddr := 0,
     read_length_upper := False, write_length_upper := False\<rparr>"

text \<open>The cases of the address in \<open>READ_RESPONSE\<close>: data and response.\<close>

definition ddr_read_data :: "ddr_counters \<Rightarrow> ddr_read_regs \<Rightarrow> u32 \<times> 2 word" where
  "ddr_read_data cs st =
     (if readAddr st = 1 then
        (if statsRegAddr st < 13 then (ddr_stats_reg cs (unat (statsRegAddr st)), 0) else (0, 2))
      else if readAddr st = 3 then
        (if \<not> read_length_upper st then range_get 31 0 (ddr_read_length_counter cs) else range_get 47 32 (ddr_read_length_counter cs), 0)
      else if readAddr st = 4 then
        (if \<not> write_length_upper st then range_get 31 0 (ddr_write_length_counter cs) else range_get 47 32 (ddr_write_length_counter cs), 0)
      else (0xdeadbeef, 2))"

definition ddr_read_edge :: "axil_read_in \<Rightarrow> ddr_counters \<Rightarrow> ddr_read_regs \<Rightarrow> ddr_read_regs" where
  "ddr_read_edge i cs st =
     (case readState st of
        READ_IDLE \<Rightarrow>
          (let st' = st\<lparr>arready := True, statsRegAddr := (if statsRegAddr st = 13 then 0 else statsRegAddr st)\<rparr>
           in if arready st \<and> arvalid i then st'\<lparr>readAddr := dma_reg (araddr i), arready := False, readState := READ_RESPONSE\<rparr> else st')
      | READ_RESPONSE \<Rightarrow>
          (let (v, resp) = ddr_read_data cs st; st' = st\<lparr>rvalid := True, rdata := v, rresp := resp\<rparr> in
           if rvalid st \<and> rready i then
             st'\<lparr>rvalid := False,
                 statsRegAddr := (if readAddr st = 1 then statsRegAddr st + 1 else statsRegAddr st),
                 read_length_upper := (if readAddr st = 3 then \<not> read_length_upper st else read_length_upper st),
                 write_length_upper := (if readAddr st = 4 then \<not> write_length_upper st else write_length_upper st),
                 readState := READ_IDLE\<rparr>
           else st'))"

abbreviation "ddr_read_cycle \<equiv> read_cycle dma_reg ddr_read_edge"

abbreviation "ddr_reads \<equiv> read_txns (\<lambda>a cs d. ddr_ctrl_read a (d\<lparr>dd_counters := cs\<rparr>))"

definition ddr_response :: "nat \<Rightarrow> 2 word" where
  "ddr_response a = (if a \<in> {1, 3, 4} then 0 else 2)"

definition ddr_read_agrees :: "ddr_read_regs \<Rightarrow> ddr_ctrl \<Rightarrow> bool" where
  "ddr_read_agrees st d \<longleftrightarrow>
     read_length_upper st = dd_read_length_upper d \<and> write_length_upper st = dd_write_length_upper d \<and> statsRegAddr st \<le> 13 \<and>
     (statsRegAddr st = dd_statsRegAddr d \<or> (statsRegAddr st = 0 \<and> dd_statsRegAddr d = 13))"

lemma ddr_reg_number [simp]: "unat (a :: u32) = 1 \<longleftrightarrow> a = 1" "unat (a :: u32) = 4 \<longleftrightarrow> a = 4" "unat (a :: u32) = Suc 0 \<longleftrightarrow> a = 1"
  by (simp_all add: word_unat_eq_iff)

lemma ddr_read_own:
  assumes "axil_read_regs.more st = axil_read_regs.more st'"
  shows "statsRegAddr st = statsRegAddr st'" "read_length_upper st = read_length_upper st'" "write_length_upper st = write_length_upper st'"
  using assms by (cases st; cases st'; simp)+

lemma ddr_read_data_ok:
  assumes "ddr_read_agrees st d" and "statsRegAddr st < 13"
  shows "ddr_read_data cs st = (fst (ddr_ctrl_read (unat (readAddr st)) (d\<lparr>dd_counters := cs\<rparr>)), ddr_response (unat (readAddr st)))"
  using assms
  by (cases "dd_statsRegAddr d = 13")
    (auto simp: ddr_read_agrees_def ddr_read_data_def ddr_ctrl_read_def length_half_def ddr_response_def Let_def)

lemma ddr_ctrl_read_state:
  "dd_read_length_upper (snd (ddr_ctrl_read a d)) = (if a = 3 then \<not> dd_read_length_upper d else dd_read_length_upper d)"
  "dd_write_length_upper (snd (ddr_ctrl_read a d)) = (if a = 4 then \<not> dd_write_length_upper d else dd_write_length_upper d)"
  "dd_statsRegAddr (snd (ddr_ctrl_read a d)) =
     (let r = if dd_statsRegAddr d = 13 then 0 else dd_statsRegAddr d in if a = 1 then r + 1 else r)"
  by (simp_all add: ddr_ctrl_read_def Let_def)

interpretation ddr: read_port dma_reg ddr_read_edge ddr_read_data
  "\<lambda>st. axil_read_regs.more (st\<lparr>statsRegAddr := (if statsRegAddr st = 13 then 0 else statsRegAddr st)\<rparr>)"
  "\<lambda>st. axil_read_regs.more (st\<lparr>
     statsRegAddr := (if readAddr st = 1 then statsRegAddr st + 1 else statsRegAddr st),
     read_length_upper := (if readAddr st = 3 then \<not> read_length_upper st else read_length_upper st),
     write_length_upper := (if readAddr st = 4 then \<not> write_length_upper st else write_length_upper st)\<rparr>)"
  "\<lambda>a cs d. ddr_ctrl_read a (d\<lparr>dd_counters := cs\<rparr>)" ddr_response
  ddr_read_agrees "\<lambda>st d. ddr_read_agrees st d \<and> statsRegAddr st \<noteq> 13"
proof (unfold_locales, goal_cases)
  case (1 st i cs)
  then show ?case by (cases st) (simp add: ddr_read_edge_def Let_def)
next
  case (2 st i cs)
  then show ?case by (cases st) (simp add: ddr_read_edge_def Let_def case_prod_beta)
next
  case (3 st st' d)
  then show ?case using ddr_read_own [OF 3] by (simp add: ddr_read_agrees_def)
next
  case (4 st d)
  then show ?case by (cases st) (auto simp: ddr_read_agrees_def)
next
  case (5 st d)
  then show ?case by simp
next
  case (6 st d cs)
  then show ?case by (intro ddr_read_data_ok) (auto simp: ddr_read_agrees_def order.strict_iff_order)
next
  case (7 st d cs)
  then have "statsRegAddr st < 13" by (auto simp: ddr_read_agrees_def order.strict_iff_order)
  then have "statsRegAddr st + 1 \<le> 13" by (simp add: word_le_nat_alt word_less_nat_alt unat_word_ariths)
  then show ?case using 7 by (cases st) (auto simp: ddr_read_agrees_def ddr_ctrl_read_state Let_def)
qed

text \<open>The write port answers every write with an error, and nothing else follows from it.\<close>

definition ddr_write_inv :: "axil_write_regs \<Rightarrow> unit write_log \<Rightarrow> bool" where
  "ddr_write_inv st log \<longleftrightarrow>
     writeState st \<in> {WRITE_IDLE, WRITE_DATA, WRITE_RESPONSE} \<and> set (log_b log) \<subseteq> {2} \<and>
     length (log_aw log) = length (log_b log) + (if writeState st = WRITE_IDLE then 0 else 1) \<and>
     length (log_w log) = length (log_b log) + (if writeState st = WRITE_RESPONSE then 1 else 0) \<and>
     (awready st \<longrightarrow> writeState st = WRITE_IDLE) \<and> (wready st \<longrightarrow> writeState st = WRITE_DATA) \<and>
     (bvalid st \<longrightarrow> writeState st = WRITE_RESPONSE) \<and> (writeState st = WRITE_RESPONSE \<longrightarrow> bresp st = 2)"

lemma ddr_write_step: "ddr_write_inv st log \<Longrightarrow> ddr_write_inv (ddr_write_edge i st) (log_channels dma_reg i st log)"
  by (cases "writeState st") (auto simp: ddr_write_inv_def ddr_write_edge_def log_channels_def Let_def)

interpretation ddw: port_run ddr_write_cycle "\<lambda>(g :: unit) (st, log). ddr_write_inv st log" id
proof (unfold_locales, goal_cases)
  case (1 g s i)
  then show ?case using ddr_write_step by (cases s) simp
qed

section \<open>The board as a device\<close>

text \<open>The crossbar of \<^verbatim>\<open>os.sv\<close> has four ports: the role, the DMA controller and two memory channels. Their windows are those
  with which the crossbar is configured in \<^verbatim>\<open>projects/create_adm7v3_proj.tcl\<close> (line 91, and equally in \<^verbatim>\<open>create_vcu118_proj.tcl\<close>,
  line 92): 4 KB each, at the multiples of 0x1000. What the vendor's crossbar returns outside the windows is the
  parameter \<open>unmapped\<close>.\<close>

record board =
  bd_regs :: fpga_regs
  bd_ddr0 :: ddr_ctrl
  bd_ddr1 :: ddr_ctrl

definition board_write :: "u64 \<Rightarrow> u32 \<Rightarrow> board \<Rightarrow> board" where
  "board_write off v b = (if unat off < 8192 then b\<lparr>bd_regs := fpga_write off v (bd_regs b)\<rparr> else b)"

definition board_read :: "(u64 \<Rightarrow> u32) \<Rightarrow> u64 \<Rightarrow> board \<Rightarrow> u32 \<times> board" where
  "board_read unmapped off b =
     (if unat off < 8192 then (case fpga_read unmapped off (bd_regs b) of (v, r) \<Rightarrow> (v, b\<lparr>bd_regs := r\<rparr>))
      else if unat off < 12288 then (case ddr_ctrl_read (unat off mod 4096 div 32) (bd_ddr0 b) of (v, c) \<Rightarrow> (v, b\<lparr>bd_ddr0 := c\<rparr>))
      else if unat off < 16384 then (case ddr_ctrl_read (unat off mod 4096 div 32) (bd_ddr1 b) of (v, c) \<Rightarrow> (v, b\<lparr>bd_ddr1 := c\<rparr>))
      else (unmapped off, b))"

definition board_device :: "(u64 \<Rightarrow> u32) \<Rightarrow> (board \<Rightarrow> board) \<Rightarrow> board device" where
  "board_device unmapped tick = \<lparr>host_little = True, dev_write = board_write, dev_read = board_read unmapped, dev_sleep = tick\<rparr>"

text \<open>What the print loop needs of the window of one channel: access to its register file.\<close>

locale ddr_window =
  fixes rd :: "'b \<Rightarrow> u32 \<times> 'b" and get :: "'b \<Rightarrow> ddr_ctrl" and put :: "ddr_ctrl \<Rightarrow> 'b \<Rightarrow> 'b"
  assumes reads: "rd b = (case ddr_ctrl_read 1 (get b) of (v, c) \<Rightarrow> (v, put c b))"
    and get_put: "get (put c b) = c" and put_put: "put c (put c' b) = put c b" and put_get: "put (get b) b = b"
begin

lemma print_from:
  assumes "dd_statsRegAddr (get b) = of_nat j" and "j + length names \<le> 13"
  shows "print_regs rd names b = (zip names (map (ddr_stats_reg (dd_counters (get b))) [j..<j + length names]),
    put ((get b)\<lparr>dd_statsRegAddr := of_nat (j + length names)\<rparr>) b)"
  using assms
proof (induction names arbitrary: b j)
  case Nil
  then have "(get b)\<lparr>dd_statsRegAddr := of_nat j\<rparr> = get b" by (cases "get b") simp
  then show ?case by (simp add: put_get)
next
  case (Cons name names)
  let ?c = "(get b)\<lparr>dd_statsRegAddr := of_nat (Suc j)\<rparr>"
  have j: "j < 13" "unat (of_nat j :: u8) = j" using Cons(3) by (simp_all add: unat_of_nat)
  then have "(of_nat j :: u8) \<noteq> 13" by (auto simp: word_unat_eq_iff)
  then have "rd b = (ddr_stats_reg (dd_counters (get b)) j, put ?c b)"
    using Cons(2) j by (simp add: reads ddr_ctrl_read_def add.commute Let_def)
  moreover have "[j..<Suc (j + length names)] = j # [Suc j..<Suc (j + length names)]" by (simp add: upt_conv_Cons del: upt_Suc)
  ultimately show ?case using Cons(1) [of "put ?c b" "Suc j"] Cons(3) by (simp add: get_put put_put del: upt_Suc)
qed

lemma print_all:
  assumes "dd_statsRegAddr (get b) \<in> {0, 13}" and "length names = 13"
  shows "print_regs rd names b = (zip names (map (ddr_stats_reg (dd_counters (get b))) [0..<13]), put ((get b)\<lparr>dd_statsRegAddr := 13\<rparr>) b)"
proof (cases "dd_statsRegAddr (get b) = 0")
  case True
  then show ?thesis using print_from [of b 0 names] assms(2) by simp
next
  case False
  let ?b = "put ((get b)\<lparr>dd_statsRegAddr := 0\<rparr>) b"
  have "ddr_ctrl_read 1 (get b) = ddr_ctrl_read 1 ((get b)\<lparr>dd_statsRegAddr := 0\<rparr>)"
    using False assms(1) by (simp add: ddr_ctrl_read_def)
  then have "rd b = rd ?b" by (simp add: reads get_put put_put)
  moreover obtain name names' where "names = name # names'" using assms(2) by (cases names) auto
  ultimately have "print_regs rd names b = print_regs rd names ?b" by simp
  then show ?thesis using print_from [of ?b 0 names] assms(2) by (simp add: get_put put_put)
qed

end

abbreviation board_rd :: "(u64 \<Rightarrow> u32) \<Rightarrow> u8 \<Rightarrow> board \<Rightarrow> u32 \<times> board" where
  "board_rd unmapped channel \<equiv> board_read unmapped (reg_offset (ddrRegAddressOffset ! unat channel) (ddrCtrlAddr_value DDR_STATS))"

lemmas ddr_offsets = ddrRegAddressOffset_def reg_offset_def push_bit_eq_mult board_read_def

interpretation ch0: ddr_window "board_rd unmapped 0" bd_ddr0 "\<lambda>c. bd_ddr0_update (\<lambda>_. c)" for unmapped
  by unfold_locales (simp_all add: ddr_offsets)

interpretation ch1: ddr_window "board_rd unmapped 1" bd_ddr1 "\<lambda>c. bd_ddr1_update (\<lambda>_. c)" for unmapped
  by unfold_locales (simp_all add: ddr_offsets)

lemma board_print:
  assumes "unat channel < 4"
  shows "printDdrStatsRegs (board_device unmapped tick) channel b =
    Inr (print_regs (board_rd unmapped channel) (take numDdrStatsRegs DdrRegNames) b)"
proof -
  have "readReg_ddr (board_device unmapped tick) DDR_STATS channel = (\<lambda>b. Inr (board_rd unmapped channel b))"
    using assms by (auto simp: readReg_ddr_def board_device_def htols_def ddrRegAddressOffset_def split: prod.split)
  then show ?thesis by (simp add: printDdrStatsRegs_def print_ddr_regs_eq)
qed

section \<open>Properties\<close>

text \<open>C24. The commands of a DRAM benchmark reach the data mover as they are, for every stall of its command stream, if the
  memory lies in the first 4 GB and the chunk is shorter than 8 MB: address and number of bytes are those of the command. In every case the
  command asks for an incrementing burst with end of frame, and for a transfer of \<open>length mod 2 ^ 23\<close> bytes at
  \<open>address mod 2 ^ 32\<close>, so that no command with a longer chunk arrives as it is.\<close>

theorem dram_benchmark_at_data_mover:
  assumes "bench_valid r" and "\<not> start r" and "cg_state st = IDLE"
    and "cmd_calls ((r\<lparr>start := True\<rparr>, False, rfull, wfull) # map (Pair r) fs) st = (st', ss, rd, wr)" and "c \<in> set rd \<union> set wr"
  shows "dm_eof (dm_cmd c) \<and> dm_type (dm_cmd c) \<and> unat (dm_btt (dm_cmd c)) = unat (chunkLength r) mod 2 ^ 23 \<and>
    unat (dm_address (dm_cmd c)) = unat (cmd_addr c) mod 2 ^ 32 \<and>
    (unat (regBaseAddr r) + unat (memorySize r) \<le> 2 ^ 32 \<and> 0 < unat (chunkLength r) \<longrightarrow>
       unat (dm_address (dm_cmd c)) = unat (cmd_addr c)) \<and>
    (unat (dm_btt (dm_cmd c)) = unat (cmd_len c) \<longleftrightarrow> unat (chunkLength r) < 2 ^ 23)"
proof -
  from cmd_calls_run [OF assms(1-3), of rfull wfull fs] assms(4,5) obtain i where
    c: "c = \<lparr>cmd_addr = bench_addr r i, cmd_len = chunkLength r\<rparr>"
    by (auto simp: bench_cmds_def Let_def split: if_splits)
  then have "unat (cmd_addr c) + unat (chunkLength r) \<le> unat (regBaseAddr r) + unat (memorySize r)"
    using unat_bench_addr(1) [OF assms(1), of i] bench_slot_fits [OF assms(1), of i] by simp
  then have "unat (regBaseAddr r) + unat (memorySize r) \<le> 2 ^ 32 \<and> 0 < unat (chunkLength r) \<longrightarrow> unat (cmd_addr c) < 2 ^ 32" by linarith
  moreover have "unat (dm_btt (dm_cmd c)) = unat (chunkLength r) mod 2 ^ 23" "unat (dm_address (dm_cmd c)) = unat (cmd_addr c) mod 2 ^ 32"
    by (simp_all add: dm_cmd_fields unsigned_ucast_eq take_bit_eq_mod c)
  moreover have "unat (dm_btt (dm_cmd c)) = unat (cmd_len c) \<longleftrightarrow> unat (chunkLength r) < 2 ^ 23" using dm_cmd_exact(2) [of c] c by simp
  ultimately show ?thesis using dm_cmd_fields(4,5) [of c] dm_cmd_exact(1) [of c] by blast
qed

theorem dram_benchmark_at_data_mover_witness:
  "\<exists>st' ss rd wr c. cmd_calls [(example_regs\<lparr>start := True\<rparr>, False, False, False), (example_regs, False, False, False)]
      (b_cmd (bench_init 0 0 0)) = (st', ss, rd, wr) \<and> c \<in> set rd \<union> set wr \<and>
     unat (dm_address (dm_cmd c)) = unat (cmd_addr c) \<and> unat (dm_btt (dm_cmd c)) = unat (cmd_len c)"
proof -
  let ?fs = "[(False, False, False)]"
  have r: "\<not> start example_regs" "cg_state (b_cmd (bench_init 0 0 0)) = IDLE" by (simp_all add: example_regs_def bench_init_def)
  obtain st' where run: "cmd_calls ((example_regs\<lparr>start := True\<rparr>, False, False, False) # map (Pair example_regs) ?fs) (b_cmd (bench_init 0 0 0)) =
      (st', [True], [], [\<lparr>cmd_addr = 0x1000, cmd_len = 0x100\<rparr>])"
    by (simp add: cmd_generator_def bench_init_def example_regs_def)
  from dram_benchmark_at_data_mover [OF example_regs_valid(1) r run, of "\<lparr>cmd_addr = 0x1000, cmd_len = 0x100\<rparr>"] run
  show ?thesis by (fastforce simp: example_regs_def)
qed

text \<open>C26. What the statistics of a memory channel count, after any number of edges of its two clocks from reset: the commands and
  statuses that have passed, and the words, packets and bytes of each direction, where every word carries a whole number of groups of eight
  bytes. The error counters stay zero, whatever statuses the data mover has returned.\<close>

theorem ddr_statistics_count:
  assumes "fold ddr_user_edge uins ddr_user_reset = u" and "fold ddr_mem_edge mins ddr_mem_reset = m"
    and "\<forall>w \<in> set (write_words mins @ read_words mins). \<exists>n. 0 < n \<and> n \<le> 8 \<and> axis_keep w = mask (8 * n)"
  shows "user_write_cmd_counter u = of_nat (length (filter write_cmd_passes uins)) \<and>
    user_read_cmd_counter u = of_nat (length (filter read_cmd_passes uins)) \<and>
    user_write_sts_counter u = of_nat (length (List.map_filter write_sts uins)) \<and>
    user_read_sts_counter u = of_nat (length (List.map_filter read_sts uins)) \<and>
    user_write_sts_error_counter u = 0 \<and> user_read_sts_error_counter u = 0 \<and>
    mem_write_word_counter m = of_nat (length (write_words mins)) \<and> mem_read_word_counter m = of_nat (length (read_words mins)) \<and>
    mem_write_pkg_counter m = of_nat (length (filter axis_last (write_words mins))) \<and>
    mem_read_pkg_counter m = of_nat (length (filter axis_last (read_words mins))) \<and>
    mem_write_length_counter m = of_nat (sum_list (map (\<lambda>w. length (valid_bytes w)) (write_words mins))) \<and>
    mem_read_length_counter m = of_nat (sum_list (map (\<lambda>w. length (valid_bytes w)) (read_words mins)))"
proof -
  have "counted (write_words mins) = (of_nat (length (write_words mins)), of_nat (length (filter axis_last (write_words mins))),
      of_nat (sum_list (map (\<lambda>w. length (valid_bytes w)) (write_words mins))))"
    "counted (read_words mins) = (of_nat (length (read_words mins)), of_nat (length (filter axis_last (read_words mins))),
      of_nat (sum_list (map (\<lambda>w. length (valid_bytes w)) (read_words mins))))"
    using assms(3) by (auto intro!: counted_bytes)
  then show ?thesis using mem_counted [OF assms(2)] assms(1) user_counted [of uins ddr_user_reset] by (simp add: ddr_user_reset_def)
qed

definition example_ddr_word :: "(512, 64) axis" where
  "example_ddr_word = \<lparr>axis_data = 0, axis_keep = 0xFFFF, axis_last = True\<rparr>"

definition example_mem_in :: ddr_mem_in where
  "example_mem_in = \<lparr>write_word = Some example_ddr_word, read_word = None\<rparr>"

definition example_user_in :: ddr_user_in where
  "example_user_in = \<lparr>write_cmd_passes = True, write_sts = Some 0x40, read_cmd_passes = False, read_sts = None\<rparr>"

theorem ddr_statistics_count_witness:
  "user_write_sts_error_counter (fold ddr_user_edge [example_user_in, example_user_in] ddr_user_reset) = 0 \<and>
   mem_write_length_counter (fold ddr_mem_edge [example_mem_in, example_mem_in, example_mem_in] ddr_mem_reset) = 48"
proof -
  have words: "write_words [example_mem_in, example_mem_in, example_mem_in] = [example_ddr_word, example_ddr_word, example_ddr_word]"
    "read_words [example_mem_in, example_mem_in, example_mem_in] = []"
    by (simp_all add: write_words_def read_words_def example_mem_in_def map_filter_simps)
  have keep: "\<exists>n. 0 < n \<and> n \<le> 8 \<and> axis_keep example_ddr_word = mask (8 * n)"
    by (rule exI [of _ 2]) (simp add: example_ddr_word_def mask_eq_exp_minus_1)
  have kept: "length (valid_bytes example_ddr_word) = 16" by (simp add: valid_bytes_def example_ddr_word_def upt_rec)
  from ddr_statistics_count [OF refl refl, of "[example_mem_in, example_mem_in, example_mem_in]" "[example_user_in, example_user_in]"] keep
  show ?thesis by (simp add: words kept)
qed

text \<open>Both ports of the memory controller, for every timing of the master, after any number of clock cycles from reset: the words
  read are those of \<open>ddr_ctrl_read\<close> for the accepted addresses in order, each on the counters of the edge before the one at which the
  word is taken, with an error response exactly for a register that cannot be read; every write is answered, after its word, with an error.\<close>

theorem ddr_controller_ports:
  assumes "fold ddr_read_cycle rins (ddr_read_reset rst0, cs0, no_read_log) = (rst, prev, rlog)"
    and "fold ddr_write_cycle wins (ddr_write_reset wst0, no_log) = (wst, wlog)"
  shows "map fst (log_r rlog) = fst (ddr_reads (zip (log_ar rlog) (ar_sample rlog)) (ddr_ctrl_reset cs)) \<and>
    map snd (log_r rlog) = map (ddr_response \<circ> fst) (zip (log_ar rlog) (ar_sample rlog)) \<and>
    length (log_r rlog) \<le> length (log_ar rlog) \<and> length (log_ar rlog) \<le> Suc (length (log_r rlog)) \<and>
    set (log_b wlog) \<subseteq> {2} \<and> length (log_b wlog) \<le> length (log_w wlog) \<and> length (log_w wlog) \<le> length (log_aw wlog) \<and>
    length (log_aw wlog) \<le> Suc (length (log_b wlog))"
proof -
  have "ddr_write_inv (ddr_write_reset wst0) no_log" by (simp add: ddr_write_inv_def ddr_write_reset_def no_log_def)
  then have "ddr_write_inv wst wlog"
    using ddw.run_corresponds [of "(ddr_write_reset wst0, no_log)" "()" wins] assms(2) by simp
  then have "set (log_b wlog) \<subseteq> {2} \<and> length (log_b wlog) \<le> length (log_w wlog) \<and> length (log_w wlog) \<le> length (log_aw wlog) \<and>
      length (log_aw wlog) \<le> Suc (length (log_b wlog))"
    by (auto simp: ddr_write_inv_def)
  then show ?thesis
    using ddr.reads_refine [OF assms(1), of "ddr_ctrl_reset cs"] by (simp add: ddr_read_reset_def ddr_read_agrees_def ddr_ctrl_reset_def)
qed

definition example_ddr_counters :: ddr_counters where
  "example_ddr_counters = ddr_wires
     \<lparr>user_write_cmd_counter = 1, user_write_sts_counter = 2, user_write_sts_error_counter = 0,
      user_read_cmd_counter = 3, user_read_sts_counter = 4, user_read_sts_error_counter = 0\<rparr>
     \<lparr>mem_write_word_counter = 5, mem_write_pkg_counter = 6, mem_write_length_counter = 0x700000007,
      mem_read_word_counter = 8, mem_read_pkg_counter = 9, mem_read_length_counter = 10\<rparr> True False"

definition example_ddr_read :: axil_read_in where
  "example_ddr_read = \<lparr>arvalid = True, araddr = 0x2020, rready = True\<rparr>"

definition example_ddr_read_regs :: ddr_read_regs where
  "example_ddr_read_regs = \<lparr>readState = READ_IDLE, readAddr = 0, arready = True, rresp = 0, rvalid = False, rdata = 0,
     statsRegAddr = 5, read_length_upper = True, write_length_upper = True\<rparr>"

definition example_ddr_write_regs :: axil_write_regs where
  "example_ddr_write_regs = \<lparr>writeState = WRITE_DATA, writeAddr = 0, awready = True, wready = False, bvalid = False, bresp = 0, word_counter = 0\<rparr>"

lemma example_ddr_read_run:
  "\<exists>st. fold ddr_read_cycle [(example_ddr_read, example_ddr_counters), (example_ddr_read, example_ddr_counters),
       (example_ddr_read, example_ddr_counters), (example_ddr_read, example_ddr_counters)]
     (ddr_read_reset example_ddr_read_regs, example_ddr_counters, no_read_log) =
   (st, example_ddr_counters, \<lparr>log_ar = [1], log_r = [(1, 0)], ar_sample = [example_ddr_counters]\<rparr>)"
  by (simp add: example_ddr_read_def example_ddr_read_regs_def ddr_read_reset_def ddr_read_edge_def ddr_read_data_def ddr_stats_reg_def
      log_read_channels_def no_read_log_def dma_reg_def example_ddr_counters_def ddr_wires_def)

lemma example_ddr_write_run:
  "\<exists>st. fold ddr_write_cycle [example_write, example_write, example_write, example_write] (ddr_write_reset example_ddr_write_regs, no_log) =
   (st, \<lparr>log_aw = [2], log_w = [7], log_b = [2], log_out = []\<rparr>)"
  by (simp add: example_write_def example_ddr_write_regs_def ddr_write_reset_def ddr_write_edge_def log_channels_def no_log_def dma_reg_def)

theorem ddr_controller_ports_witness:
  "[1] = fst (ddr_reads [(1, example_ddr_counters)] (ddr_ctrl_reset example_ddr_counters)) \<and> [0] = [ddr_response 1]"
proof -
  obtain rst wst where
    "fold ddr_read_cycle [(example_ddr_read, example_ddr_counters), (example_ddr_read, example_ddr_counters),
       (example_ddr_read, example_ddr_counters), (example_ddr_read, example_ddr_counters)]
     (ddr_read_reset example_ddr_read_regs, example_ddr_counters, no_read_log) =
     (rst, example_ddr_counters, \<lparr>log_ar = [1], log_r = [(1, 0)], ar_sample = [example_ddr_counters]\<rparr>)"
    "fold ddr_write_cycle [example_write, example_write, example_write, example_write] (ddr_write_reset example_ddr_write_regs, no_log) =
     (wst, \<lparr>log_aw = [2], log_w = [7], log_b = [2], log_out = []\<rparr>)"
    using example_ddr_read_run example_ddr_write_run by blast
  from ddr_controller_ports [OF this, of example_ddr_counters] show ?thesis by simp
qed

text \<open>The lines the host is to print for a channel with these counters and error lines.\<close>

definition ddr_lines :: "ddr_user_counters \<Rightarrow> ddr_mem_counters \<Rightarrow> bool \<Rightarrow> bool \<Rightarrow> (string \<times> u32) list" where
  "ddr_lines u m s2mm_error mm2s_error =
     [(''write cmd counter'', user_write_cmd_counter u), (''write word counter'', mem_write_word_counter m),
      (''write pkg counter'', mem_write_pkg_counter m), (''write length counter'', range_get 31 0 (mem_write_length_counter m)),
      (''write status counter'', user_write_sts_counter u), (''write error counter'', user_write_sts_error_counter u),
      (''read cmd counter'', user_read_cmd_counter u), (''read word counter'', mem_read_word_counter m),
      (''read pkg counter'', mem_read_pkg_counter m), (''read length counter'', range_get 31 0 (mem_read_length_counter m)),
      (''read status counter'', user_read_sts_counter u), (''read error counter'', user_read_sts_error_counter u),
      (''datamover errors'', (if mm2s_error then 1 else 0) OR (if s2mm_error then 2 else 0))]"

text \<open>C25. \<open>printDdrStatsRegs\<close> on the board, for each of the two channels the hardware has: the host prints the thirteen counters of
  that channel, each under its name, the lower 32 bits of the two byte counters, and the next call starts with the first counter again. In the last
  value the error of the direction into memory (\<open>s2mm\<close>) is bit 1 and the other is bit 0.\<close>

theorem ddr_stats_under_their_names:
  assumes "dd_statsRegAddr (bd_ddr0 b) \<in> {0, 13}" and "dd_statsRegAddr (bd_ddr1 b) \<in> {0, 13}"
    and "dd_counters (bd_ddr0 b) = ddr_wires u0 m0 s0 t0" and "dd_counters (bd_ddr1 b) = ddr_wires u1 m1 s1 t1"
  shows "printDdrStatsRegs (board_device unmapped tick) 0 b = Inr (ddr_lines u0 m0 s0 t0, b\<lparr>bd_ddr0 := (bd_ddr0 b)\<lparr>dd_statsRegAddr := 13\<rparr>\<rparr>) \<and>
    printDdrStatsRegs (board_device unmapped tick) 1 b = Inr (ddr_lines u1 m1 s1 t1, b\<lparr>bd_ddr1 := (bd_ddr1 b)\<lparr>dd_statsRegAddr := 13\<rparr>\<rparr>)"
proof -
  let ?names = "take numDdrStatsRegs DdrRegNames"
  have len: "length ?names = 13" by (simp add: numDdrStatsRegs_def DdrRegNames_def)
  have upt: "[0..<13] = [0, 1, 2, 3, 4, 5, 6, 7, 8, 9, 10, 11, 12 :: nat]" by (simp add: upt_rec)
  have vals: "zip ?names (map (ddr_stats_reg (ddr_wires u m s t)) [0..<13]) = ddr_lines u m s t" for u m s t
    by (simp only: upt list.map ddr_lines_def) (simp add: ddr_stats_reg_def ddr_wires_def numDdrStatsRegs_def DdrRegNames_def)
  show ?thesis
    using ch0.print_all [OF assms(1) len, of unmapped] ch1.print_all [OF assms(2) len, of unmapped]
    by (simp add: board_print assms(3,4) vals)
qed

definition example_board :: board where
  "example_board = \<lparr>bd_regs = example_fpga, bd_ddr0 = ddr_ctrl_reset example_ddr_counters, bd_ddr1 = ddr_ctrl_reset example_ddr_counters\<rparr>"

theorem ddr_stats_under_their_names_witness:
  "\<exists>b. printDdrStatsRegs (board_device (\<lambda>_. 0) id) 0 example_board =
    Inr ([(''write cmd counter'', 1), (''write word counter'', 5), (''write pkg counter'', 6), (''write length counter'', 7),
       (''write status counter'', 2), (''write error counter'', 0), (''read cmd counter'', 3), (''read word counter'', 8),
       (''read pkg counter'', 9), (''read length counter'', 10), (''read status counter'', 4), (''read error counter'', 0),
       (''datamover errors'', 2)], b)"
proof -
  let ?u = "\<lparr>user_write_cmd_counter = 1, user_write_sts_counter = 2, user_write_sts_error_counter = 0,
      user_read_cmd_counter = 3, user_read_sts_counter = 4, user_read_sts_error_counter = 0\<rparr>"
  let ?m = "\<lparr>mem_write_word_counter = 5, mem_write_pkg_counter = 6, mem_write_length_counter = 0x700000007,
      mem_read_word_counter = 8, mem_read_pkg_counter = 9, mem_read_length_counter = 10\<rparr>"
  show ?thesis using ddr_stats_under_their_names [of example_board ?u ?m True False ?u ?m True False "\<lambda>_. 0" id]
    by (simp add: example_board_def ddr_ctrl_reset_def example_ddr_counters_def ddr_lines_def range_get_def take_bit_eq_mod)
qed

end
