(* ===== verification/Spec2Isabelle.thy ===== *)
theory Spec2Isabelle
  imports Axi_Utils Axi_Text Axi_Realign Axi_Shift Axi_Merge Ethernet_Padding Tlb Page_Boundary Dma_Bench Memory_Manager
    Register_Controllers Fpga_Controller Xdma_Probe Xdma_Memory Fpga Dma_Interface Benchmark_Role Memory_Threads Axi_Lite
    Controller_Threads Ddr_Memory
begin

text \<open>
  A verification library for the DMA driver for FPGAs: the stream modules on the FPGA
  (\<^verbatim>\<open>src/hls\<close>), the logic that joins them with each other and the host (\<^verbatim>\<open>src/hdl/common\<close>), the kernel driver
  (\<^verbatim>\<open>src/driver\<close>) and the host library with its two programs (\<^verbatim>\<open>src/sw/src\<close>).

  \<^bold>\<open>How the parts work together.\<close> The host program opens a buffer of 1024 huge pages; the kernel
  driver pins its pages and reports the bus addresses of the huge pages (\<open>ioctl\<close>). The host sends
  them, one mapping after the other, through the registers of the DMA controller to the TLB on the
  FPGA, and hands out blocks of the buffer with its own allocator. A benchmark request goes through
  the registers of the benchmark controller and the role to the benchmark engine, whose memory commands carry
  virtual addresses. In the DMA interface the page-boundary module splits write commands and data
  where a transfer would cross a page, the TLB translates both kinds of commands, and the results become
  descriptors of the PCIe core.

  \<^bold>\<open>Theories, in the order of their imports.\<close>

  \<^item> \<^verbatim>\<open>Dma_Prelude\<close>: word types, bit ranges, bytes of a word, and streams: a process is a function from
    its static variables and input streams to new ones and the words it writes. The locales
    \<open>hls_process\<close> and \<open>join_process\<close> state that a call reads a prefix of its input and does not look
    behind it; their lemmas make results independent of how calls and arrivals interleave.
  \<^item> \<^verbatim>\<open>Axi_Utils\<close> (\<^verbatim>\<open>hls/axi_utils.hpp\<close>, \<^verbatim>\<open>axi_utils.cpp\<close>): stream words, opcodes, byte order, keep tables,
    width conversion. Converting to double width and back is the identity.
  \<^item> \<^verbatim>\<open>Axi_Text\<close>: the text readers and writers of the same file, and that they are inverse.
  \<^item> \<^verbatim>\<open>Axi_Realign\<close>, \<^verbatim>\<open>Axi_Shift\<close>: the locale \<open>realigner\<close> of a module that holds part of the last word, and
    the two shift modules: a right shift removes exactly a prefix of every packet and undoes a left
    shift; with offset 0 it loses the first word.
  \<^item> \<^verbatim>\<open>Axi_Merge\<close>: the mergers. The fair one forwards everything in order and alternates; the packet
    merger gets stuck.
  \<^item> \<^verbatim>\<open>Ethernet_Padding\<close>: padding of frames of up to 255 words to the minimum size, and the wrap of the word counter at 256.
  \<^item> \<^verbatim>\<open>Mem_Utils\<close>, \<^verbatim>\<open>Tlb\<close> (\<^verbatim>\<open>hls/tlb\<close>): commands, the page table as the locale \<open>page_table\<close>, translation and
    counters, stale entries after a change of the base. What the TLB answers to a command is stated by \<open>tlb_answers\<close>, over calls of
    \<open>tlb\<close> itself.
  \<^item> \<^verbatim>\<open>Page_Boundary\<close> (\<^verbatim>\<open>hls/mem_write_cmd_page_boundary_check_512\<close>): the three processes, their
    composition with the two FIFOs of bounded depth between them, commands that wait for data when a FIFO is full, and the two cases
    the module does not handle.
  \<^item> \<^verbatim>\<open>Dma_Bench\<close> (\<^verbatim>\<open>hls/dma_bench\<close>): command sequence, bounds of the addresses, a complete write
    run with any stalls of the streams (a stalled call is a call the clock counts), a complete read run, and the internal
    FIFOs drained by every call.
  \<^item> \<^verbatim>\<open>Memory_Manager\<close> (\<^verbatim>\<open>sw/src/fpga/MemoryManager.cpp\<close>): the locale \<open>block_allocator\<close>, the tiling
    invariant, reachable states as an inductive relation, fresh zeroed blocks.
  \<^item> \<^verbatim>\<open>Memory_Threads\<close>: the same two functions as interleaved steps of threads; every interleaving is a run of the
    sequential model, no call of \<open>free\<close> loses its block, \<open>free\<close> is wait free, and \<open>allocate\<close>, of which
    any number of calls may wait for the mutex, always releases it.
  \<^item> \<^verbatim>\<open>Register_Controllers\<close> (\<^verbatim>\<open>hdl/common/dma_controller.sv\<close>, \<^verbatim>\<open>benchmark_controller.sv\<close>): the register
    files, one completed bus transaction per step.
  \<^item> \<^verbatim>\<open>Axi_Lite\<close>: the AXI-Lite state machines of the same two modules, one clock edge per step. The locale
    \<open>port_run\<close> carries a correspondence with transactions over a run; \<open>read_port\<close> extends it to what the read
    ports share. Each of the four ports implements the transactions for every timing.
  \<^item> \<^verbatim>\<open>Dma_Interface\<close> (\<^verbatim>\<open>hdl/common/dma_inf.sv\<close>): the composition of page-boundary check, TLB and descriptor ports
    as a list of events in any order: the descriptors are the translated pieces of the commands, all of them are delivered with
    their data once the packets have arrived (those of the last four commands may be missing), the statistics are exact, and
    the page-boundary check is called with a base register that lags behind.
  \<^item> \<^verbatim>\<open>Benchmark_Role\<close> (\<^verbatim>\<open>hdl/common/benchmark_role.sv\<close>): the start of an engine by a request.
  \<^item> \<^verbatim>\<open>Fpga_Controller\<close> (\<^verbatim>\<open>sw/src/fpga/FpgaController.cpp\<close>): register access over a device that is a
    parameter, the locale \<open>mapping_device\<close> for what the set-up needs of it, interpreted on the
    register files; polling loops as partial functions, with the cases in which they return and do
    not return.
  \<^item> \<^verbatim>\<open>Controller_Threads\<close>: the same operations as programs of single register accesses, possibly infinite, called by any
    number of threads under \<open>ctrl_mutex\<close>. The lock serializes them, on every device they act as calls
    one after the other, concurrent mappings reach the TLB over the AXI-Lite port unmixed, and a benchmark that does not end
    keeps the lock forever.
  \<^item> \<^verbatim>\<open>Ddr_Memory\<close> (\<^verbatim>\<open>hdl/common/mem_single_inf.sv\<close>, \<^verbatim>\<open>ddr_controller.sv\<close>): commands of the data mover,
    statistics and register file of a memory channel, both AXI-Lite ports (\<open>read_port\<close> again), and the board with two
    channels as a device of the host controller.
  \<^item> \<^verbatim>\<open>Xdma_Device\<close>, \<^verbatim>\<open>Xdma_Probe\<close>, \<^verbatim>\<open>Xdma_Memory\<close> (\<^verbatim>\<open>driver/xdma_driver.c\<close>): the driver's data and
    registers; \<open>probe\<close> and \<open>remove\<close> as a log of kernel calls from which the resources held are
    computed; \<open>ioctl\<close> and \<open>mmap\<close> with page flags, reference counts and faults as error values.
  \<^item> \<^verbatim>\<open>Fpga\<close> (\<^verbatim>\<open>sw/src/fpga/Fpga.cpp\<close>, \<^verbatim>\<open>main.cpp\<close>, \<^verbatim>\<open>debug.cpp\<close>): set-up, clean-up and the programs, with
    pointers that are null, live or dangling. The locales \<open>buffer_driver\<close> and \<open>host_set_up\<close> state what
    the set-up needs of the driver and the device.
  \<^item> This theory interprets these locales on the driver and the register files and proves the properties that span them
    all: the TLB answers a command to any byte of any block the allocator can hand out with the address of the
    physical byte the kernel has for it, and a write benchmark on such a block, with accesses of at most one page, makes the PCIe core
    transfer bytes of that block only.

  \<^bold>\<open>Conventions.\<close> Machine integers are words of their width; C integers that hold only return codes
  and small counts are \<open>int\<close> or \<open>nat\<close>. Uninitialised values, answers of the kernel, of the operating
  system and of the vendor's IP are arguments of the definitions. An index outside an array, a wild
  or dangling pointer and a missing \<open>return\<close> are error values. Every loop is a total function, except
  the polling loops, which are partial functions with result \<open>None\<close> when they run forever; no fuel is
  used. A stream between modules is a list without a bound, except where the code relies on its depth or asks whether it is full: the FIFOs of
  the page-boundary check, and the command and data streams of the benchmark engine, whose stalls are inputs. The numbers of calls in the statements about streams (for example one call per mapping) are
  shown to be enough by the statement itself.

  \<^bold>\<open>Not modelled.\<close> The test benches, which are for simulation only; the Verilog that
  wires vendor IP together (\<^verbatim>\<open>hdl/common/os.sv\<close>, of which only the numbering of the register windows is used, the network modules, the top
  levels), the vendor's data mover and memory controllers, clock converters and register slices, which are lists in order or
  omitted, and resets in the middle of a run; parsing of the command line by Boost, console output and the floating-point throughput; memory orders weaker than
  sequential consistency in the concurrent allocator and controller.
\<close>

section \<open>The driver behind the host program\<close>

text \<open>The operating system state that the two commands change: the buffer fields of the device
  instance and the pages. \<open>ioctl\<close> returns -1 for a negative code; a call that faults does not return,
  which the value -1 stands for and no result below depends on.\<close>

type_synonym driver_state = "dev_memory \<times> page_state"

definition user_rc :: "int \<Rightarrow> int" where
  "user_rc rc = (if rc < 0 then -1 else rc)"

definition driver_set :: "sys_env \<Rightarrow> xdma_huge \<Rightarrow> driver_state \<Rightarrow> int \<times> driver_state" where
  "driver_set env huge q =
     (case char_xdma_ioctl env (IOCTL_XDMA_BUFFER_SET huge) (fst q) (snd q) of
        Inl _ \<Rightarrow> (-1, q) | Inr (rc, _, q') \<Rightarrow> (user_rc rc, q'))"

definition driver_get :: "sys_env \<Rightarrow> u64 \<Rightarrow> driver_state \<Rightarrow> (int \<times> u64 option \<times> u64 list) \<times> driver_state" where
  "driver_get env n q =
     (case char_xdma_ioctl env (IOCTL_XDMA_MAPPING_GET n) (fst q) (snd q) of
        Inl _ \<Rightarrow> ((-1, None, []), q) | Inr (rc, out, q') \<Rightarrow> ((user_rc rc, out), q'))"

text \<open>The buffer consists of 1024 physically contiguous pages of 2 MB with 48-bit addresses.\<close>

definition huge_buffer :: "sys_env \<Rightarrow> u64 list \<Rightarrow> bool" where
  "huge_buffer env got \<longleftrightarrow> length got = 524288 \<and>
     (\<forall>k < 1024. unat (page_to_phys env (got ! (512 * k))) < 2 ^ 48 \<and>
       (\<forall>r < 512. page_to_phys env (got ! (512 * k + r)) = page_to_phys env (got ! (512 * k)) + of_nat (r * 4096)))"

definition empty_io :: tlb_io where
  "empty_io = \<lparr>s_axis_mem_write_cmd = [], s_axis_mem_read_cmd = [], m_axis_dma_write_cmd = [], m_axis_dma_read_cmd = [],
     s_axis_tlb_interface = [], regTlbMissCount = 0, regPageCrossingCount = 0\<rparr>"

section \<open>From the buffer to the device\<close>

definition page_list :: "sys_env \<Rightarrow> u64 list \<Rightarrow> u64 list" where
  "page_list env got = map (\<lambda>k. page_to_phys env (got ! (512 * k))) [0..<1024]"

text \<open>The driver keeps the contract that the set-up relies on; the environment of the second command
  may differ from that of the first.\<close>

definition xdma_pinned :: "sys_env \<times> sys_env \<Rightarrow> xdma_huge \<Rightarrow> u64 list \<Rightarrow> bool" where
  "xdma_pinned e huge ps \<longleftrightarrow> (\<exists>got. pins (fst e) huge got \<and> reports (snd e) \<and>
     ps = map (\<lambda>k. page_to_phys (snd e) (got ! (512 * k))) [0..<huge_count (length got)])"

interpretation xdma: host_set_up "fpga_device ddr tick" tlb_idle "\<lambda>d. dc_tlb_out (fr_dma d)"
    "\<lambda>e. driver_set (fst e)" "\<lambda>e. driver_get (snd e)" xdma_pinned for ddr tick
proof
  fix e huge ps q rc q1 and n :: u64
  assume "xdma_pinned e huge ps" and set: "driver_set (fst e) huge q = (rc, q1)" and n: "length ps \<le> unat n"
  then obtain got where got: "pins (fst e) huge got" "reports (snd e)"
    "ps = map (\<lambda>k. page_to_phys (snd e) (got ! (512 * k))) [0..<huge_count (length got)]" by (auto simp: xdma_pinned_def)
  from mapping_of_pinned [OF got(1,2), of n "fst q" "snd q"] n got(3) obtain inst' ps' where
    "char_xdma_ioctl (fst e) (IOCTL_XDMA_BUFFER_SET huge) (fst q) (snd q) = Inr (0, (None, []), inst', ps')"
    "char_xdma_ioctl (snd e) (IOCTL_XDMA_MAPPING_GET n) inst' ps' = Inr (0, (Some (of_nat (huge_count (length got))), ps), inst', ps')"
    by auto
  with set got(3) show "driver_get (snd e) n q1 = ((0, Some (of_nat (length ps)), ps), q1)"
    by (auto simp: driver_set_def driver_get_def user_rc_def)
qed

lemma set_up_delivers_pages:
  assumes "os_ready os" "os_ioctl_set os = driver_set env" "os_ioctl_get os = driver_get env'"
    and "pins env \<lparr>huge_addr = os_mmap_huge os, huge_len = DMA_SIZE\<rparr> got" "reports env'" "length got = 524288"
    and "controller st = Null" "tlb_idle d"
  shows "\<exists>q' d'. initializeMemory os (fpga_device ddr tick) st mem q d =
      Inr (set_up os (new_controller os) st, memset (os_mmap_huge os) 0 DMA_SIZE mem, q', d') \<and>
    dc_tlb_out (fr_dma d') = dc_tlb_out (fr_dma d) @ region_mappings (os_mmap_huge os) (page_list env' got)"
proof -
  have len: "length (page_list env' got) = 1024" by (simp add: page_list_def)
  then have "page_list env' got \<noteq> []" by auto
  moreover have "huge_count 524288 = 1024" by (simp add: huge_count_def)
  then have "xdma_pinned (env, env') \<lparr>huge_addr = os_mmap_huge os, huge_len = DMA_SIZE\<rparr> (page_list env' got)"
    using assms(4-6) by (auto simp: xdma_pinned_def page_list_def)
  ultimately show ?thesis
    using xdma.set_up_delivers [of os "(env, env')" st d "page_list env' got" ddr tick mem q] assms(1-3,7,8) len by auto
qed

text \<open>The TLB that has read the mappings translates every address of the buffer to the 4 KB page of
  the kernel that holds it.\<close>

lemma tlb_translates_buffer:
  assumes "huge_buffer env got" "unat base + unat DMA_SIZE < 2 ^ 64"
    and "unat base \<le> unat x" "unat x < unat base + unat DMA_SIZE"
  shows "translation (tlb_fill (st\<lparr>base_vaddr := base\<rparr>) (page_list env got) 1024) x =
    Some (page_to_phys env (got ! (unat (x - base) div 4096)) + of_nat (unat (x - base) mod 4096))"
proof -
  define a where "a = unat (x - base)"
  define i where "i = a div page_bytes"
  define off where "off = a mod page_bytes"
  have "unat DMA_SIZE = 1024 * page_bytes" by (simp add: configuration)
  moreover have "x - base < DMA_SIZE" using in_range [OF assms(2)] assms(3,4) by blast
  ultimately have a: "a < 1024 * page_bytes" by (simp add: a_def word_less_nat_alt)
  have i: "i < 1024" using a by (simp add: i_def less_mult_imp_div_less)
  have off: "off < page_bytes" by (simp add: off_def)
  have a_eq: "a = i * page_bytes + off" by (simp add: i_def off_def)
  have x: "x = page_addr base i off" unfolding page_addr_def a_eq [symmetric] a_def by simp
  have split: "a div 4096 = 512 * i + off div 4096" "a mod 4096 = off mod 4096" "off div 4096 < 512"
  proof -
    have "a = off + (512 * i) * 4096" by (simp add: a_eq)
    then show "a div 4096 = 512 * i + off div 4096" "a mod 4096 = off mod 4096"
      by (simp_all only: mod_mult_self1)
    show "off div 4096 < 512" using off by (simp add: less_mult_imp_div_less)
  qed
  have phys: "page_to_phys env (got ! (a div 4096)) = page_to_phys env (got ! (512 * i)) + of_nat (off div 4096 * 4096)"
    using assms(1) i split unfolding huge_buffer_def by simp
  have "\<forall>p \<in> set (page_list env got). unat p < 2 ^ 48" using assms(1) by (auto simp: page_list_def huge_buffer_def)
  then have "translation (tlb_fill (st\<lparr>base_vaddr := base\<rparr>) (page_list env got) 1024) x = Some (page_list env got ! i + of_nat off)"
    using tlb_fill_translation [where ps = "page_list env got" and i = i and off = off and st = st and base = base] i off unfolding x by (simp add: page_list_def)
  also have "page_list env got ! i = page_to_phys env (got ! (512 * i))" using i by (simp add: page_list_def)
  also have "(of_nat off :: u64) = of_nat (off div 4096 * 4096) + of_nat (a mod 4096)"
    unfolding split(2) of_nat_add [symmetric] div_mult_mod_eq ..
  also have "page_to_phys env (got ! (512 * i)) + (of_nat (off div 4096 * 4096) + of_nat (a mod 4096)) =
      page_to_phys env (got ! (a div 4096)) + of_nat (a mod 4096)" unfolding phys by (simp only: add.assoc)
  finally show ?thesis by (simp add: a_def)
qed

text \<open>C1. From the allocator to physical memory: after the set-up, with the kernel driver pinning and
  reporting a buffer of huge pages, the TLB that has read the mappings sent to it answers every command, of either direction
  and of any length, that starts at an address of a block that the memory manager can ever hand out, in every state that
  allocations, frees and writes reach, with a DMA command to the physical address of the byte the kernel has for that
  address (and the low 28 bits of the length).\<close>

theorem allocated_memory_is_translated:
  assumes "os_ready os" "os_ioctl_set os = driver_set env" "os_ioctl_get os = driver_get env'"
    and "pins env \<lparr>huge_addr = base, huge_len = DMA_SIZE\<rparr> got" "reports env'" "huge_buffer env' got"
    and "controller st = Null" "tlb_idle d" "dc_tlb_out (fr_dma d) = []" "base = os_mmap_huge os" "unat base + unat DMA_SIZE < 2 ^ 64"
  shows "\<exists>st' m mem' q' d' tlb'. initializeMemory os (fpga_device ddr tick) st mem q d = Inr (st', mem', q', d') \<and>
    mm_ptr st' = Live m \<and> mm_reachable base DMA_SIZE (m, mem') \<and>
    tlb_calls 1024 tlb_init (empty_io\<lparr>s_axis_tlb_interface := dc_tlb_out (fr_dma d')\<rparr>) = Inr (tlb', empty_io) \<and>
    (\<forall>ms mem'' b x len. mm_reachable base DMA_SIZE (ms, mem'') \<longrightarrow> b \<in> mm_live ms \<longrightarrow> fst b \<le> unat x \<longrightarrow> unat x < fst b + snd b \<longrightarrow>
      tlb_answers tlb' \<lparr>cmd_addr = x, cmd_len = len\<rparr>
        \<lparr>dma_addr = page_to_phys env' (got ! (unat (x - base) div 4096)) + of_nat (unat (x - base) mod 4096), dma_len = ucast len\<rparr>)"
proof -
  let ?ps = "page_list env' got" and ?m = "fst (mm_construct base DMA_SIZE (\<lambda>_. 0))"
  have got: "length got = 524288" using assms(6) by (simp add: huge_buffer_def)
  from set_up_delivers_pages [OF assms(1-3) assms(4) [unfolded assms(10)] assms(5) got assms(7,8), of ddr tick mem q] assms(9,10)
  obtain q' d' where init: "initializeMemory os (fpga_device ddr tick) st mem q d =
      Inr (set_up os (new_controller os) st, memset base 0 DMA_SIZE mem, q', d')"
    and out: "dc_tlb_out (fr_dma d') = region_mappings base ?ps" by auto
  have len: "length ?ps = 1024" by (simp add: page_list_def)
  let ?io = "empty_io\<lparr>s_axis_tlb_interface := region_mappings base ?ps\<rparr>" and ?tlb = "tlb_fill (tlb_init\<lparr>base_vaddr := base\<rparr>) ?ps 1024"
  have calls: "tlb_calls 1024 tlb_init ?io = Inr (?tlb, empty_io)"
    using tlb_region_prefix [of ?io base ?ps 1024 tlb_init] len by (simp add: empty_io_def no_commands_def region_mappings_def)
  have reach: "mm_reachable base DMA_SIZE (?m, memset base 0 DMA_SIZE mem)"
    using reach_construct [of base DMA_SIZE mem] by (simp add: mm_construct_def)
  have pos: "0 < unat DMA_SIZE" by (simp add: configuration)
  have live: "unat base \<le> unat x \<and> unat x < unat base + unat DMA_SIZE"
    if "mm_reachable base DMA_SIZE (ms, mem'')" "b \<in> mm_live ms" "fst b \<le> unat x" "unat x < fst b + snd b" for ms mem'' b and x :: u64
  proof -
    from mm_reachable_inv [OF assms(11) pos that(1)] have "layout (unat base) (mm_chunks ms) (unat base + unat DMA_SIZE)"
      by (auto simp: mm_inv_def mm_region_def)
    with that(2-4) show ?thesis by (auto simp: mm_live_def chunk_block_def dest: layout_chunk)
  qed
  have "tlb_answers ?tlb \<lparr>cmd_addr = x, cmd_len = len\<rparr>
      \<lparr>dma_addr = page_to_phys env' (got ! (unat (x - base) div 4096)) + of_nat (unat (x - base) mod 4096), dma_len = ucast len\<rparr>"
    if "mm_reachable base DMA_SIZE (ms, mem'')" "b \<in> mm_live ms" "fst b \<le> unat x" "unat x < fst b + snd b" for ms mem'' b x and len :: u32
    using tlb_answers_translated [of ?tlb "\<lparr>cmd_addr = x, cmd_len = len\<rparr>"] tlb_translates_buffer [OF assms(6,11), of x tlb_init] live [OF that] by simp
  moreover have "mm_ptr (set_up os (new_controller os) st) = Live ?m" by (simp add: set_up_def assms(10))
  ultimately show ?thesis
    using init reach calls by (intro exI conjI) (auto simp: out)
qed

text \<open>An instance: a buffer at 1 GB of virtual memory on the 2 GB of physical memory above 4 GB.\<close>

definition example_got :: "u64 list" where
  "example_got = map of_nat [0..<524288]"

definition example_kernel :: sys_env where
  "example_kernel = \<lparr>copy_from_user = 0, vmalloc_ok = True, get_user_pages = (\<lambda>a n. (524288, example_got)),
     page_to_phys = (\<lambda>p. 0x100000000 + p * 4096), kmalloc_ok = True, copy_to_user_map = 0, copy_to_user_addr = 0\<rparr>"

definition example_host :: "driver_state os_env" where
  "example_host = \<lparr>os_open_huge = 3, os_mmap_huge = 0x40000000, os_open_dev = 4, os_mmap_ctrl = 0x7000,
     os_ioctl_set = driver_set example_kernel, os_calloc_ok = True, os_ioctl_get = driver_get example_kernel\<rparr>"

lemma example_got_length: "length example_got = 524288"
  unfolding example_got_def length_map length_upt by simp

lemma example_got_nth: "i < 524288 \<Longrightarrow> example_got ! i = of_nat i"
  unfolding example_got_def by (subst nth_map_upt) simp_all

lemma example_kernel_ok:
  "pins example_kernel \<lparr>huge_addr = 0x40000000, huge_len = DMA_SIZE\<rparr> example_got" "reports example_kernel" "huge_buffer example_kernel example_got"
proof -
  have ne: "example_got \<noteq> []" using example_got_length by auto
  have n: "1 + (DMA_SIZE - 1) div KPAGE_SIZE = 524288" by (simp add: configuration KPAGE_SIZE_def)
  show "pins example_kernel \<lparr>huge_addr = 0x40000000, huge_len = DMA_SIZE\<rparr> example_got"
    using ne by (simp add: pins_def example_kernel_def example_got_length n)
  show "reports example_kernel" by (simp add: reports_def example_kernel_def)
  have phys: "page_to_phys example_kernel (example_got ! i) = 0x100000000 + of_nat (i * 4096)" if "i < 524288" for i
    using example_got_nth [OF that] by (simp add: example_kernel_def)
  have "unat (page_to_phys example_kernel (example_got ! (512 * k))) < 2 ^ 48" if "k < 1024" for k
  proof -
    have "(0x100000000 :: u64) + of_nat (512 * k * 4096) = of_nat (0x100000000 + 512 * k * 4096)" by simp
    then show ?thesis using phys [of "512 * k"] that by (simp add: unat_of_nat del: of_nat_add of_nat_mult)
  qed
  moreover have "page_to_phys example_kernel (example_got ! (512 * k + r)) = page_to_phys example_kernel (example_got ! (512 * k)) + of_nat (r * 4096)"
    if "k < 1024" "r < 512" for k r
    using phys [of "512 * k"] phys [of "512 * k + r"] that by (simp add: algebra_simps)
  ultimately show "huge_buffer example_kernel example_got" by (simp add: huge_buffer_def example_got_length)
qed

lemma example_block: "\<exists>ms mem. mm_reachable 0x40000000 DMA_SIZE (ms, mem) \<and> (unat (0x40000000 :: u64), 4096) \<in> mm_live ms"
proof -
  obtain mm mem where c: "mm_construct 0x40000000 DMA_SIZE (\<lambda>_. 7) = (mm, mem)" by (cases "mm_construct 0x40000000 DMA_SIZE (\<lambda>_. 7)")
  have r: "mm_reachable 0x40000000 DMA_SIZE (mm, mem)" using reach_construct [of "0x40000000" DMA_SIZE "\<lambda>_. 7"] c by simp
  obtain mm' where a: "allocate (\<lambda>_. False) 4096 mm = (mm', Some 0x40000000)"
    using c by (auto simp: mm_construct_def allocate_def new_chunk_def round_size_def configuration Let_def)
  have g: "good_size 4096" "unat (round_size 4096) = 4096" by (simp_all add: good_size_def round_size_def)
  have "unat (0x40000000 :: u64) + unat DMA_SIZE < 2 ^ 64" "0 < unat DMA_SIZE" by (simp_all add: configuration)
  from mm_reachable_inv [OF this r] have "mm_inv mm" by simp
  from allocate_live [OF this g(1) a] g(2) have "(unat (0x40000000 :: u64), 4096) \<in> mm_live mm'" by simp
  with reach_step [OF r step_allocate [OF g(1) a]] show ?thesis by blast
qed

theorem allocated_memory_is_translated_witness:
  "\<exists>st' m mem' q' d' tlb' tlb'' io'.
    initializeMemory example_host (fpga_device (\<lambda>_. 0) id) fpga_static_init (\<lambda>_. 7) (example_inst, example_pages) example_fpga = Inr (st', mem', q', d') \<and>
    mm_ptr st' = Live m \<and> mm_reachable 0x40000000 DMA_SIZE (m, mem') \<and>
    tlb_calls 1024 tlb_init (empty_io\<lparr>s_axis_tlb_interface := dc_tlb_out (fr_dma d')\<rparr>) = Inr (tlb', empty_io) \<and>
    tlb tlb' (empty_io\<lparr>s_axis_mem_write_cmd := [\<lparr>cmd_addr = 0x40000010, cmd_len = 64\<rparr>]\<rparr>) = Inr (tlb'', io') \<and>
    m_axis_dma_write_cmd io' = [\<lparr>dma_addr = 0x100000010, dma_len = 64\<rparr>]"
proof -
  have "os_ready example_host" "os_ioctl_set example_host = driver_set example_kernel" "os_ioctl_get example_host = driver_get example_kernel"
    "controller fpga_static_init = Null" "tlb_idle example_fpga" "dc_tlb_out (fr_dma example_fpga) = []" "0x40000000 = os_mmap_huge example_host"
    "unat (0x40000000 :: u64) + unat DMA_SIZE < 2 ^ 64"
    by (simp_all add: example_host_def os_ready_def MAP_FAILED_def fpga_static_init_def tlb_idle_def example_fpga_def dma_ctrl_reset_def configuration)
  from allocated_memory_is_translated [OF this(1-3) example_kernel_ok this(4-8), of "\<lambda>_. 0" id "\<lambda>_. 7" "(example_inst, example_pages)"]
  obtain st' m mem' q' d' tlb' where
    init: "initializeMemory example_host (fpga_device (\<lambda>_. 0) id) fpga_static_init (\<lambda>_. 7) (example_inst, example_pages) example_fpga = Inr (st', mem', q', d')"
      "mm_ptr st' = Live m" "mm_reachable 0x40000000 DMA_SIZE (m, mem')"
      "tlb_calls 1024 tlb_init (empty_io\<lparr>s_axis_tlb_interface := dc_tlb_out (fr_dma d')\<rparr>) = Inr (tlb', empty_io)"
    and ans: "\<And>ms mem'' b x len. mm_reachable 0x40000000 DMA_SIZE (ms, mem'') \<Longrightarrow> b \<in> mm_live ms \<Longrightarrow> fst b \<le> unat x \<Longrightarrow> unat x < fst b + snd b \<Longrightarrow>
      tlb_answers tlb' \<lparr>cmd_addr = x, cmd_len = len\<rparr>
        \<lparr>dma_addr = page_to_phys example_kernel (example_got ! (unat (x - 0x40000000) div 4096)) + of_nat (unat (x - 0x40000000) mod 4096), dma_len = ucast len\<rparr>"
    by blast
  obtain ms mem where ms: "mm_reachable 0x40000000 DMA_SIZE (ms, mem)" "(unat (0x40000000 :: u64), 4096) \<in> mm_live ms" using example_block by blast
  have "tlb_answers tlb' \<lparr>cmd_addr = 0x40000010, cmd_len = 64\<rparr> \<lparr>dma_addr = 0x100000010, dma_len = 64\<rparr>"
    using ans [OF ms, of "0x40000010" 64] example_got_nth [of 0] by (simp add: example_kernel_def)
  from tlb_answers_write [OF this, of "empty_io\<lparr>s_axis_mem_write_cmd := [\<lparr>cmd_addr = 0x40000010, cmd_len = 64\<rparr>]\<rparr>" "[]"]
  obtain tlb'' io' where "tlb tlb' (empty_io\<lparr>s_axis_mem_write_cmd := [\<lparr>cmd_addr = 0x40000010, cmd_len = 64\<rparr>]\<rparr>) = Inr (tlb'', io')"
    "m_axis_dma_write_cmd io' = [\<lparr>dma_addr = 0x100000010, dma_len = 64\<rparr>]" by (auto simp: empty_io_def)
  with init show ?thesis by blast
qed

section \<open>From a benchmark request to physical memory\<close>

text \<open>The physical address of a byte of the buffer.\<close>

definition phys_byte :: "sys_env \<Rightarrow> u64 list \<Rightarrow> u64 \<Rightarrow> nat \<Rightarrow> u64" where
  "phys_byte env got base v = page_to_phys env (got ! ((v - unat base) div 4096)) + of_nat ((v - unat base) mod 4096)"

text \<open>A transfer of \<open>n\<close> bytes from the physical address \<open>p\<close> touches exactly the bytes of the buffer from \<open>v\<close> on.\<close>

definition transfers :: "sys_env \<Rightarrow> u64 list \<Rightarrow> u64 \<Rightarrow> nat \<Rightarrow> u64 \<Rightarrow> nat \<Rightarrow> bool" where
  "transfers env got base v p n \<longleftrightarrow> (\<forall>k < n. p + of_nat k = phys_byte env got base (v + k))"

text \<open>A piece that crosses no page, counted from any base that is a multiple of the page size.\<close>

lemma piece_descriptor:
  assumes "huge_buffer env got" and "unat base + unat DMA_SIZE < 2 ^ 48" and "unat base mod page_bytes = 0"
    and "tlb' = tlb_fill (st\<lparr>base_vaddr := base\<rparr>) (page_list env got) 1024"
    and "unat (b :: u48) mod page_bytes = 0" and "\<not> crosses b p" and "0 < unat (cmd_len p)"
    and "unat base \<le> unat (cmd_addr p)" and "unat (cmd_addr p) + unat (cmd_len p) \<le> unat base + unat DMA_SIZE"
  shows "translation tlb' (cmd_addr p) \<noteq> None \<and>
    (\<exists>q n. descriptor (translation tlb') p = (q, n) \<and> unat n = unat (cmd_len p) \<and> transfers env got base (unat (cmd_addr p)) q (unat n))"
proof -
  let ?x = "cmd_addr p" and ?n = "unat (cmd_len p)"
  have size: "unat DMA_SIZE = 1024 * page_bytes" by (simp add: configuration)
  have bound: "unat base + unat DMA_SIZE < 2 ^ 64" using assms(2) by (simp add: size)
  have base: "base_vaddr tlb' = base" using tlb_fill_frame [of 1024 "st\<lparr>base_vaddr := base\<rparr>"] by (simp add: assms(4))
  have tr: "translation tlb' (?x + of_nat k) = Some (phys_byte env got base (unat ?x + k))" if "k < ?n" for k
  proof -
    have u: "unat (?x + of_nat k) = unat ?x + k" using that assms(9) bound by (simp add: unat_word_ariths unat_of_nat)
    then have "unat (?x + of_nat k - base) = unat ?x + k - unat base" using assms(8) by (simp add: unat_sub word_le_nat_alt)
    with tlb_translates_buffer [OF assms(1) bound, of "?x + of_nat k" st] u that assms(8,9) show ?thesis
      by (simp add: assms(4) phys_byte_def)
  qed
  obtain q where q: "translation tlb' ?x = Some q" using tr [of 0] assms(7) by auto
  have "unat (ucast b :: u64) mod page_bytes = unat base mod page_bytes"
    using assms(3,5) unsigned_less [of b, where 'a = nat] by (simp add: unat_ucast_mod)
  from mod_diff_word [OF this, of ?x] assms(6) have off: "unat (?x - base) mod page_bytes + ?n \<le> page_bytes"
    by (simp add: crosses_def cmd_offset_def)
  have n: "unat (ucast (ucast (cmd_len p) :: 28 word) :: u32) = ?n" using off by (simp add: unat_len unat_ucast_mod)
  have "q + of_nat k = phys_byte env got base (unat ?x + k)" if "k < ?n" for k
    using translation_offset [OF q, of k] off that tr [OF that] by (simp add: base)
  then show ?thesis using q n by (simp add: descriptor_def transfers_def)
qed

text \<open>The commands of a request for memory of the buffer.\<close>

lemma request_commands:
  assumes "r = requested a m k c l True" and "unat a + unat m < 2 ^ 48" and "0 < unat c" and "unat c \<le> unat m" and "cg_state cg = IDLE"
    and "cmd_calls ((r, False, rfull, wfull) # map (Pair (r\<lparr>start := False\<rparr>)) fs) cg = (cg', ss, rd, wr)" and "x \<in> set wr"
  shows "unat a \<le> unat (cmd_addr x)" and "unat (cmd_addr x) + unat (cmd_len x) \<le> unat a + unat m" and "cmd_len x = c"
proof -
  let ?r = "r\<lparr>start := False\<rparr>"
  have t: "take_bit 48 a = a" "take_bit 48 m = m" using assms(2) by (simp_all add: word_unat_eq_iff take_bit_eq_mod unat_mod)
  have regs: "regBaseAddr ?r = a" "memorySize ?r = m" "chunkLength ?r = c" "strideLength ?r = l" "?r\<lparr>start := True\<rparr> = r" "\<not> start ?r"
    by (simp_all add: assms(1) requested_def t)
  have "bench_step ?r < 2 ^ 32" using unsigned_less [of c, where 'a = nat] unsigned_less [of l, where 'a = nat] by (simp add: bench_step_def regs)
  moreover have "0 < bench_step ?r" using assms(3) by (simp add: bench_step_def regs unat_gt_0)
  ultimately have valid: "bench_valid ?r" using assms(2,4) by (simp add: bench_valid_def regs)
  from cmd_calls_run [OF valid regs(6) assms(5), of rfull wfull fs] assms(6,7) obtain i where
    x: "x = \<lparr>cmd_addr = bench_addr ?r i, cmd_len = c\<rparr>"
    by (auto simp: regs bench_cmds_def Let_def split: if_splits)
  show "unat a \<le> unat (cmd_addr x)" "unat (cmd_addr x) + unat (cmd_len x) \<le> unat a + unat m" "cmd_len x = c"
    using unat_bench_addr(1) [OF valid, of i] bench_slot_fits [OF valid, of i] by (simp_all add: x regs)
qed

lemma live_block_in_buffer:
  assumes "unat base + unat DMA_SIZE < 2 ^ 64" and "mm_reachable base DMA_SIZE (ms, mem)" and "b \<in> mm_live ms"
  shows "unat base \<le> fst b \<and> fst b + snd b \<le> unat base + unat DMA_SIZE"
proof -
  have "0 < unat DMA_SIZE" by (simp add: configuration)
  from mm_reachable_inv [OF assms(1) this assms(2)] have "layout (unat base) (mm_chunks ms) (unat base + unat DMA_SIZE)"
    by (auto simp: mm_inv_def mm_region_def)
  with assms(3) show ?thesis by (auto simp: mm_live_def chunk_block_def dest: layout_chunk)
qed

text \<open>In a history of write commands only, what the PCIe core has taken are descriptors of pieces of them.\<close>

lemma taken_descriptors:
  assumes "dma_inf_idle s" and "no_mappings es" and "read_cmds es = []"
    and "\<forall>c \<in> set (concat (map (split_cmd (regBaseVaddrBoundCheck s)) (write_cmds es))). translation (di_tlb s) (cmd_addr c) \<noteq> None"
  shows "\<exists>s'. dma_inf_run es s = Inr s' \<and>
    set (di_c2h_dsc s') \<subseteq> descriptor (translation (di_tlb s)) ` set (concat (map (split_cmd (regBaseVaddrBoundCheck s)) (write_cmds es)))"
proof -
  from dma_inf_run_flow [OF idle_flow [OF assms(1)] assms(2)] assms(3,4) obtain s' w where
    s': "dma_inf_run es s = Inr s'" "tables_fixed (regBaseVaddrBoundCheck s) (translation (di_tlb s)) s'"
      "write_flow (translation (di_tlb s)) (write_cmds es) w s'" by auto
  from write_flow_prefix [OF s'(2,3)] obtain rest where
    "map (descriptor (translation (di_tlb s))) (concat (map (split_cmd (regBaseVaddrBoundCheck s)) (write_cmds es))) = di_c2h_dsc s' @ rest" by blast
  from arg_cong [OF this, of set] s'(1) show ?thesis unfolding set_append set_map by blast
qed

text \<open>C2. A write benchmark on a block of the allocator, with accesses of at most one page of 2 MB each, only ever writes the physical bytes of that
  block. The host has set up the device, the mappings it sent have been installed, and a request for a live block with
  such accesses has been started in the engine; no read commands are issued meanwhile. Then under every schedule of the modules
  and every pattern of stalls nothing fails, and each descriptor the PCIe core has taken covers exactly the
  physical bytes of a range of virtual addresses inside the block. The buffer and the register
  that the page-boundary check works with are aligned to 2 MB. The limit on the accesses is needed: the page-boundary check splits a
  command once only, so that an access that reaches into a third page is not confined (\<open>boundary_check_third_page\<close>).\<close>

theorem benchmark_stays_in_block:
  assumes "os_ready os" "os_ioctl_set os = driver_set env" "os_ioctl_get os = driver_get env'"
    and "pins env \<lparr>huge_addr = base, huge_len = DMA_SIZE\<rparr> got" "reports env'" "huge_buffer env' got"
    and "controller st = Null" "tlb_idle d" "dc_tlb_out (fr_dma d) = []" "base = os_mmap_huge os"
    and "unat base + unat DMA_SIZE < 2 ^ 48" "unat base mod page_bytes = 0"
    and "dma_inf_idle s" "unat (regBaseVaddr s) mod page_bytes = 0"
    and "mm_reachable base DMA_SIZE (ms, mem0)" "(unat a, len) \<in> mm_live ms" "unat m \<le> len"
    and "r = requested a m k c l True" "0 < unat c" "unat c \<le> unat m" "unat c \<le> page_bytes"
    and "cg_state cg = IDLE" "cmd_calls ((r, False, rfull, wfull) # map (Pair (r\<lparr>start := False\<rparr>)) fs) cg = (cg', ss, rd, wr)"
    and "no_mappings es" "wr = write_cmds es @ later" "read_cmds es = []"
  shows "\<exists>st' mem' q' d' s'. initializeMemory os (fpga_device ddr tick) st mem q d = Inr (st', mem', q', d') \<and>
    dma_inf_run (install_events (dc_tlb_out (fr_dma d')) @ es) s = Inr s' \<and>
    (\<forall>(p, n) \<in> set (di_c2h_dsc s'). \<exists>v. unat a \<le> v \<and> v + unat n \<le> unat a + unat m \<and> transfers env' got base v p (unat n))"
proof -
  let ?ps = "page_list env' got" and ?b = "regBaseVaddr s"
  have bound: "unat base + unat DMA_SIZE < 2 ^ 64" using assms(11) by simp
  have got: "length got = 524288" using assms(6) by (simp add: huge_buffer_def)
  have ps: "?ps \<noteq> []" "length ?ps = 1024" by (simp_all add: page_list_def)
  from set_up_delivers_pages [OF assms(1-3) assms(4) [unfolded assms(10)] assms(5) got assms(7,8), of ddr tick mem q] assms(9,10)
  obtain st' mem' q' d' where init: "initializeMemory os (fpga_device ddr tick) st mem q d = Inr (st', mem', q', d')"
    and out: "dc_tlb_out (fr_dma d') = region_mappings base ?ps" by auto
  from install_region [OF assms(13) ps(1), of base] ps(2) obtain s1 where
    s1: "dma_inf_run (install_events (region_mappings base ?ps)) s = Inr s1" "dma_inf_idle s1"
      "di_tlb s1 = tlb_fill ((di_tlb s)\<lparr>base_vaddr := base\<rparr>) ?ps 1024" "regBaseVaddrBoundCheck s1 = ?b" by auto
  have block: "unat base \<le> unat a" "unat a + unat m \<le> unat base + unat DMA_SIZE"
    using live_block_in_buffer [OF bound assms(15,16)] assms(17) by auto
  have "unat a + unat m < 2 ^ 48" using block assms(11) by simp
  note cmd = request_commands [OF assms(18) this assms(19,20,22,23)]
  have piece: "unat a \<le> unat (cmd_addr p) \<and> unat (cmd_addr p) + unat (cmd_len p) \<le> unat a + unat m \<and>
      translation (di_tlb s1) (cmd_addr p) \<noteq> None \<and> (\<exists>x n. descriptor (translation (di_tlb s1)) p = (x, n) \<and> unat n = unat (cmd_len p) \<and>
        transfers env' got base (unat (cmd_addr p)) x (unat n))"
    if "p \<in> set (concat (map (split_cmd ?b) (write_cmds es)))" for p
  proof -
    from that obtain x where x: "x \<in> set wr" "p \<in> set (split_cmd ?b x)" using assms(25) by auto
    have sum: "cmd_offset ?b x + unat (cmd_len x) \<le> 2 * page_bytes" using cmd_offset_less [of ?b x] cmd(3) [OF x(1)] assms(21) by simp
    have r: "unat (cmd_addr x) \<le> unat (cmd_addr p)" "unat (cmd_addr p) + unat (cmd_len p) \<le> unat (cmd_addr x) + unat (cmd_len x)" "0 < unat (cmd_len p)"
      using split_cmd_range [OF x(2)] cmd [OF x(1)] block(2) bound assms(19) by auto
    with piece_descriptor [OF assms(6,11,12) s1(3) assms(14) split_cmd_in_page [OF sum x(2)] r(3)] cmd(1,2) [OF x(1)] block show ?thesis by auto
  qed
  have "\<forall>c \<in> set (concat (map (split_cmd (regBaseVaddrBoundCheck s1)) (write_cmds es))). translation (di_tlb s1) (cmd_addr c) \<noteq> None"
    using piece s1(4) by simp
  from taken_descriptors [OF s1(2) assms(24,26) this] obtain s2 where s2: "dma_inf_run es s1 = Inr s2"
    and sub: "set (di_c2h_dsc s2) \<subseteq> descriptor (translation (di_tlb s1)) ` set (concat (map (split_cmd ?b) (write_cmds es)))"
    using s1(4) by auto
  have "\<forall>(p, n) \<in> set (di_c2h_dsc s2). \<exists>v. unat a \<le> v \<and> v + unat n \<le> unat a + unat m \<and> transfers env' got base v p (unat n)"
  proof (clarify)
    fix p n assume "(p, n) \<in> set (di_c2h_dsc s2)"
    with sub obtain x where x: "x \<in> set (concat (map (split_cmd ?b) (write_cmds es)))" "descriptor (translation (di_tlb s1)) x = (p, n)"
      by (metis (no_types, lifting) imageE subsetD)
    from piece [OF x(1)] x(2) show "\<exists>v. unat a \<le> v \<and> v + unat n \<le> unat a + unat m \<and> transfers env' got base v p (unat n)" by auto
  qed
  moreover have "dma_inf_run (install_events (dc_tlb_out (fr_dma d')) @ es) s = Inr s2" using s1(1) s2 by (simp add: out dma_inf_run_append)
  ultimately show ?thesis using init by blast
qed

text \<open>An instance: the first of two accesses of 64 bytes to a block of one small page.\<close>

definition example_request :: bench_regs where
  "example_request = requested 0x40000000 4096 2 64 0 True"

definition example_history :: "dma_event list" where
  "example_history = [Write_cmd \<lparr>cmd_addr = 0x40000000, cmd_len = 64\<rparr>, Check_call example_word, Tlb_call, Pcie_edge all_ready, Pcie_edge all_ready]"

lemma example_commands:
  "\<exists>cg' ss rd later. cmd_calls ((example_request, False, False, False) # map (Pair (example_request\<lparr>start := False\<rparr>)) [(False, False, False), (False, False, False)])
     (b_cmd (bench_init 0 0 0)) = (cg', ss, rd, write_cmds example_history @ later)"
  by (simp add: example_request_def requested_def cmd_generator_def bench_init_def advance_def Let_def example_history_def take_bit_eq_mod)

theorem benchmark_stays_in_block_witness:
  "\<exists>st' mem' q' d' s'.
    initializeMemory example_host (fpga_device (\<lambda>_. 0) id) fpga_static_init (\<lambda>_. 7) (example_inst, example_pages) example_fpga = Inr (st', mem', q', d') \<and>
    dma_inf_run (install_events (dc_tlb_out (fr_dma d')) @ example_history) example_dma = Inr s' \<and>
    (\<forall>(p, n) \<in> set (di_c2h_dsc s'). \<exists>v. 0x40000000 \<le> v \<and> v + unat n \<le> 0x40001000 \<and> transfers example_kernel example_got 0x40000000 v p (unat n))"
proof -
  have os: "os_ready example_host" "os_ioctl_set example_host = driver_set example_kernel" "os_ioctl_get example_host = driver_get example_kernel"
    by (simp_all add: example_host_def os_ready_def MAP_FAILED_def)
  have st: "controller fpga_static_init = Null" "tlb_idle example_fpga" "dc_tlb_out (fr_dma example_fpga) = []" "0x40000000 = os_mmap_huge example_host"
    "unat (0x40000000 :: u64) + unat DMA_SIZE < 2 ^ 48" "unat (0x40000000 :: u64) mod page_bytes = 0"
    by (simp_all add: fpga_static_init_def tlb_idle_def example_fpga_def dma_ctrl_reset_def example_host_def configuration)
  have dma: "unat (regBaseVaddr example_dma) mod page_bytes = 0" by (simp add: example_dma_def)
  have c: "unat (4096 :: u64) \<le> 4096" "0 < unat (64 :: u32)" "unat (64 :: u32) \<le> unat (4096 :: u64)" "unat (64 :: u32) \<le> page_bytes"
    "cg_state (b_cmd (bench_init 0 0 0)) = IDLE" by (simp_all add: bench_init_def)
  have es: "no_mappings example_history" "read_cmds example_history = []" by (simp_all add: no_mappings_def example_history_def)
  obtain ms mem where ms: "mm_reachable 0x40000000 DMA_SIZE (ms, mem)" "(unat (0x40000000 :: u64), 4096) \<in> mm_live ms" using example_block by blast
  obtain cg' ss rd later where run: "cmd_calls ((example_request, False, False, False) # map (Pair (example_request\<lparr>start := False\<rparr>)) [(False, False, False), (False, False, False)])
     (b_cmd (bench_init 0 0 0)) = (cg', ss, rd, write_cmds example_history @ later)" using example_commands by blast
  from benchmark_stays_in_block [OF os example_kernel_ok st example_dma_ready(1) dma ms c(1) example_request_def c(2-5) run es(1) refl es(2),
      of "\<lambda>_. 0" id "\<lambda>_. 7" "(example_inst, example_pages)"]
  show ?thesis by simp
qed

end
